(* ===== verification/Prelude.thy ===== *)
theory Prelude
  imports Main "HOL-Library.Word" "HOL-Library.Sublist" "HOL-Library.Multiset"
begin

text \<open>
  Shared material of the development: the machine-integer types of the program, little-endian
  byte encodings (\<open>to_le_bytes\<close> / \<open>from_le_bytes\<close> of the Rust standard library), slices, the
  part of Rust's \<open>str\<close> that the sources use, the \<open>Result\<close> type as a sum, and the generic
  transition-system locale that the components' invariants go through.
  Rust strings are their UTF-8 bytes: a \<^typ>\<open>string\<close> is a list of 8-bit \<^typ>\<open>char\<close>s, so
  \<open>length\<close> is \<open>str::len\<close>.
\<close>

section \<open>Machine integers\<close>

type_synonym u8 = "8 word"
type_synonym u16 = "16 word"
type_synonym u32 = "32 word"
type_synonym u64 = "64 word"

abbreviation Ok :: "'a \<Rightarrow> 'e + 'a" where
  "Ok \<equiv> Inr"

abbreviation Err :: "'e \<Rightarrow> 'e + 'a" where
  "Err \<equiv> Inl"

named_theorems le_simps \<open>little-endian encodings\<close>
named_theorems slice_simps \<open>slices of appended byte strings\<close>
named_theorems str_simps \<open>evaluation of the string helpers\<close>

text \<open>Rust's \<open>i64\<close> arithmetic: two's complement wrap-around, and division rounding towards zero.\<close>

definition i64_wrap :: "int \<Rightarrow> int" where
  "i64_wrap i = (i + 2 ^ 63) mod 2 ^ 64 - 2 ^ 63"

definition i64_range :: "int \<Rightarrow> bool" where
  "i64_range i \<longleftrightarrow> - (2 ^ 63) \<le> i \<and> i < 2 ^ 63"

definition tdiv :: "int \<Rightarrow> int \<Rightarrow> int" where
  "tdiv a b = sgn a * sgn b * (\<bar>a\<bar> div \<bar>b\<bar>)"

lemma i64_wrap_id: "i64_range i \<Longrightarrow> i64_wrap i = i"
  by (simp add: i64_range_def i64_wrap_def)

lemma i64_wrap_range: "i64_range (i64_wrap i)"
  unfolding i64_range_def i64_wrap_def by auto

section \<open>Transition systems\<close>

text \<open>
  The contract every stateful component is verified against: an initial-state predicate, a step
  relation labelled by operations, and an invariant that holds initially and is kept by every
  step. The client facts (the invariant in every reachable state, and along every run) are
  proved once here.
\<close>

locale transition_system =
  fixes init :: "'s \<Rightarrow> bool"
    and step :: "'s \<Rightarrow> 'l \<Rightarrow> 's \<Rightarrow> bool"
    and inv :: "'s \<Rightarrow> bool"
  assumes init_inv: "init s \<Longrightarrow> inv s"
    and step_inv: "inv s \<Longrightarrow> step s l t \<Longrightarrow> inv t"
begin

inductive run :: "'s \<Rightarrow> 'l list \<Rightarrow> 's \<Rightarrow> bool" where
  run_nil: "run s [] s"
| run_cons: "step s l t \<Longrightarrow> run t ls u \<Longrightarrow> run s (l # ls) u"

lemma run_inv: "run s ls t \<Longrightarrow> inv s \<Longrightarrow> inv t"
  by (induction rule: run.induct) (auto intro: step_inv)

lemma reachable_inv: "init s \<Longrightarrow> run s ls t \<Longrightarrow> inv t"
  by (blast intro: run_inv init_inv)

lemma run_append: "run s ls t \<Longrightarrow> run t ms u \<Longrightarrow> run s (ls @ ms) u"
  by (induction rule: run.induct) (auto intro: run.intros)

end

section \<open>Slices and little-endian integers\<close>

definition slice :: "nat \<Rightarrow> nat \<Rightarrow> 'a list \<Rightarrow> 'a list" where
  "slice i j xs = take (j - i) (drop i xs)"

primrec le_bytes :: "nat \<Rightarrow> nat \<Rightarrow> u8 list" where
  "le_bytes 0 x = []"
| "le_bytes (Suc n) x = of_nat (x mod 256) # le_bytes n (x div 256)"

primrec le_nat :: "u8 list \<Rightarrow> nat" where
  "le_nat [] = 0"
| "le_nat (b # bs) = unat b + 256 * le_nat bs"

definition u16_to_le :: "u16 \<Rightarrow> u8 list" where
  "u16_to_le w = le_bytes 2 (unat w)"

definition u32_to_le :: "u32 \<Rightarrow> u8 list" where
  "u32_to_le w = le_bytes 4 (unat w)"

definition u64_to_le :: "u64 \<Rightarrow> u8 list" where
  "u64_to_le w = le_bytes 8 (unat w)"

definition i64_to_le :: "int \<Rightarrow> u8 list" where
  "i64_to_le i = u64_to_le (word_of_int i)"

lemma slice_length [slice_simps]: "length (slice i j xs) = min (length xs - i) (j - i)"
  by (simp add: slice_def min.commute)

lemma slice_append_left [slice_simps]: "j \<le> length xs \<Longrightarrow> slice i j (xs @ ys) = slice i j xs"
  by (simp add: slice_def)

lemma slice_append_right [slice_simps]:
  "length xs \<le> i \<Longrightarrow> slice i j (xs @ ys) = slice (i - length xs) (j - length xs) ys"
  by (simp add: slice_def)

lemma slice_whole [slice_simps]: "slice 0 (length xs) xs = xs"
  by (simp add: slice_def)

lemma slice_zero: "slice 0 j xs = take j xs"
  by (simp add: slice_def)

lemma length_le_bytes [simp]: "length (le_bytes n x) = n"
  by (induction n arbitrary: x) auto

lemma le_nat_le_bytes [le_simps]: "le_nat (le_bytes n x) = x mod 256 ^ n"
proof (induction n arbitrary: x)
  case 0
  then show ?case by simp
next
  case (Suc n)
  have "x mod 256 + 256 * (x div 256 mod 256 ^ n) = x mod (256 * 256 ^ n)"
    by (simp add: mod_mult2_eq)
  with Suc show ?case
    by (simp add: unat_of_nat take_bit_eq_mod)
qed

lemma unat_u8_less: "unat (b :: u8) < 256"
  and unat_u16_less: "unat (w :: u16) < 65536"
  and unat_u32_less: "unat (x :: u32) < 4294967296"
  and unat_u64_less: "unat (y :: u64) < 18446744073709551616"
  using unsigned_less [of b, where ?'a = nat] unsigned_less [of w, where ?'a = nat]
    unsigned_less [of x, where ?'a = nat] unsigned_less [of y, where ?'a = nat]
  by simp_all

lemma nat_less_divmod:
  fixes a b k :: nat
  assumes "0 < k"
  shows "a < b \<longleftrightarrow> a div k < b div k \<or> a div k = b div k \<and> a mod k < b mod k"
proof
  assume lt: "a < b"
  then have "a div k \<le> b div k"
    by (simp add: div_le_mono)
  moreover have "a mod k < b mod k" if "a div k = b div k"
    using lt that by (metis add_less_cancel_left div_mult_mod_eq)
  ultimately show "a div k < b div k \<or> a div k = b div k \<and> a mod k < b mod k"
    by linarith
next
  assume "a div k < b div k \<or> a div k = b div k \<and> a mod k < b mod k"
  then show "a < b"
  proof
    assume "a div k < b div k"
    then show ?thesis
      using div_le_mono [of b a k] by linarith
  next
    assume "a div k = b div k \<and> a mod k < b mod k"
    then show ?thesis
      by (metis add_less_cancel_left div_mult_mod_eq)
  qed
qed

lemma le_nat_bound: "le_nat bs < 256 ^ length bs"
proof (induction bs)
  case Nil
  then show ?case by simp
next
  case (Cons b bs)
  have "unat b < 256"
    by (rule unat_u8_less)
  with Cons show ?case by simp
qed

lemma le_bytes_le_nat [le_simps]: "le_bytes (length bs) (le_nat bs) = bs"
proof (induction bs)
  case Nil
  then show ?case by simp
next
  case (Cons b bs)
  have b: "unat b < 256"
    by (rule unat_u8_less)
  have "(unat b + 256 * le_nat bs) mod 256 = unat b"
    using b by simp
  moreover have "(unat b + 256 * le_nat bs) div 256 = le_nat bs"
    using b by simp
  ultimately show ?case
    using Cons by (simp del: mod_mult_self2 mod_mult_self1)
qed

lemma length_u_to_le [simp]:
  "length (u16_to_le a) = 2" "length (u32_to_le b) = 4" "length (u64_to_le c) = 8"
  "length (i64_to_le i) = 8"
  by (simp_all add: u16_to_le_def u32_to_le_def u64_to_le_def i64_to_le_def)

end
