(* ===== verification/Clock.thy ===== *)
theory Clock
  imports Prelude
begin

unbundle bit_operations_syntax

text \<open>
  The hybrid logical clock (\<open>attemptdb-core/src/clock.rs\<close>) and the timestamp conversions it
  uses (\<open>attemptdb-core/src/time.rs\<close>). A timestamp is an \<open>i64\<close> of microseconds, an \<open>Hlc\<close> is
  the 64-bit word the code packs: 48 bits of milliseconds above 16 bits of counter.
  The interface \<open>monotone_clock\<close> is what the database writer relies on; it is interpreted on
  the generator.
\<close>

section \<open>Timestamps\<close>

type_synonym Timestamp = int

definition from_millis :: "int \<Rightarrow> Timestamp" where
  "from_millis ms = i64_wrap (ms * 1000)"

definition as_millis :: "Timestamp \<Rightarrow> int" where
  "as_millis t = tdiv t 1000"

section \<open>Packed clock values\<close>

type_synonym Hlc = u64

definition LOGICAL_BITS :: nat where
  "LOGICAL_BITS = 16"

definition LOGICAL_MASK :: u64 where
  "LOGICAL_MASK = push_bit LOGICAL_BITS 1 - 1"

definition Hlc_new :: "u64 \<Rightarrow> u16 \<Rightarrow> Hlc" where
  "Hlc_new wall lgc = push_bit LOGICAL_BITS wall OR ucast lgc"

definition wall_ms :: "Hlc \<Rightarrow> u64" where
  "wall_ms h = drop_bit LOGICAL_BITS h"

definition logical :: "Hlc \<Rightarrow> u16" where
  "logical h = ucast (h AND LOGICAL_MASK)"

definition to_timestamp :: "Hlc \<Rightarrow> Timestamp" where
  "to_timestamp h = from_millis (sint (wall_ms h))"

section \<open>The generator\<close>

record HlcGenerator =
  hlc_last :: Hlc

definition HlcGenerator_new :: HlcGenerator where
  "HlcGenerator_new = \<lparr>hlc_last = 0\<rparr>"

definition resume_from :: "Hlc \<Rightarrow> HlcGenerator" where
  "resume_from h = \<lparr>hlc_last = h\<rparr>"

definition now_ms :: "Timestamp \<Rightarrow> u64" where
  "now_ms now = word_of_int (max (as_millis now) 0)"

text \<open>\<open>u16::saturating_add\<close>.\<close>

definition sat_add16 :: "u16 \<Rightarrow> u16 \<Rightarrow> u16" where
  "sat_add16 a b = (if unat a + unat b < 2 ^ 16 then a + b else 0xFFFF)"

definition hlc_next :: "HlcGenerator \<Rightarrow> Timestamp \<Rightarrow> Hlc \<times> HlcGenerator" where
  "hlc_next g now =
     (let n = (if wall_ms (hlc_last g) < now_ms now then Hlc_new (now_ms now) 0
               else if logical (hlc_last g) < 0xFFFF
                 then Hlc_new (wall_ms (hlc_last g)) (logical (hlc_last g) + 1)
               else Hlc_new (wall_ms (hlc_last g) + 1) 0)
      in (n, g\<lparr>hlc_last := n\<rparr>))"

definition hlc_observe :: "HlcGenerator \<Rightarrow> Hlc \<Rightarrow> Timestamp \<Rightarrow> Hlc \<times> HlcGenerator" where
  "hlc_observe g remote now =
     (let wall = max (max (now_ms now) (wall_ms (hlc_last g))) (wall_ms remote);
          lgc = (if wall = wall_ms (hlc_last g) \<and> wall = wall_ms remote
                   then sat_add16 (max (logical (hlc_last g)) (logical remote)) 1
                 else if wall = wall_ms (hlc_last g) then sat_add16 (logical (hlc_last g)) 1
                 else if wall = wall_ms remote then sat_add16 (logical remote) 1
                 else 0);
          n = Hlc_new wall lgc
      in (n, g\<lparr>hlc_last := n\<rparr>))"

section \<open>Arithmetic of the packing\<close>

text \<open>The range in which packing loses nothing: 48 bits of milliseconds (until the year 10889).\<close>

definition wall_ok :: "u64 \<Rightarrow> bool" where
  "wall_ok w \<longleftrightarrow> unat w < 2 ^ 48"

lemma LOGICAL_MASK_eq: "LOGICAL_MASK = mask 16"
  by (simp add: LOGICAL_MASK_def LOGICAL_BITS_def mask_eq_exp_minus_1)

lemma unat_ucast_up: "unat (ucast (l :: u16) :: u64) = unat l"
  using unat_u16_less [of l] by (simp add: unsigned_ucast_eq take_bit_eq_mod)

lemma unat_wall_ms: "unat (wall_ms h) = unat h div 65536"
  by (simp add: wall_ms_def LOGICAL_BITS_def drop_bit_eq_div unat_div)

lemma unat_logical: "unat (logical h) = unat h mod 65536"
proof -
  have "unat (take_bit 16 h) = unat h mod 65536"
    unfolding unsigned_take_bit_eq by (simp add: take_bit_eq_mod)
  then show ?thesis
    by (simp add: logical_def LOGICAL_MASK_eq unsigned_ucast_eq take_bit_eq_mod
        flip: take_bit_eq_mask)
qed

lemma unat_Hlc_new:
  assumes "wall_ok w"
  shows "unat (Hlc_new w l) = unat w * 65536 + unat l"
proof -
  have disj: "push_bit 16 w AND ucast l = 0"
    by (rule bit_word_eqI) (auto simp: bit_simps dest: bit_imp_le_length)
  have sum: "Hlc_new w l = push_bit 16 w + ucast l"
    using disjunctive_add_eq_or [OF disj] by (simp add: Hlc_new_def LOGICAL_BITS_def)
  have w: "unat w < 281474976710656"
    using assms by (simp add: wall_ok_def)
  have hi: "unat (push_bit 16 w) = unat w * 65536"
    using w by (simp add: push_bit_eq_mult unat_word_ariths)
  have "unat l < 65536"
    by (rule unat_u16_less)
  with w have "unat w * 65536 + unat l < 2 ^ 64"
    by simp
  with sum hi show ?thesis
    by (simp add: unat_word_ariths unat_ucast_up)
qed

lemma wall_ok_wall_ms [simp]: "wall_ok (wall_ms h)"
  using unat_u64_less [of h] by (simp add: wall_ok_def unat_wall_ms)

lemma wall_ms_Hlc_new [simp]: "wall_ok w \<Longrightarrow> wall_ms (Hlc_new w l) = w"
proof -
  assume w: "wall_ok w"
  have "unat l < 65536"
    by (rule unat_u16_less)
  with w have "unat (wall_ms (Hlc_new w l)) = unat w"
    by (simp add: unat_wall_ms unat_Hlc_new)
  then show ?thesis by (simp add: unsigned_word_eqI)
qed

lemma logical_Hlc_new [simp]: "wall_ok w \<Longrightarrow> logical (Hlc_new w l) = l"
proof -
  assume w: "wall_ok w"
  have "unat l < 65536"
    by (rule unat_u16_less)
  with w have "unat (logical (Hlc_new w l)) = unat l"
    by (simp add: unat_logical unat_Hlc_new)
  then show ?thesis by (simp add: unsigned_word_eqI)
qed

lemma Hlc_new_parts [simp]: "Hlc_new (wall_ms h) (logical h) = h"
proof -
  have "unat (Hlc_new (wall_ms h) (logical h)) = unat h"
    by (simp add: unat_Hlc_new) (simp add: unat_wall_ms unat_logical)
  then show ?thesis by (rule unsigned_word_eqI)
qed

lemma Hlc_less_iff:
  "a < b \<longleftrightarrow> wall_ms a < wall_ms b \<or> wall_ms a = wall_ms b \<and> logical a < logical b"
proof -
  have key: "unat a < unat b \<longleftrightarrow>
      unat a div 65536 < unat b div 65536 \<or>
      unat a div 65536 = unat b div 65536 \<and> unat a mod 65536 < unat b mod 65536"
    by (rule nat_less_divmod) simp
  have eq: "wall_ms a = wall_ms b \<longleftrightarrow> unat a div 65536 = unat b div 65536"
    using unat_wall_ms [of a] unat_wall_ms [of b] by (metis unsigned_word_eqI)
  show ?thesis
    using key eq by (simp add: word_less_nat_alt unat_wall_ms unat_logical)
qed

lemma Hlc_less_wall: "a < b \<Longrightarrow> wall_ms a \<le> wall_ms b"
  by (simp add: word_le_nat_alt word_less_nat_alt unat_wall_ms div_le_mono)

section \<open>Monotonicity\<close>

text \<open>
  What a writer needs of its clock: under a condition on the state and the wall clock reading
  (no 48-bit overflow), the issued value is above everything issued before, and the condition
  on the state survives for the next reading. \<open>issue_all\<close> is a writer stamping a batch.
\<close>

locale monotone_clock =
  fixes tick :: "'g \<Rightarrow> 'n \<Rightarrow> 't :: linorder \<times> 'g"
    and high :: "'g \<Rightarrow> 't"
    and ok :: "'g \<Rightarrow> 'n \<Rightarrow> bool"
  assumes tick_above: "ok g n \<Longrightarrow> high g < fst (tick g n)"
    and tick_high: "high (snd (tick g n)) = fst (tick g n)"
begin

primrec issue_all :: "'g \<Rightarrow> 'n list \<Rightarrow> 't list \<times> 'g" where
  "issue_all g [] = ([], g)"
| "issue_all g (n # ns) =
     (let (t, g') = tick g n; (ts, g'') = issue_all g' ns in (t # ts, g''))"

primrec ok_all :: "'g \<Rightarrow> 'n list \<Rightarrow> bool" where
  "ok_all g [] = True"
| "ok_all g (n # ns) = (ok g n \<and> ok_all (snd (tick g n)) ns)"

lemma issue_all_above: "ok_all g ns \<Longrightarrow> t \<in> set (fst (issue_all g ns)) \<Longrightarrow> high g < t"
proof (induction ns arbitrary: g t)
  case Nil
  then show ?case by simp
next
  case (Cons n ns)
  have first: "high g < fst (tick g n)"
    using Cons.prems by (simp add: tick_above)
  show ?case
  proof (cases "t = fst (tick g n)")
    case True
    with first show ?thesis by simp
  next
    case False
    with Cons.prems have "t \<in> set (fst (issue_all (snd (tick g n)) ns))"
      by (auto split: prod.splits)
    with Cons have "high (snd (tick g n)) < t" by simp
    with first show ?thesis by (simp add: tick_high)
  qed
qed

lemma issue_all_strict: "ok_all g ns \<Longrightarrow> sorted_wrt (<) (fst (issue_all g ns))"
proof (induction ns arbitrary: g)
  case Nil
  then show ?case by simp
next
  case (Cons n ns)
  then have "sorted_wrt (<) (fst (issue_all (snd (tick g n)) ns))"
    by simp
  moreover have "\<forall>t \<in> set (fst (issue_all (snd (tick g n)) ns)). fst (tick g n) < t"
    using Cons.prems issue_all_above [of "snd (tick g n)" ns] by (simp add: tick_high)
  ultimately show ?case
    by (auto split: prod.splits)
qed

end

text \<open>The clock has room: the reading fits 48 bits and the last value is not the very largest.\<close>

definition hlc_ok :: "HlcGenerator \<Rightarrow> Timestamp \<Rightarrow> bool" where
  "hlc_ok g now \<longleftrightarrow> wall_ok (now_ms now) \<and> unat (hlc_last g) < 2 ^ 64 - 1"

lemma hlc_next_above: "hlc_ok g now \<Longrightarrow> hlc_last g < fst (hlc_next g now)"
proof -
  assume ok: "hlc_ok g now"
  let ?l = "hlc_last g"
  have top: "unat (wall_ms ?l) < 2 ^ 48 - 1" if "\<not> logical ?l < 0xFFFF"
  proof -
    have "unat ?l mod 65536 = 65535"
      using that unat_u16_less [of "logical ?l"] by (simp add: word_less_nat_alt unat_logical)
    then show ?thesis
      using ok div_mult_mod_eq [of "unat ?l" 65536] by (simp add: hlc_ok_def unat_wall_ms)
  qed
  consider "wall_ms ?l < now_ms now" | "\<not> wall_ms ?l < now_ms now" "logical ?l < 0xFFFF"
    | "\<not> wall_ms ?l < now_ms now" "\<not> logical ?l < 0xFFFF"
    by blast
  then show ?thesis
  proof cases
    case 1
    with ok show ?thesis
      by (simp add: hlc_next_def Let_def Hlc_less_iff [of ?l] hlc_ok_def)
  next
    case 2
    then have "logical ?l < logical ?l + 1"
      by (simp add: word_less_nat_alt unat_word_ariths)
    with 2 show ?thesis
      by (simp add: hlc_next_def Let_def Hlc_less_iff [of ?l])
  next
    case 3
    have "unat (wall_ms ?l + 1) = unat (wall_ms ?l) + 1"
      using top [OF 3(2)] by (simp add: unat_word_ariths)
    with top [OF 3(2)] have "wall_ok (wall_ms ?l + 1)" "wall_ms ?l < wall_ms ?l + 1"
      by (simp_all add: wall_ok_def word_less_nat_alt)
    with 3 show ?thesis
      by (simp add: hlc_next_def Let_def Hlc_less_iff [of ?l])
  qed
qed

interpretation hlc: monotone_clock hlc_next hlc_last hlc_ok
  by unfold_locales (simp_all add: hlc_next_above, simp add: hlc_next_def Let_def)

lemma hlc_observe_wall:
  assumes "wall_ok (now_ms now)"
  shows "wall_ms (fst (hlc_observe g remote now)) =
    max (max (now_ms now) (wall_ms (hlc_last g))) (wall_ms remote)"
proof -
  have "wall_ok (max (max (now_ms now) (wall_ms (hlc_last g))) (wall_ms remote))"
    using assms by (simp add: max_def)
  then show ?thesis by (simp add: hlc_observe_def Let_def)
qed

lemma sat_add16_ge: "a \<le> sat_add16 a b"
proof (cases "unat a + unat b < 2 ^ 16")
  case True
  then have "unat (a + b) = unat a + unat b"
    by (simp add: unat_word_ariths)
  with True show ?thesis
    by (simp add: sat_add16_def word_le_nat_alt)
next
  case False
  then show ?thesis
    using unat_u16_less [of a] by (simp add: sat_add16_def word_le_nat_alt)
qed

lemma sat_add16_gt: "a < 0xFFFF \<Longrightarrow> a < sat_add16 a 1"
proof -
  assume a: "a < 0xFFFF"
  then have "unat a + 1 < 2 ^ 16"
    by (simp add: word_less_nat_alt)
  moreover from this have "unat (a + 1) = unat a + 1"
    by (simp add: unat_word_ariths)
  ultimately show ?thesis
    by (simp add: sat_add16_def word_less_nat_alt)
qed

lemma hlc_observe_logical:
  assumes "wall_ok (now_ms now)" and "h = hlc_last g \<or> h = remote"
    and "wall_ms (fst (hlc_observe g remote now)) = wall_ms h"
  shows "sat_add16 (logical h) 1 \<le> logical (fst (hlc_observe g remote now))"
proof -
  have ok: "wall_ok (max (max (now_ms now) (wall_ms (hlc_last g))) (wall_ms remote))"
    using assms(1) by (simp add: max_def)
  have mono: "sat_add16 a 1 \<le> sat_add16 (max a b) 1" "sat_add16 b 1 \<le> sat_add16 (max a b) 1"
    for a b
    using sat_add16_ge [of "max a b" 1] sat_add16_gt [of a] sat_add16_gt [of b]
    by (auto simp: sat_add16_def max_def word_le_nat_alt unat_word_ariths)
  show ?thesis
    using assms(2,3) ok mono
    by (auto simp: hlc_observe_def Let_def split: if_splits)
qed



text \<open>
  Receiving another writer's timestamp never moves the clock back: the merged value is at
  least the local and the remote one, and strictly above each of them whose counter is not
  saturated.
\<close>

theorem hlc_observe_dominates:
  assumes "wall_ok (now_ms now)" and "h = hlc_last g \<or> h = remote"
  shows "h \<le> fst (hlc_observe g remote now) \<and>
    (logical h < 0xFFFF \<longrightarrow> h < fst (hlc_observe g remote now))"
proof -
  let ?n = "fst (hlc_observe g remote now)"
  have wall: "wall_ms h \<le> wall_ms ?n"
    using assms(2) hlc_observe_wall [OF assms(1), of g remote] by (auto simp: max_def)
  show ?thesis
  proof (cases "wall_ms h = wall_ms ?n")
    case False
    with wall have "h < ?n" by (simp add: Hlc_less_iff [of h])
    then show ?thesis by simp
  next
    case True
    then have lgc: "sat_add16 (logical h) 1 \<le> logical ?n"
      using hlc_observe_logical [OF assms] by simp
    show ?thesis
    proof (cases "logical h < 0xFFFF")
      case True
      with lgc have "logical h < logical ?n"
        using sat_add16_gt order_less_le_trans by blast
      with \<open>wall_ms h = wall_ms ?n\<close> have "h < ?n" by (simp add: Hlc_less_iff [of h])
      then show ?thesis by simp
    next
      case False
      then have "unat (logical h) = unat (logical ?n)"
        using lgc sat_add16_ge [of "logical h" 1] unat_u16_less [of "logical ?n"]
          unat_u16_less [of "logical h"]
        by (simp add: word_le_nat_alt word_less_nat_alt)
      then have "logical h = logical ?n"
        by (rule unsigned_word_eqI)
      with \<open>wall_ms h = wall_ms ?n\<close> have "h = ?n"
        by (metis Hlc_new_parts)
      with False show ?thesis by simp
    qed
  qed
qed

theorem hlc_observe_dominates_witness:
  "wall_ok (now_ms 1000000) \<and>
   Hlc_new 1000 7 < fst (hlc_observe (resume_from (Hlc_new 900 3)) (Hlc_new 1000 7) 1000000)"
proof -
  have ok: "wall_ok (now_ms 1000000)"
    by (simp add: wall_ok_def now_ms_def as_millis_def tdiv_def)
  moreover have "logical (Hlc_new 1000 7) < 0xFFFF"
    by (simp add: wall_ok_def)
  ultimately show ?thesis
    using hlc_observe_dominates [OF ok, of "Hlc_new 1000 7" "resume_from (Hlc_new 900 3)"
        "Hlc_new 1000 7"] by simp
qed


end
