(* ===== verification/Frame.thy ===== *)
theory Frame
  imports Clock
begin

text \<open>
  The framed append-only files shared by the write-ahead log and the spool
  (\<open>attemptdb-storage/src/frame.rs\<close>, constants and byte helpers of \<open>format.rs\<close>): file header,
  records, the stopping scan, the resynchronising scan, and the writer with its recovery of a
  torn tail. A file is the list of its bytes.

  Parameters: \<open>crc\<close> stands for the CRC-32C of the \<open>crc32c\<close> crate (\<open>frame_checksum\<close>), any
  function of the bytes; \<open>flt\<close> says at which file offsets a read call fails with an I/O error.
  Offsets and lengths (\<open>u64\<close>, \<open>usize\<close>) are naturals; the one narrowing cast of the code
  (\<open>payload.len() as u32\<close>) is kept.
  Errors keep the variant and the reason; paths and formatted texts are left out.
\<close>

section \<open>Errors and constants\<close>

datatype io_error = UnexpectedEof | NotFound | InvalidInput | OtherIo

datatype core_error =
    InvalidId string
  | UnsupportedSchema u16 u16
  | Codec string
  | JsonCore

datatype storage_error =
    Io io_error
  | Locked
  | NotADatabase
  | Corrupt string string
  | RecordTooLarge nat nat
  | UnsupportedFormat string u16 u16
  | NoKey
  | Core core_error
  | Arrow
  | Json
  | Other string

definition MAGIC_WAL :: "u8 list" where
  "MAGIC_WAL = [0x41, 0x54, 0x57, 0x4C]"

definition MAGIC_SPOOL :: "u8 list" where
  "MAGIC_SPOOL = [0x41, 0x54, 0x53, 0x50]"

definition FRAME_FORMAT_VERSION :: u16 where
  "FRAME_FORMAT_VERSION = 1"

definition CANONICAL_SCHEMA_VERSION :: u16 where
  "CANONICAL_SCHEMA_VERSION = 1"

definition FILE_HEADER_LEN :: nat where
  "FILE_HEADER_LEN = 32"

definition RECORD_HEADER_LEN :: nat where
  "RECORD_HEADER_LEN = 12"

definition MAX_RECORD_PAYLOAD :: nat where
  "MAX_RECORD_PAYLOAD = 64 * 1024 * 1024"

definition record_type_EVENT :: u8 where
  "record_type_EVENT = 1"

definition record_type_CHECKPOINT :: u8 where
  "record_type_CHECKPOINT = 2"

definition CodecId_Json :: u8 where
  "CodecId_Json = 1"

definition u16_le :: "u8 list \<Rightarrow> u16" where
  "u16_le b = of_nat (le_nat (take 2 b))"

definition u32_le :: "u8 list \<Rightarrow> u32" where
  "u32_le b = of_nat (le_nat (take 4 b))"

definition u64_le :: "u8 list \<Rightarrow> u64" where
  "u64_le b = of_nat (le_nat (take 8 b))"

definition i64_le :: "u8 list \<Rightarrow> int" where
  "i64_le b = sint (u64_le b)"

section \<open>File header\<close>

record FileHeader =
  fh_magic :: "u8 list"
  fh_format_version :: u16
  fh_schema_version :: u16
  fh_file_id :: "u8 list"
  fh_created_at :: Timestamp

text \<open>\<open>FileHeader::new\<close>; the random file id and the current time are arguments.\<close>

definition FileHeader_new :: "u8 list \<Rightarrow> u8 list \<Rightarrow> Timestamp \<Rightarrow> FileHeader" where
  "FileHeader_new magic file_id now =
     \<lparr>fh_magic = magic, fh_format_version = FRAME_FORMAT_VERSION,
      fh_schema_version = CANONICAL_SCHEMA_VERSION, fh_file_id = file_id, fh_created_at = now\<rparr>"

definition FileHeader_encode :: "FileHeader \<Rightarrow> u8 list" where
  "FileHeader_encode h =
     fh_magic h @ u16_to_le (fh_format_version h) @ u16_to_le (fh_schema_version h) @
     fh_file_id h @ i64_to_le (fh_created_at h)"

definition FileHeader_decode :: "u8 list \<Rightarrow> u8 list \<Rightarrow> storage_error + FileHeader" where
  "FileHeader_decode b expected_magic =
     (if length b < FILE_HEADER_LEN then Err (Corrupt ''file header'' ''short header'')
      else if slice 0 4 b \<noteq> expected_magic then Err (Corrupt ''file header'' ''bad magic'')
      else if u16_le (slice 4 6 b) \<noteq> FRAME_FORMAT_VERSION
        then Err (UnsupportedFormat ''framed file'' (u16_le (slice 4 6 b)) FRAME_FORMAT_VERSION)
      else Ok \<lparr>fh_magic = slice 0 4 b, fh_format_version = u16_le (slice 4 6 b),
               fh_schema_version = u16_le (slice 6 8 b), fh_file_id = slice 8 24 b,
               fh_created_at = i64_le (slice 24 32 b)\<rparr>)"

section \<open>Records\<close>

record Record =
  r_type :: u8
  r_codec :: u8
  r_flags :: u16
  r_payload :: "u8 list"
  r_offset :: nat

definition check_payload_len :: "nat \<Rightarrow> storage_error + unit" where
  "check_payload_len len =
     (if len > MAX_RECORD_PAYLOAD then Err (RecordTooLarge len MAX_RECORD_PAYLOAD) else Ok ())"

text \<open>\<open>Record::event\<close>, with \<open>encode_event\<close> as an argument.\<close>

definition Record_event :: "('e \<Rightarrow> core_error + u8 list) \<Rightarrow> 'e \<Rightarrow> storage_error + Record" where
  "Record_event encode_event ev =
     (case encode_event ev of
        Err e \<Rightarrow> Err (Core e)
      | Ok payload \<Rightarrow>
          (case check_payload_len (length payload) of
             Err e \<Rightarrow> Err e
           | Ok _ \<Rightarrow> Ok \<lparr>r_type = record_type_EVENT, r_codec = CodecId_Json, r_flags = 0,
                       r_payload = payload, r_offset = 0\<rparr>))"

definition Record_checkpoint :: "u8 list \<Rightarrow> Record" where
  "Record_checkpoint payload =
     \<lparr>r_type = record_type_CHECKPOINT, r_codec = CodecId_Json, r_flags = 0,
      r_payload = payload, r_offset = 0\<rparr>"

text \<open>\<open>Record::decode_event\<close>; the JSON decoder (codec 1) is an argument.\<close>

definition Record_decode_event :: "(u8 list \<Rightarrow> core_error + 'e) \<Rightarrow> Record \<Rightarrow> storage_error + 'e" where
  "Record_decode_event decode_json r =
     (if r_codec r = CodecId_Json
        then (case decode_json (r_payload r) of Err e \<Rightarrow> Err (Core e) | Ok ev \<Rightarrow> Ok ev)
      else Err (Other ''unknown codec id''))"

definition record_body :: "Record \<Rightarrow> u8 list" where
  "record_body r = [r_type r, r_codec r] @ u16_to_le (r_flags r) @ r_payload r"

definition encode_record :: "(u8 list \<Rightarrow> u32) \<Rightarrow> Record \<Rightarrow> u8 list" where
  "encode_record crc r =
     u32_to_le (of_nat (length (r_payload r))) @ u32_to_le (crc (record_body r)) @ record_body r"

definition encoded_len :: "Record \<Rightarrow> nat" where
  "encoded_len r = RECORD_HEADER_LEN + length (r_payload r)"

definition encode_records :: "(u8 list \<Rightarrow> u32) \<Rightarrow> Record list \<Rightarrow> u8 list" where
  "encode_records crc rs = concat (map (encode_record crc) rs)"

section \<open>The stopping scan\<close>

datatype read_result = ReadOk "u8 list" | ReadEof | ReadErr

text \<open>\<open>read_fully\<close> at file position \<open>pos\<close>: \<open>Ok(true)\<close>, \<open>Ok(false)\<close>, \<open>Err\<close>.\<close>

definition read_fully :: "(nat \<Rightarrow> bool) \<Rightarrow> u8 list \<Rightarrow> nat \<Rightarrow> nat \<Rightarrow> read_result" where
  "read_fully flt bs pos n =
     (if n = 0 then ReadOk []
      else if flt pos then ReadErr
      else if length bs \<le> pos then ReadEof
      else if length bs < pos + n then ReadErr
      else ReadOk (slice pos (pos + n) bs))"

datatype scan_step = StepEof | StepBad | StepRecord Record nat

text \<open>One iteration of the loop of \<open>scan_from\<close> at \<open>offset\<close>.\<close>

definition scan_one :: "(u8 list \<Rightarrow> u32) \<Rightarrow> (nat \<Rightarrow> bool) \<Rightarrow> u8 list \<Rightarrow> nat \<Rightarrow> scan_step" where
  "scan_one crc flt bs offset =
     (case read_fully flt bs offset RECORD_HEADER_LEN of
        ReadEof \<Rightarrow> StepEof
      | ReadErr \<Rightarrow> StepBad
      | ReadOk head \<Rightarrow>
          (let payload_len = unat (u32_le (slice 0 4 head));
               sum = u32_le (slice 4 8 head);
               rtype = head ! 8
           in if payload_len > MAX_RECORD_PAYLOAD \<or> payload_len = 0 \<and> rtype = 0 then StepBad
              else (case read_fully flt bs (offset + RECORD_HEADER_LEN) payload_len of
                      ReadOk payload \<Rightarrow>
                        if crc (slice 8 12 head @ payload) \<noteq> sum then StepBad
                        else StepRecord
                          \<lparr>r_type = rtype, r_codec = head ! 9, r_flags = u16_le (slice 10 12 head),
                           r_payload = payload, r_offset = offset\<rparr>
                          (offset + RECORD_HEADER_LEN + payload_len)
                    | _ \<Rightarrow> StepBad)))"

lemma scan_one_advance: "scan_one crc flt bs offset = StepRecord r next \<Longrightarrow>
    offset < next \<and> offset < length bs"
  by (auto simp: scan_one_def Let_def read_fully_def RECORD_HEADER_LEN_def
      split: read_result.splits if_splits)

function scan_loop ::
  "(u8 list \<Rightarrow> u32) \<Rightarrow> (nat \<Rightarrow> bool) \<Rightarrow> u8 list \<Rightarrow> nat \<Rightarrow> Record list \<times> nat \<times> nat option"
where
  "scan_loop crc flt bs offset =
     (case scan_one crc flt bs offset of
        StepEof \<Rightarrow> ([], offset, None)
      | StepBad \<Rightarrow> ([], offset, Some offset)
      | StepRecord r next \<Rightarrow>
          (let (rs, valid, trunc) = scan_loop crc flt bs next in (r # rs, valid, trunc)))"
  by pat_completeness auto
termination
  by (relation "measure (\<lambda>(crc, flt, bs, offset). length bs - offset)")
    (auto dest!: scan_one_advance)

declare scan_loop.simps [simp del]

record ScanResult =
  sc_header :: FileHeader
  sc_records :: "Record list"
  sc_valid_len :: nat
  sc_truncated_at :: "nat option"
  sc_total_len :: nat

definition scan_from ::
  "(u8 list \<Rightarrow> u32) \<Rightarrow> (nat \<Rightarrow> bool) \<Rightarrow> u8 list \<Rightarrow> u8 list \<Rightarrow> nat \<Rightarrow> storage_error + ScanResult"
where
  "scan_from crc flt file magic start =
     (case read_fully flt file 0 FILE_HEADER_LEN of
        ReadOk hdr \<Rightarrow>
          (case FileHeader_decode hdr magic of
             Err e \<Rightarrow> Err e
           | Ok header \<Rightarrow>
               (let (rs, valid, trunc) = scan_loop crc flt file (max start FILE_HEADER_LEN)
                in Ok \<lparr>sc_header = header, sc_records = rs, sc_valid_len = valid,
                       sc_truncated_at = trunc, sc_total_len = length file\<rparr>))
      | ReadEof \<Rightarrow> Err (Io UnexpectedEof)
      | ReadErr \<Rightarrow> Err (Io (if flt 0 then OtherIo else UnexpectedEof)))"

definition scan :: "(u8 list \<Rightarrow> u32) \<Rightarrow> (nat \<Rightarrow> bool) \<Rightarrow> u8 list \<Rightarrow> u8 list \<Rightarrow> storage_error + ScanResult"
where
  "scan crc flt file magic = scan_from crc flt file magic FILE_HEADER_LEN"

section \<open>The writer\<close>

record FrameWriter =
  fw_header :: FileHeader
  fw_len :: nat

text \<open>
  \<open>FrameWriter::open_trusted\<close>: \<open>file\<close> is the content found on disk (empty for a file just
  created), \<open>fresh\<close> the header \<open>FileHeader::new\<close> would make. The result is the writer and the
  file after recovery.
\<close>

definition open_trusted ::
  "(u8 list \<Rightarrow> u32) \<Rightarrow> (nat \<Rightarrow> bool) \<Rightarrow> FileHeader \<Rightarrow> u8 list \<Rightarrow> u8 list \<Rightarrow> nat option \<Rightarrow>
   storage_error + FrameWriter \<times> u8 list"
where
  "open_trusted crc flt fresh file magic committed_len =
     (if FILE_HEADER_LEN \<le> length file then
        (let hinted =
           (case committed_len of
              None \<Rightarrow> None
            | Some l \<Rightarrow>
                if FILE_HEADER_LEN \<le> l \<and> l \<le> length file then
                  (case scan_from crc flt file magic l of
                     Ok sc \<Rightarrow>
                       if sc_truncated_at sc \<noteq> Some l \<or> l = length file then Some sc else None
                   | Err _ \<Rightarrow> None)
                else None)
         in case (case hinted of Some sc \<Rightarrow> Ok sc | None \<Rightarrow> scan crc flt file magic) of
              Err e \<Rightarrow> Err e
            | Ok sc \<Rightarrow>
                Ok (\<lparr>fw_header = sc_header sc, fw_len = sc_valid_len sc\<rparr>,
                    if sc_truncated_at sc \<noteq> None then take (sc_valid_len sc) file else file))
      else Ok (\<lparr>fw_header = fresh, fw_len = FILE_HEADER_LEN\<rparr>, FileHeader_encode fresh))"

definition FrameWriter_open ::
  "(u8 list \<Rightarrow> u32) \<Rightarrow> (nat \<Rightarrow> bool) \<Rightarrow> FileHeader \<Rightarrow> u8 list \<Rightarrow> u8 list \<Rightarrow>
   storage_error + FrameWriter \<times> u8 list"
where
  "FrameWriter_open crc flt fresh file magic = open_trusted crc flt fresh file magic None"

definition FrameWriter_is_empty :: "FrameWriter \<Rightarrow> bool" where
  "FrameWriter_is_empty w \<longleftrightarrow> fw_len w \<le> FILE_HEADER_LEN"

text \<open>
  What the operating system does with a write: all of it, or a prefix of \<open>k\<close> bytes and an
  error, after which \<open>set_len\<close> may or may not succeed.
\<close>

datatype write_io = WriteAll | WritePart nat bool

definition write_at :: "u8 list \<Rightarrow> nat \<Rightarrow> u8 list \<Rightarrow> u8 list" where
  "write_at file pos buf = take pos file @ buf @ drop (pos + length buf) file"

primrec check_payloads :: "Record list \<Rightarrow> storage_error + unit" where
  "check_payloads [] = Ok ()"
| "check_payloads (r # rs) =
     (case check_payload_len (length (r_payload r)) of
        Err e \<Rightarrow> Err e
      | Ok _ \<Rightarrow> check_payloads rs)"

definition FrameWriter_append ::
  "(u8 list \<Rightarrow> u32) \<Rightarrow> write_io \<Rightarrow> FrameWriter \<Rightarrow> u8 list \<Rightarrow> Record list \<Rightarrow>
   (storage_error + nat) \<times> FrameWriter \<times> u8 list"
where
  "FrameWriter_append crc io w file records =
     (case check_payloads records of
        Err e \<Rightarrow> (Err e, w, file)
      | Ok _ \<Rightarrow>
          (let buf = encode_records crc records in
           case io of
             WriteAll \<Rightarrow>
               (Ok (fw_len w), w\<lparr>fw_len := fw_len w + length buf\<rparr>, write_at file (fw_len w) buf)
           | WritePart k set_len_ok \<Rightarrow>
               (let landed = write_at file (fw_len w) (take k buf)
                in (Err (Io OtherIo), w, if set_len_ok then take (fw_len w) landed else landed))))"

section \<open>Encodings and their inverses\<close>

abbreviation no_fault :: "nat \<Rightarrow> bool" where
  "no_fault \<equiv> \<lambda>_. False"

text \<open>The records the reader accepts: within the cap, and not the all-zero header.\<close>

definition valid_record :: "Record \<Rightarrow> bool" where
  "valid_record r \<longleftrightarrow>
     length (r_payload r) \<le> MAX_RECORD_PAYLOAD \<and> \<not> (r_payload r = [] \<and> r_type r = 0)"

lemmas frame_len_defs = FILE_HEADER_LEN_def RECORD_HEADER_LEN_def MAX_RECORD_PAYLOAD_def

lemma u16_le_inverse [le_simps]: "u16_le (u16_to_le w @ xs) = w"
proof -
  have "unat w mod 256 ^ 2 = unat w"
    using unat_u16_less [of w] by simp
  then show ?thesis
    by (simp add: u16_le_def u16_to_le_def le_simps)
qed

lemma u32_le_inverse [le_simps]: "u32_le (u32_to_le w @ xs) = w"
proof -
  have "unat w mod 256 ^ 4 = unat w"
    using unat_u32_less [of w] by simp
  then show ?thesis
    by (simp add: u32_le_def u32_to_le_def le_simps)
qed

lemma u64_le_inverse [le_simps]: "u64_le (u64_to_le w @ xs) = w"
proof -
  have "unat w mod 256 ^ 8 = unat w"
    using unat_u64_less [of w] by simp
  then show ?thesis
    by (simp add: u64_le_def u64_to_le_def le_simps)
qed

lemma i64_le_inverse [le_simps]: "i64_range i \<Longrightarrow> i64_le (i64_to_le i @ xs) = i"
  by (simp add: i64_le_def i64_to_le_def le_simps int_word_sint i64_range_def)

lemma u_le_inverse_self [le_simps]:
  "u16_le (u16_to_le a) = a" "u32_le (u32_to_le b) = b" "u64_le (u64_to_le c) = c"
  using u16_le_inverse [of a "[]"] u32_le_inverse [of b "[]"] u64_le_inverse [of c "[]"]
  by simp_all

lemma u16_to_le_inverse: "length bs = 2 \<Longrightarrow> u16_to_le (u16_le bs) = bs"
proof -
  assume len: "length bs = 2"
  have "unat (of_nat (le_nat bs) :: u16) = le_nat bs"
    using le_nat_bound [of bs] len by (simp add: unat_of_nat take_bit_eq_mod)
  then show ?thesis
    using le_bytes_le_nat [of bs] len by (simp add: u16_to_le_def u16_le_def)
qed

lemma u32_to_le_inverse: "length bs = 4 \<Longrightarrow> u32_to_le (u32_le bs) = bs"
proof -
  assume len: "length bs = 4"
  have "unat (of_nat (le_nat bs) :: u32) = le_nat bs"
    using le_nat_bound [of bs] len by (simp add: unat_of_nat take_bit_eq_mod)
  then show ?thesis
    using le_bytes_le_nat [of bs] len by (simp add: u32_to_le_def u32_le_def)
qed

lemma length_record_body [simp]: "length (record_body r) = 4 + length (r_payload r)"
  by (simp add: record_body_def)

lemma length_encode_record [simp]: "length (encode_record crc r) = encoded_len r"
  by (simp add: encode_record_def encoded_len_def RECORD_HEADER_LEN_def)

lemma encode_record_not_Nil [simp]: "encode_record crc r \<noteq> []"
  by (simp add: encode_record_def record_body_def)

lemma encode_records_simps [simp]:
  "encode_records crc [] = []"
  "encode_records crc (r # rs) = encode_record crc r @ encode_records crc rs"
  "encode_records crc (rs @ ss) = encode_records crc rs @ encode_records crc ss"
  by (simp_all add: encode_records_def)

lemma length_encode_records: "length (encode_records crc rs) = sum_list (map encoded_len rs)"
  by (induction rs) simp_all

lemma length_FileHeader_encode:
  "length (fh_magic h) = 4 \<Longrightarrow> length (fh_file_id h) = 16 \<Longrightarrow>
   length (FileHeader_encode h) = FILE_HEADER_LEN"
  by (simp add: FileHeader_encode_def FILE_HEADER_LEN_def)

definition header_ok :: "u8 list \<Rightarrow> FileHeader \<Rightarrow> bool" where
  "header_ok magic h \<longleftrightarrow>
     fh_magic h = magic \<and> length magic = 4 \<and> length (fh_file_id h) = 16 \<and>
     fh_format_version h = FRAME_FORMAT_VERSION \<and> i64_range (fh_created_at h)"

lemma header_ok_len [simp]:
  "header_ok magic h \<Longrightarrow> length (FileHeader_encode h) = FILE_HEADER_LEN"
  by (simp add: header_ok_def length_FileHeader_encode)

lemma FileHeader_decode_encode:
  assumes "header_ok magic h"
  shows "FileHeader_decode (FileHeader_encode h) magic = Ok h"
proof -
  let ?b = "FileHeader_encode h"
  have len: "length (fh_magic h) = 4" "length (fh_file_id h) = 16" "length ?b = 32"
    using assms header_ok_len [OF assms] by (simp_all add: header_ok_def FILE_HEADER_LEN_def)
  have "slice 0 4 ?b = fh_magic h"
    "slice 4 6 ?b = u16_to_le (fh_format_version h)"
    "slice 6 8 ?b = u16_to_le (fh_schema_version h)"
    "slice 8 24 ?b = fh_file_id h"
    "slice 24 32 ?b = i64_to_le (fh_created_at h)"
    using len by (simp_all add: FileHeader_encode_def slice_def)
  then show ?thesis
    using assms len i64_le_inverse [of "fh_created_at h" "[]"]
    by (simp add: FileHeader_decode_def header_ok_def FILE_HEADER_LEN_def le_simps)
qed

section \<open>Scanning what was written\<close>

lemma encode_record_head:
  fixes crc r suf
  defines "head \<equiv> take RECORD_HEADER_LEN (encode_record crc r @ suf)"
  shows "slice 0 4 head = u32_to_le (of_nat (length (r_payload r)))"
    and "slice 4 8 head = u32_to_le (crc (record_body r))"
    and "head ! 8 = r_type r" and "head ! 9 = r_codec r"
    and "slice 10 12 head = u16_to_le (r_flags r)"
    and "slice 8 12 head = [r_type r, r_codec r] @ u16_to_le (r_flags r)"
    and "length head = 12"
    and "drop RECORD_HEADER_LEN (encode_record crc r @ suf) = r_payload r @ suf"
  unfolding head_def
  by (simp_all add: encode_record_def record_body_def RECORD_HEADER_LEN_def slice_def
      nth_append drop_Cons')

lemma unat_payload_len:
  "length (r_payload r) \<le> MAX_RECORD_PAYLOAD \<Longrightarrow>
   unat (of_nat (length (r_payload r)) :: u32) = length (r_payload r)"
  by (simp add: unat_of_nat take_bit_eq_mod MAX_RECORD_PAYLOAD_def)

lemma read_fully_suffix:
  "read_fully flt (pre @ bs) (length pre + k) n =
    (if n = 0 then ReadOk [] else if flt (length pre + k) then ReadErr
     else if length bs \<le> k then ReadEof
     else if length bs < k + n then ReadErr else ReadOk (take n (drop k bs)))"
  by (simp add: read_fully_def slice_def)

lemma read_fully_suffix0:
  "read_fully flt (pre @ bs) (length pre) n =
    (if n = 0 then ReadOk [] else if flt (length pre) then ReadErr
     else if bs = [] then ReadEof
     else if length bs < n then ReadErr else ReadOk (take n bs))"
  using read_fully_suffix [of flt pre bs 0 n] by simp

lemma scan_one_encoded:
  assumes "valid_record r" and "\<not> flt (length pre)"
    and "r_payload r \<noteq> [] \<longrightarrow> \<not> flt (length pre + RECORD_HEADER_LEN)"
  shows "scan_one crc flt (pre @ encode_record crc r @ suf) (length pre) =
    StepRecord (r\<lparr>r_offset := length pre\<rparr>) (length pre + encoded_len r)"
proof -
  let ?n = "length (r_payload r)"
  let ?head = "take RECORD_HEADER_LEN (encode_record crc r @ suf)"
  note head = encode_record_head [of crc r suf]
  have le: "?n \<le> MAX_RECORD_PAYLOAD"
    using assms(1) by (simp add: valid_record_def)
  have h: "read_fully flt (pre @ encode_record crc r @ suf) (length pre) RECORD_HEADER_LEN = ReadOk ?head"
    using assms(2)
    by (simp add: read_fully_suffix0 encoded_len_def RECORD_HEADER_LEN_def)
  have b: "read_fully flt (pre @ encode_record crc r @ suf) (length pre + RECORD_HEADER_LEN) ?n =
      ReadOk (r_payload r)"
    using assms(3) head(8)
    by (simp add: read_fully_suffix encoded_len_def RECORD_HEADER_LEN_def)
  have ok: "\<not> (?n > MAX_RECORD_PAYLOAD \<or> ?n = 0 \<and> r_type r = 0)"
    using assms(1) by (auto simp: valid_record_def)
  have pl: "unat (u32_le (slice 0 4 ?head)) = ?n"
    using head(1) unat_payload_len [OF le] by (simp add: le_simps)
  show ?thesis
    unfolding scan_one_def h
    using ok pl b head by (simp add: Let_def le_simps record_body_def encoded_len_def)
qed

primrec place :: "nat \<Rightarrow> Record list \<Rightarrow> Record list" where
  "place off [] = []"
| "place off (r # rs) = r\<lparr>r_offset := off\<rparr> # place (off + encoded_len r) rs"

lemma place_eq_Nil [simp]: "place off rs = [] \<longleftrightarrow> rs = []"
  by (cases rs) auto

lemma place_append: "place off (rs @ ss) =
    place off rs @ place (off + sum_list (map encoded_len rs)) ss"
  by (induction rs arbitrary: off) (simp_all add: add.assoc)

lemma map_payload_place [simp]:
  "map r_payload (place off rs) = map r_payload rs" "map r_type (place off rs) = map r_type rs"
  "length (place off rs) = length rs"
  by (induction rs arbitrary: off) simp_all

lemma encode_record_offset [simp]: "encode_record crc (r\<lparr>r_offset := k\<rparr>) = encode_record crc r"
  by (simp add: encode_record_def record_body_def)

lemma encoded_len_offset [simp]: "encoded_len (r\<lparr>r_offset := k\<rparr>) = encoded_len r"
  by (simp add: encoded_len_def)

lemma encode_records_place [simp]: "encode_records crc (place off rs) = encode_records crc rs"
  by (induction rs arbitrary: off) simp_all

lemma scan_loop_encoded:
  assumes "\<forall>r \<in> set rs. valid_record r"
    and "\<forall>k. length pre \<le> k \<and> k < length pre + length (encode_records crc rs) \<longrightarrow> \<not> flt k"
  shows "scan_loop crc flt (pre @ encode_records crc rs @ suf) (length pre) =
    (let (ss, valid, trunc) =
       scan_loop crc flt (pre @ encode_records crc rs @ suf) (length pre + length (encode_records crc rs))
     in (place (length pre) rs @ ss, valid, trunc))"
  using assms
proof (induction rs arbitrary: pre)
  case Nil
  then show ?case by (simp split: prod.splits)
next
  case (Cons r rs)
  let ?pre = "pre @ encode_record crc r"
  have one: "scan_one crc flt (pre @ encode_record crc r @ (encode_records crc rs @ suf)) (length pre) =
      StepRecord (r\<lparr>r_offset := length pre\<rparr>) (length pre + encoded_len r)"
    using Cons.prems
    by (intro scan_one_encoded) (auto simp: encoded_len_def RECORD_HEADER_LEN_def)
  have ih: "scan_loop crc flt (?pre @ encode_records crc rs @ suf) (length ?pre) =
      (let (ss, valid, trunc) =
         scan_loop crc flt (?pre @ encode_records crc rs @ suf)
           (length ?pre + length (encode_records crc rs))
       in (place (length ?pre) rs @ ss, valid, trunc))"
    using Cons.prems by (intro Cons.IH) auto
  show ?case
    using one ih
    by (subst scan_loop.simps) (simp add: add.assoc split: prod.splits)
qed

section \<open>Soundness of the scan on arbitrary bytes\<close>

lemma slice_split: "i \<le> j \<Longrightarrow> j \<le> k \<Longrightarrow> slice i k xs = slice i j xs @ slice j k xs"
  using take_add [of "j - i" "k - j" "drop i xs"] by (simp add: slice_def)

lemma split_head:
  assumes "length h = 12"
  shows "slice 8 12 h = [h ! 8, h ! 9] @ slice 10 12 h"
    and "slice 0 4 h @ slice 4 8 h @ slice 8 12 h = h"
proof -
  have "drop 8 h = h ! 8 # h ! 9 # drop 10 h"
    using assms Cons_nth_drop_Suc [of 8 h] Cons_nth_drop_Suc [of 9 h]
    by (simp add: eval_nat_numeral)
  then show "slice 8 12 h = [h ! 8, h ! 9] @ slice 10 12 h"
    by (simp add: slice_def)
  have "h = take 4 h @ take 4 (drop 4 h) @ drop 8 h"
    using append_take_drop_id [of 4 h] append_take_drop_id [of 4 "drop 4 h"] by simp
  then show "slice 0 4 h @ slice 4 8 h @ slice 8 12 h = h"
    using assms by (simp add: slice_def)
qed

lemma scan_one_sound:
  assumes "scan_one crc flt bs off = StepRecord r next"
  shows "valid_record r \<and> r_offset r = off \<and> next = off + encoded_len r \<and> next \<le> length bs \<and>
    slice off next bs = encode_record crc r"
proof -
  define h where "h = slice off (off + 12) bs"
  define n where "n = unat (u32_le (slice 0 4 h))"
  have head: "read_fully flt bs off RECORD_HEADER_LEN = ReadOk h" and room: "off + 12 \<le> length bs"
    using assms
    by (auto simp: scan_one_def read_fully_def RECORD_HEADER_LEN_def h_def
        split: read_result.splits if_splits)
  have lenh: "length h = 12"
    using room by (simp add: h_def slice_def)
  from assms obtain payload where
    body: "read_fully flt bs (off + 12) n = ReadOk payload" and
    n: "n \<le> MAX_RECORD_PAYLOAD" "\<not> (n = 0 \<and> h ! 8 = 0)" and
    sum: "crc (slice 8 12 h @ payload) = u32_le (slice 4 8 h)" and
    r: "r = \<lparr>r_type = h ! 8, r_codec = h ! 9, r_flags = u16_le (slice 10 12 h),
          r_payload = payload, r_offset = off\<rparr>" and nx: "next = off + 12 + n"
    unfolding scan_one_def head
    by (auto simp: Let_def n_def [symmetric] RECORD_HEADER_LEN_def
        split: if_splits read_result.splits)
  have pl: "payload = slice (off + 12) (off + 12 + n) bs" "off + 12 + n \<le> length bs"
    using body room by (auto simp: read_fully_def slice_def split: if_splits)
  then have lenp: "length payload = n"
    by (simp add: slice_def)
  have flags: "u16_to_le (u16_le (slice 10 12 h)) = slice 10 12 h"
    using lenh by (intro u16_to_le_inverse) (simp add: slice_def)
  have bd: "record_body r = slice 8 12 h @ payload"
    using split_head(1) [OF lenh] flags by (simp add: record_body_def r)
  have "u32_to_le (of_nat n) = slice 0 4 h"
    using lenh u32_to_le_inverse [of "slice 0 4 h"] by (simp add: n_def slice_def)
  moreover have "u32_to_le (u32_le (slice 4 8 h)) = slice 4 8 h"
    using lenh by (intro u32_to_le_inverse) (simp add: slice_def)
  ultimately have "encode_record crc r = h @ payload"
    using sum bd split_head(2) [OF lenh] lenp by (simp add: encode_record_def r)
  also have "\<dots> = slice off next bs"
    using pl slice_split [of off "off + 12" "off + 12 + n" bs] by (simp add: h_def nx)
  finally show ?thesis
    using pl nx lenp n
    by (auto simp: valid_record_def r encoded_len_def RECORD_HEADER_LEN_def)
qed

lemma scan_loop_sound:
  assumes "scan_loop crc flt bs off = (rs, v, t)" and "off \<le> length bs"
  shows "(\<forall>r \<in> set rs. valid_record r) \<and> off \<le> v \<and> v \<le> length bs \<and>
    slice off v bs = encode_records crc rs \<and> place off rs = rs \<and>
    (t = None \<and> v = length bs \<or> t = Some v)"
  using assms
proof (induction crc flt bs off arbitrary: rs v t rule: scan_loop.induct)
  case (1 crc flt bs off)
  show ?case
  proof (cases "scan_one crc flt bs off")
    case StepEof
    then have "length bs \<le> off"
      by (auto simp: scan_one_def Let_def read_fully_def RECORD_HEADER_LEN_def
          split: read_result.splits if_splits)
    with StepEof "1.prems" show ?thesis
      by (subst (asm) scan_loop.simps) (auto simp: slice_def)
  next
    case StepBad
    with "1.prems" show ?thesis
      by (subst (asm) scan_loop.simps) (auto simp: slice_def)
  next
    case (StepRecord r nx)
    note one = scan_one_sound [OF StepRecord]
    obtain rs' v' t' where rec: "scan_loop crc flt bs nx = (rs', v', t')"
      by (cases "scan_loop crc flt bs nx") auto
    have eq: "rs = r # rs'" "v = v'" "t = t'"
      using "1.prems"(1) StepRecord rec by (subst (asm) scan_loop.simps, simp)+
    have ih: "(\<forall>r \<in> set rs'. valid_record r) \<and> nx \<le> v' \<and> v' \<le> length bs \<and>
        slice nx v' bs = encode_records crc rs' \<and> place nx rs' = rs' \<and>
        (t' = None \<and> v' = length bs \<or> t' = Some v')"
      using "1.IH" [OF StepRecord rec] one by simp
    have "slice off v' bs = slice off nx bs @ slice nx v' bs"
      using one ih by (intro slice_split) auto
    with one ih eq show ?thesis
      by (auto simp: encoded_len_def)
  qed
qed

section \<open>Torn tails and position independence\<close>

lemma scan_one_torn:
  assumes "strict_prefix t (encode_record crc r)" and "t \<noteq> []" and "valid_record r"
  shows "scan_one crc no_fault (pre @ t) (length pre) = StepBad"
proof (cases "length t < RECORD_HEADER_LEN")
  case True
  then show ?thesis
    using assms(2) by (simp add: scan_one_def read_fully_suffix0 RECORD_HEADER_LEN_def)
next
  case False
  obtain u where u: "encode_record crc r = t @ u" "u \<noteq> []"
    using assms(1) by (auto simp: strict_prefix_def prefix_def)
  have short: "length t < encoded_len r"
    using u length_encode_record [of crc r] by (metis length_append length_greater_0_conv less_add_same_cancel1)
  note head = encode_record_head [of crc r "[]"]
  have tk: "take RECORD_HEADER_LEN t = take RECORD_HEADER_LEN (encode_record crc r @ [])"
    using False u by simp
  have n: "unat (of_nat (length (r_payload r)) :: u32) = length (r_payload r)"
    using assms(3) by (intro unat_payload_len) (simp add: valid_record_def)
  have h: "read_fully no_fault (pre @ t) (length pre) RECORD_HEADER_LEN =
      ReadOk (take RECORD_HEADER_LEN (encode_record crc r @ []))"
    using False assms(2) tk by (simp add: read_fully_suffix0 RECORD_HEADER_LEN_def)
  have b: "read_fully no_fault (pre @ t) (length pre + RECORD_HEADER_LEN) (length (r_payload r)) =
      (if length t = RECORD_HEADER_LEN then ReadEof else ReadErr)"
    using False short unfolding read_fully_suffix encoded_len_def by auto
  show ?thesis
    unfolding scan_one_def h using head n b by (simp add: Let_def le_simps)
qed

definition shift_record :: "nat \<Rightarrow> Record \<Rightarrow> Record" where
  "shift_record d r = r\<lparr>r_offset := d + r_offset r\<rparr>"

lemma read_fully_shift: "read_fully no_fault (pre @ bs) (length pre + k) n = read_fully no_fault bs k n"
  by (simp add: read_fully_suffix read_fully_def slice_def)

lemma scan_one_shift:
  "scan_one crc no_fault (pre @ bs) (length pre + k) =
    (case scan_one crc no_fault bs k of
       StepRecord r n \<Rightarrow> StepRecord (shift_record (length pre) r) (length pre + n)
     | s \<Rightarrow> s)"
  unfolding scan_one_def add.assoc read_fully_shift
  by (simp add: Let_def shift_record_def split: read_result.splits)

lemma scan_loop_shift:
  "scan_loop crc no_fault (pre @ bs) (length pre + k) =
    (let (rs, v, t) = scan_loop crc no_fault bs k
     in (map (shift_record (length pre)) rs, length pre + v, map_option ((+) (length pre)) t))"
proof -
  have "scan_loop crc flt (pre @ bs) (length pre + k) =
      (let (rs, v, t) = scan_loop crc flt bs k
       in (map (shift_record (length pre)) rs, length pre + v, map_option ((+) (length pre)) t))"
    if "flt = no_fault" for flt
    using that
  proof (induction crc flt bs k rule: scan_loop.induct)
    case (1 crc flt bs k)
    show ?case
    proof (cases "scan_one crc flt bs k")
      case (StepRecord r n)
      then show ?thesis
        using "1.IH" [OF StepRecord "1.prems"] "1.prems"
        by (subst scan_loop.simps, subst (2) scan_loop.simps)
          (simp add: scan_one_shift split: prod.splits)
    qed (use "1.prems" in \<open>subst scan_loop.simps, subst (2) scan_loop.simps, simp add: scan_one_shift\<close>)+
  qed
  then show ?thesis by simp
qed

section \<open>The record log interface\<close>

text \<open>
  What the write-ahead log and the spool need of a framed file: the bytes after the header are
  a log of records; reading the concatenation of whole records gives them back; an incomplete
  record at the end reads as nothing. The client facts say what a crash that keeps a prefix of
  the bytes leaves: a prefix of the records, with every record whose bytes all landed.
\<close>

locale record_log =
  fixes enc1 :: "'r \<Rightarrow> 'b list"
    and valid :: "'r \<Rightarrow> bool"
    and parse :: "'b list \<Rightarrow> 'r list"
  assumes parse_nil: "parse [] = []"
    and parse_cons: "valid r \<Longrightarrow> parse (enc1 r @ bs) = r # parse bs"
    and parse_torn: "valid r \<Longrightarrow> strict_prefix t (enc1 r) \<Longrightarrow> parse t = []"
begin

abbreviation enc :: "'r list \<Rightarrow> 'b list" where
  "enc rs \<equiv> concat (map enc1 rs)"

lemma parse_append: "\<forall>r \<in> set rs. valid r \<Longrightarrow> parse (enc rs @ bs) = rs @ parse bs"
  by (induction rs) (simp_all add: parse_cons)

lemma parse_enc: "\<forall>r \<in> set rs. valid r \<Longrightarrow> parse (enc rs) = rs"
  using parse_append [of rs "[]"] by (simp add: parse_nil)

lemma parse_prefix:
  assumes "\<forall>r \<in> set rs. valid r" and "prefix bs (enc rs)"
  shows "prefix (parse bs) rs \<and> length (enc (parse bs)) \<le> length bs \<and>
    (\<forall>ks. prefix ks rs \<and> length (enc ks) \<le> length bs \<longrightarrow> prefix ks (parse bs))"
  using assms
proof (induction rs arbitrary: bs)
  case Nil
  then show ?case by (simp add: parse_nil)
next
  case (Cons r rs)
  show ?case
  proof (cases "prefix (enc1 r) bs")
    case True
    then obtain cs where cs: "bs = enc1 r @ cs"
      by (auto simp: prefix_def)
    with Cons.prems have "prefix cs (enc rs)"
      by simp
    with Cons have ih: "prefix (parse cs) rs \<and> length (enc (parse cs)) \<le> length cs \<and>
        (\<forall>ks. prefix ks rs \<and> length (enc ks) \<le> length cs \<longrightarrow> prefix ks (parse cs))"
      by simp
    have "parse bs = r # parse cs"
      using Cons.prems cs by (simp add: parse_cons)
    with ih cs show ?thesis
      by (auto simp: prefix_Cons)
  next
    case False
    with Cons.prems(2) have "prefix bs (enc1 r)"
      by (metis concat.simps(2) list.simps(9) prefix_append prefix_same_cases prefix_order.refl
          prefixI)
    with False have torn: "strict_prefix bs (enc1 r)"
      by (auto simp: strict_prefix_def)
    then have "parse bs = []"
      using Cons.prems by (auto intro: parse_torn)
    moreover have "length bs < length (enc1 r)"
      using torn by (rule prefix_length_less)
    ultimately show ?thesis
      by (auto simp: prefix_Cons)
  qed
qed

end

definition frame_parse :: "(u8 list \<Rightarrow> u32) \<Rightarrow> u8 list \<Rightarrow> Record list" where
  "frame_parse crc bs = map (\<lambda>r. r\<lparr>r_offset := 0\<rparr>) (fst (scan_loop crc no_fault bs 0))"

definition log_record :: "Record \<Rightarrow> bool" where
  "log_record r \<longleftrightarrow> valid_record r \<and> r_offset r = 0"

lemma frame_parse_cons:
  assumes "log_record r"
  shows "frame_parse crc (encode_record crc r @ bs) = r # frame_parse crc bs"
proof -
  have one: "scan_one crc no_fault (encode_record crc r @ bs) 0 = StepRecord r (encoded_len r)"
    using scan_one_encoded [of r no_fault "[]" crc bs] assms by (simp add: log_record_def)
  have rest: "scan_loop crc no_fault (encode_record crc r @ bs) (encoded_len r) =
      (let (rs, v, t) = scan_loop crc no_fault bs 0
       in (map (shift_record (encoded_len r)) rs, encoded_len r + v,
           map_option ((+) (encoded_len r)) t))"
    using scan_loop_shift [of crc "encode_record crc r" bs 0] by simp
  show ?thesis
    unfolding frame_parse_def
    using assms one rest
    by (subst scan_loop.simps) (simp add: log_record_def shift_record_def split: prod.splits)
qed

interpretation fl: record_log "encode_record crc" log_record "frame_parse crc" for crc
proof unfold_locales
  show "frame_parse crc [] = []"
    unfolding frame_parse_def
    by (subst scan_loop.simps) (simp add: scan_one_def read_fully_def RECORD_HEADER_LEN_def)
next
  fix r bs
  assume "log_record r"
  then show "frame_parse crc (encode_record crc r @ bs) = r # frame_parse crc bs"
    by (rule frame_parse_cons)
next
  fix r t
  assume r: "log_record r" and t: "strict_prefix t (encode_record crc r)"
  have "scan_one crc no_fault ([] @ t) (length []) \<in> {StepEof, StepBad}"
    using r t scan_one_torn [of t crc r "[]"]
    by (cases "t = []") (simp_all add: log_record_def scan_one_def read_fully_def RECORD_HEADER_LEN_def)
  then show "frame_parse crc t = []"
    unfolding frame_parse_def by (subst scan_loop.simps) auto
qed

section \<open>Theorems on framed files\<close>

lemma scan_from_header:
  assumes "header_ok magic h" and "\<not> flt 0"
  shows "scan_from crc flt (FileHeader_encode h @ bs) magic start =
    (let (rs, v, t) = scan_loop crc flt (FileHeader_encode h @ bs) (max start FILE_HEADER_LEN)
     in Ok \<lparr>sc_header = h, sc_records = rs, sc_valid_len = v, sc_truncated_at = t,
            sc_total_len = FILE_HEADER_LEN + length bs\<rparr>)"
proof -
  have "read_fully flt (FileHeader_encode h @ bs) 0 FILE_HEADER_LEN = ReadOk (FileHeader_encode h)"
    using header_ok_len [OF assms(1)] assms(2)
    by (simp add: read_fully_def slice_def FILE_HEADER_LEN_def)
  then show ?thesis
    using assms header_ok_len [OF assms(1)]
    by (simp add: scan_from_def FileHeader_decode_encode)
qed

lemma scan_loop_end:
  "length bs \<le> off \<Longrightarrow> scan_loop crc no_fault bs off = ([], off, None)"
  by (subst scan_loop.simps) (simp add: scan_one_def read_fully_def RECORD_HEADER_LEN_def)

lemma scan_loop_all:
  assumes "\<forall>r \<in> set rs. valid_record r"
  shows "scan_loop crc no_fault (pre @ encode_records crc rs) (length pre) =
    (place (length pre) rs, length pre + length (encode_records crc rs), None)"
  using scan_loop_encoded [of rs pre crc no_fault "[]"] assms
    scan_loop_end [of "pre @ encode_records crc rs" "length pre + length (encode_records crc rs)" crc]
  by simp

lemma scan_all:
  assumes "header_ok magic h" and "\<forall>r \<in> set rs. valid_record r"
  shows "scan crc no_fault (FileHeader_encode h @ encode_records crc rs) magic =
    Ok \<lparr>sc_header = h, sc_records = place FILE_HEADER_LEN rs,
        sc_valid_len = FILE_HEADER_LEN + length (encode_records crc rs), sc_truncated_at = None,
        sc_total_len = FILE_HEADER_LEN + length (encode_records crc rs)\<rparr>"
  using scan_from_header [OF assms(1), of no_fault crc "encode_records crc rs" FILE_HEADER_LEN]
    scan_loop_all [OF assms(2), of crc "FileHeader_encode h"] assms(1)
  by (simp add: scan_def)

text \<open>
  C12: whatever well-formed records are written after a well-formed header, a scan of the file gives
  back the header and exactly these records with their offsets, reports the whole file as valid and
  finds no damage.
\<close>

theorem scan_roundtrip:
  assumes "header_ok magic h" and "\<forall>r \<in> set rs. valid_record r"
  shows "scan crc (\<lambda>_. False) (FileHeader_encode h @ encode_records crc rs) magic =
    Ok \<lparr>sc_header = h, sc_records = place FILE_HEADER_LEN rs,
        sc_valid_len = FILE_HEADER_LEN + length (encode_records crc rs), sc_truncated_at = None,
        sc_total_len = FILE_HEADER_LEN + length (encode_records crc rs)\<rparr>"
  using assms by (rule scan_all)

definition sample_header :: FileHeader where
  "sample_header = FileHeader_new MAGIC_WAL (replicate 16 7) 1700000000000000"

definition sample_record :: "u8 \<Rightarrow> Record" where
  "sample_record b = Record_checkpoint [b, b]"

lemma sample_ok [simp]:
  "header_ok MAGIC_WAL sample_header" "valid_record (sample_record b)" "log_record (sample_record b)"
  by (simp_all add: header_ok_def sample_header_def FileHeader_new_def MAGIC_WAL_def i64_range_def
      valid_record_def log_record_def sample_record_def Record_checkpoint_def MAX_RECORD_PAYLOAD_def)

lemma sample_len [simp]:
  "encoded_len (sample_record b) = 14" "length (FileHeader_encode sample_header) = 32"
  using header_ok_len [of MAGIC_WAL sample_header]
  by (simp_all add: encoded_len_def sample_record_def Record_checkpoint_def frame_len_defs)

theorem scan_roundtrip_witness:
  "scan (\<lambda>_. 5) (\<lambda>_. False)
     (FileHeader_encode sample_header @ encode_records (\<lambda>_. 5) [sample_record 1, sample_record 2])
     MAGIC_WAL =
   Ok \<lparr>sc_header = sample_header,
       sc_records = [(sample_record 1)\<lparr>r_offset := 32\<rparr>, (sample_record 2)\<lparr>r_offset := 46\<rparr>],
       sc_valid_len = 60, sc_truncated_at = None, sc_total_len = 60\<rparr>"
  using scan_roundtrip [of MAGIC_WAL sample_header "[sample_record 1, sample_record 2]" "\<lambda>_. 5"]
  by (simp add: frame_len_defs)

lemma scan_ok_sound:
  assumes "scan crc flt bs magic = Ok sc"
  shows "FILE_HEADER_LEN \<le> sc_valid_len sc \<and> sc_valid_len sc \<le> length bs \<and>
    slice FILE_HEADER_LEN (sc_valid_len sc) bs = encode_records crc (sc_records sc) \<and>
    (\<forall>r \<in> set (sc_records sc). valid_record r) \<and>
    place FILE_HEADER_LEN (sc_records sc) = sc_records sc \<and>
    sc_total_len sc = length bs \<and>
    (sc_truncated_at sc = None \<and> sc_valid_len sc = length bs \<or>
     sc_truncated_at sc = Some (sc_valid_len sc))"
proof -
  obtain rs v t where loop: "scan_loop crc flt bs FILE_HEADER_LEN = (rs, v, t)"
    by (cases "scan_loop crc flt bs FILE_HEADER_LEN")
  have len: "FILE_HEADER_LEN \<le> length bs"
    and sc: "sc_records sc = rs" "sc_valid_len sc = v" "sc_truncated_at sc = t"
      "sc_total_len sc = length bs"
    using assms loop
    by (auto simp: scan_def scan_from_def read_fully_def FILE_HEADER_LEN_def
        split: read_result.splits sum.splits if_splits)
  show ?thesis
    using scan_loop_sound [OF loop len] sc by auto
qed

text \<open>
  C13: on arbitrary bytes and whatever reads fail, a scan that succeeds reports a valid length within
  the file such that the bytes between the header and that length are exactly the encodings of the
  records it returns, each within the payload cap and stamped with its true offset; it reports no
  damage only if the whole file is covered, and otherwise damage exactly at the valid length.
\<close>

theorem scan_sound:
  assumes "scan crc flt bs magic = Ok sc"
  shows "FILE_HEADER_LEN \<le> sc_valid_len sc \<and> sc_valid_len sc \<le> length bs \<and>
    slice FILE_HEADER_LEN (sc_valid_len sc) bs = encode_records crc (sc_records sc) \<and>
    (\<forall>r \<in> set (sc_records sc). valid_record r) \<and>
    place FILE_HEADER_LEN (sc_records sc) = sc_records sc \<and>
    sc_total_len sc = length bs \<and>
    (sc_truncated_at sc = None \<and> sc_valid_len sc = length bs \<or>
     sc_truncated_at sc = Some (sc_valid_len sc))"
  using assms by (rule scan_ok_sound)

theorem scan_sound_witness:
  "\<exists>sc. scan (\<lambda>_. 5) (\<lambda>_. False) (FileHeader_encode sample_header @ [1, 2, 3]) MAGIC_WAL = Ok sc \<and>
     sc_valid_len sc = 32 \<and> sc_truncated_at sc = Some 32"
proof -
  let ?bs = "FileHeader_encode sample_header @ [1, 2, 3]"
  obtain sc where sc: "scan (\<lambda>_. 5) (\<lambda>_. False) ?bs MAGIC_WAL = Ok sc"
    using scan_from_header [of MAGIC_WAL sample_header no_fault "\<lambda>_. 5" "[1, 2, 3]" FILE_HEADER_LEN]
    by (auto simp: scan_def split: prod.splits)
  have "scan_one (\<lambda>_. 5) no_fault ?bs 32 = StepBad"
    using read_fully_suffix0 [of no_fault "FileHeader_encode sample_header" "[1, 2, 3]" 12]
    by (simp add: scan_one_def frame_len_defs)
  then have "scan_loop (\<lambda>_. 5) no_fault ?bs FILE_HEADER_LEN = ([], 32, Some 32)"
    by (subst scan_loop.simps) (simp add: FILE_HEADER_LEN_def)
  then have "sc_truncated_at sc = Some 32"
    using sc scan_from_header [of MAGIC_WAL sample_header no_fault "\<lambda>_. 5" "[1, 2, 3]" FILE_HEADER_LEN]
    by (auto simp: scan_def)
  then show ?thesis
    using scan_sound [OF sc] sc by auto
qed

section \<open>Recovery and appends\<close>

lemma scan_loop_parse:
  assumes "scan_loop crc no_fault cs 0 = (rs, v, t)"
  shows "take v cs = encode_records crc (frame_parse crc cs)"
    and "v = length (encode_records crc (frame_parse crc cs))"
    and "t = None \<Longrightarrow> v = length cs" and "\<forall>r \<in> set (frame_parse crc cs). log_record r"
proof -
  have zero: "encode_records crc (map (\<lambda>r. r\<lparr>r_offset := 0\<rparr>) xs) = encode_records crc xs" for xs
    by (induction xs) simp_all
  have valid: "valid_record (r\<lparr>r_offset := 0\<rparr>) = valid_record r" for r
    by (simp add: valid_record_def)
  note sound = scan_loop_sound [OF assms]
  show enc: "take v cs = encode_records crc (frame_parse crc cs)"
    using sound assms by (simp add: frame_parse_def zero slice_zero)
  show "v = length (encode_records crc (frame_parse crc cs))"
    using sound by (simp flip: enc)
  show "t = None \<Longrightarrow> v = length cs" "\<forall>r \<in> set (frame_parse crc cs). log_record r"
    using sound assms by (auto simp: frame_parse_def log_record_def valid)
qed

lemma open_parse:
  assumes "header_ok magic h"
  shows "FrameWriter_open crc no_fault fresh (FileHeader_encode h @ cs) magic =
    Ok (\<lparr>fw_header = h, fw_len = FILE_HEADER_LEN + length (encode_records crc (frame_parse crc cs))\<rparr>,
        FileHeader_encode h @ encode_records crc (frame_parse crc cs))"
proof -
  obtain rs v t where loop: "scan_loop crc no_fault cs 0 = (rs, v, t)"
    by (cases "scan_loop crc no_fault cs 0")
  have len: "length (FileHeader_encode h) = FILE_HEADER_LEN"
    using assms by simp
  have "scan_loop crc no_fault (FileHeader_encode h @ cs) FILE_HEADER_LEN =
      (map (shift_record FILE_HEADER_LEN) rs, FILE_HEADER_LEN + v, map_option ((+) FILE_HEADER_LEN) t)"
    using scan_loop_shift [of crc "FileHeader_encode h" cs 0] loop len by simp
  then have "scan crc no_fault (FileHeader_encode h @ cs) magic =
      Ok \<lparr>sc_header = h, sc_records = map (shift_record FILE_HEADER_LEN) rs,
          sc_valid_len = FILE_HEADER_LEN + v, sc_truncated_at = map_option ((+) FILE_HEADER_LEN) t,
          sc_total_len = FILE_HEADER_LEN + length cs\<rparr>"
    using scan_from_header [OF assms] by (simp add: scan_def)
  then show ?thesis
    using scan_loop_parse [OF loop] len
    by (cases t) (simp_all add: FrameWriter_open_def open_trusted_def)
qed

text \<open>
  C8: a crash that keeps any prefix of a log file (at least its header) loses only the records
  whose bytes were not all written: reopening the file truncates it to the header and a prefix of
  the records, positioned for the next append, and every record that lies wholly within the
  surviving bytes is kept.
\<close>

theorem open_after_crash:
  assumes "header_ok magic h" and "\<forall>r \<in> set rs. log_record r" and "FILE_HEADER_LEN \<le> n"
  shows "\<exists>ks. prefix ks rs \<and>
    FrameWriter_open crc (\<lambda>_. False) fresh (take n (FileHeader_encode h @ encode_records crc rs)) magic =
      Ok (\<lparr>fw_header = h, fw_len = FILE_HEADER_LEN + length (encode_records crc ks)\<rparr>,
          FileHeader_encode h @ encode_records crc ks) \<and>
    (\<forall>js. prefix js rs \<and> FILE_HEADER_LEN + length (encode_records crc js) \<le> n \<longrightarrow> prefix js ks)"
proof -
  define cs where "cs = take (n - FILE_HEADER_LEN) (encode_records crc rs)"
  have cut: "take n (FileHeader_encode h @ encode_records crc rs) = FileHeader_encode h @ cs"
    using assms by (simp add: cs_def)
  have pre: "prefix cs (encode_records crc rs)"
    by (simp add: cs_def take_is_prefix)
  have max: "prefix js (frame_parse crc cs)"
    if js: "prefix js rs" "FILE_HEADER_LEN + length (encode_records crc js) \<le> n" for js
  proof -
    have "length (encode_records crc js) \<le> length (encode_records crc rs)"
      using js(1) by (auto simp: prefix_def)
    with js fl.parse_prefix [of rs cs crc] assms(2) pre show ?thesis
      by (auto simp: cs_def encode_records_def [symmetric])
  qed
  show ?thesis
    using fl.parse_prefix [of rs cs crc] assms(2) pre max open_parse [OF assms(1), of crc fresh cs]
    unfolding cut by (intro exI [of _ "frame_parse crc cs"]) (simp add: encode_records_def [symmetric])
qed

theorem open_after_crash_witness:
  "\<exists>ks. prefix ks [sample_record 1, sample_record 2] \<and>
    FrameWriter_open (\<lambda>_. 5) (\<lambda>_. False) sample_header
      (take 50 (FileHeader_encode sample_header @
        encode_records (\<lambda>_. 5) [sample_record 1, sample_record 2])) MAGIC_WAL =
      Ok (\<lparr>fw_header = sample_header,
           fw_len = FILE_HEADER_LEN + length (encode_records (\<lambda>_. 5) ks)\<rparr>,
          FileHeader_encode sample_header @ encode_records (\<lambda>_. 5) ks) \<and>
    prefix [sample_record 1] ks"
proof -
  have "prefix [sample_record 1] [sample_record 1, sample_record 2]"
    "FILE_HEADER_LEN + length (encode_records (\<lambda>_. 5) [sample_record 1]) \<le> 50"
    by (simp_all add: FILE_HEADER_LEN_def)
  moreover have "FILE_HEADER_LEN \<le> 50"
    by (simp add: FILE_HEADER_LEN_def)
  ultimately show ?thesis
    using open_after_crash [of MAGIC_WAL sample_header "[sample_record 1, sample_record 2]" 50
        "\<lambda>_. 5" sample_header]
    by auto
qed

lemma check_payloads_iff:
  "check_payloads rs = Ok () \<longleftrightarrow> (\<forall>r \<in> set rs. length (r_payload r) \<le> MAX_RECORD_PAYLOAD)"
  by (induction rs) (auto simp: check_payload_len_def)

lemma check_payloads_cases:
  "check_payloads rs = Ok () \<or> (\<exists>n > MAX_RECORD_PAYLOAD. check_payloads rs = Err (RecordTooLarge n MAX_RECORD_PAYLOAD))"
  by (induction rs) (auto simp: check_payload_len_def)



text \<open>
  A committed-length hint at a record boundary changes nothing but the work: whatever bytes
  follow the boundary, opening with the hint gives the same writer and the same file as the full
  scan. Only the bytes after the hint are scanned.
\<close>

theorem open_trusted_boundary:
  assumes "header_ok magic h" and "\<forall>r \<in> set rs. valid_record r"
  shows "open_trusted crc (\<lambda>_. False) fresh (FileHeader_encode h @ encode_records crc rs @ tail) magic
      (Some (FILE_HEADER_LEN + length (encode_records crc rs))) =
    FrameWriter_open crc (\<lambda>_. False) fresh (FileHeader_encode h @ encode_records crc rs @ tail) magic"
proof -
  let ?file = "FileHeader_encode h @ encode_records crc rs @ tail"
  let ?l = "FILE_HEADER_LEN + length (encode_records crc rs)"
  obtain ss v t where tl: "scan_loop crc no_fault ?file ?l = (ss, v, t)"
    by (cases "scan_loop crc no_fault ?file ?l")
  have len: "length (FileHeader_encode h) = FILE_HEADER_LEN"
    using assms(1) by simp
  have full: "scan_loop crc no_fault ?file FILE_HEADER_LEN = (place FILE_HEADER_LEN rs @ ss, v, t)"
    using scan_loop_encoded [OF assms(2), of "FileHeader_encode h" crc no_fault tail] tl len by simp
  have sc: "scan_from crc no_fault ?file magic ?l =
      Ok \<lparr>sc_header = h, sc_records = ss, sc_valid_len = v, sc_truncated_at = t,
          sc_total_len = FILE_HEADER_LEN + length (encode_records crc rs @ tail)\<rparr>"
    "scan crc no_fault ?file magic =
      Ok \<lparr>sc_header = h, sc_records = place FILE_HEADER_LEN rs @ ss, sc_valid_len = v,
          sc_truncated_at = t, sc_total_len = FILE_HEADER_LEN + length (encode_records crc rs @ tail)\<rparr>"
    using scan_from_header [OF assms(1), of no_fault crc "encode_records crc rs @ tail"] tl full
    by (simp_all add: scan_def)
  show ?thesis
    using sc len by (simp add: FrameWriter_open_def open_trusted_def Let_def)
qed

theorem open_trusted_boundary_witness:
  "open_trusted (\<lambda>_. 5) (\<lambda>_. False) sample_header
      (FileHeader_encode sample_header @ encode_records (\<lambda>_. 5) [sample_record 1] @ [9, 9]) MAGIC_WAL
      (Some 46) =
    FrameWriter_open (\<lambda>_. 5) (\<lambda>_. False) sample_header
      (FileHeader_encode sample_header @ encode_records (\<lambda>_. 5) [sample_record 1] @ [9, 9]) MAGIC_WAL"
  using open_trusted_boundary [of MAGIC_WAL sample_header "[sample_record 1]" "\<lambda>_. 5" sample_header "[9, 9]"]
  by (simp add: FILE_HEADER_LEN_def)

text \<open>
  C21: a read that fails with an I/O error at a record boundary is treated like a torn tail: opening
  the file for writing succeeds and cuts off every record from that boundary on, although the
  records are intact on disk.
\<close>

theorem open_read_error_truncates:
  assumes "header_ok magic h" and "\<forall>r \<in> set (rs @ ss). valid_record r"
  shows "FrameWriter_open crc (\<lambda>k. k = FILE_HEADER_LEN + length (encode_records crc rs)) fresh
      (FileHeader_encode h @ encode_records crc (rs @ ss)) magic =
    Ok (\<lparr>fw_header = h, fw_len = FILE_HEADER_LEN + length (encode_records crc rs)\<rparr>,
        FileHeader_encode h @ encode_records crc rs)"
proof -
  let ?l = "FILE_HEADER_LEN + length (encode_records crc rs)"
  let ?flt = "\<lambda>k. k = ?l"
  let ?file = "FileHeader_encode h @ encode_records crc (rs @ ss)"
  have len: "length (FileHeader_encode h) = FILE_HEADER_LEN"
    using assms(1) by simp
  have "scan_one crc ?flt ?file ?l = StepBad"
    by (simp add: scan_one_def read_fully_def RECORD_HEADER_LEN_def)
  then have "scan_loop crc ?flt ?file ?l = ([], ?l, Some ?l)"
    by (subst scan_loop.simps) simp
  then have "scan_loop crc ?flt ?file FILE_HEADER_LEN = (place FILE_HEADER_LEN rs, ?l, Some ?l)"
    using scan_loop_encoded [of rs "FileHeader_encode h" crc ?flt "encode_records crc ss"] assms(2) len
    by simp
  moreover have "\<not> ?flt 0"
    by (simp add: FILE_HEADER_LEN_def)
  ultimately show ?thesis
    using scan_from_header [OF assms(1), of ?flt crc "encode_records crc (rs @ ss)" FILE_HEADER_LEN] len
    by (simp add: scan_def FrameWriter_open_def open_trusted_def Let_def)
qed

theorem open_read_error_truncates_witness:
  "FrameWriter_open (\<lambda>_. 5) (\<lambda>k. k = 46) sample_header
      (FileHeader_encode sample_header @ encode_records (\<lambda>_. 5) [sample_record 1, sample_record 2]) MAGIC_WAL =
    Ok (\<lparr>fw_header = sample_header, fw_len = 46\<rparr>,
        FileHeader_encode sample_header @ encode_records (\<lambda>_. 5) [sample_record 1])"
  using open_read_error_truncates [of MAGIC_WAL sample_header "[sample_record 1]" "[sample_record 2]"
      "\<lambda>_. 5" sample_header]
  by (simp add: FILE_HEADER_LEN_def)

end
