(* ===== verification/Resync.thy ===== *)
theory Resync
  imports Frame
begin

text \<open>
  The resynchronising scan of framed files (\<open>attemptdb-storage/src/frame.rs\<close>, lines 408 to 601):
  it looks for the next valid record after damage instead of stopping there. The work budget that
  bounds the search is threaded through as in the source. The theorems: the records found and the
  damaged ranges tile the bytes with nothing lost or counted twice, every record found is really
  encoded at its offset, and a record damaged in its payload or checksum costs that record only.
\<close>

section \<open>Definitions\<close>

record DamagedRange =
  d_offset :: nat
  d_len :: nat
  d_torn_tail :: bool

record ResyncScan =
  rs_header :: FileHeader
  rs_records :: "Record list"
  rs_damaged :: "DamagedRange list"
  rs_total_len :: nat

definition mid_file_damage :: "ResyncScan \<Rightarrow> DamagedRange list" where
  "mid_file_damage s =
     (let last_record_end =
        (if rs_records s = [] then 0
         else r_offset (last (rs_records s)) + RECORD_HEADER_LEN + length (r_payload (last (rs_records s))))
      in filter (\<lambda>d. d_offset d < last_record_end) (rs_damaged s))"

definition record_at ::
  "(u8 list \<Rightarrow> u32) \<Rightarrow> u8 list \<Rightarrow> nat \<Rightarrow> nat \<Rightarrow> nat \<Rightarrow> (Record \<times> nat) option \<times> nat"
where
  "record_at crc bytes pos base budget =
     (if length bytes < pos + RECORD_HEADER_LEN then (None, budget)
      else
        let head = slice pos (pos + RECORD_HEADER_LEN) bytes;
            payload_len = unat (u32_le (slice 0 4 head));
            rtype = head ! 8; codec = head ! 9; flags = u16_le (slice 10 12 head)
        in if payload_len > MAX_RECORD_PAYLOAD then (None, budget)
           else if flags \<noteq> 0 \<or> \<not> (rtype = record_type_EVENT \<or> rtype = record_type_CHECKPOINT) \<or>
             codec \<noteq> CodecId_Json then (None, budget)
           else
             let stop = pos + RECORD_HEADER_LEN + payload_len;
                 body = slice (pos + 8) stop bytes
             in if length bytes < stop then (None, budget)
                else if budget < length body then (None, budget)
                else if crc body \<noteq> u32_le (slice 4 8 head) then (None, budget - length body)
                else (Some (\<lparr>r_type = rtype, r_codec = codec, r_flags = flags,
                             r_payload = slice (pos + RECORD_HEADER_LEN) stop bytes,
                             r_offset = base + pos\<rparr>, stop), budget))"

definition plausible_header :: "u8 list \<Rightarrow> nat \<Rightarrow> bool" where
  "plausible_header bytes pos \<longleftrightarrow>
     pos + RECORD_HEADER_LEN \<le> length bytes \<and>
     (let h = slice pos (pos + RECORD_HEADER_LEN) bytes in
      u16_le (slice 10 12 h) = 0 \<and>
      (h ! 8 = record_type_EVENT \<or> h ! 8 = record_type_CHECKPOINT) \<and>
      h ! 9 = CodecId_Json \<and>
      unat (u32_le (slice 0 4 h)) \<le> MAX_RECORD_PAYLOAD)"

text \<open>The inner loop of \<open>resync_bytes\<close>: the next position where a record starts.\<close>

function skip_loop :: "(u8 list \<Rightarrow> u32) \<Rightarrow> u8 list \<Rightarrow> nat \<Rightarrow> nat \<Rightarrow> nat \<Rightarrow> nat \<times> nat" where
  "skip_loop crc bytes base budget pos =
     (if length bytes \<le> pos then (pos, budget)
      else if plausible_header bytes pos then
        (case record_at crc bytes pos base budget of
           (Some _, budget') \<Rightarrow> (pos, budget')
         | (None, budget') \<Rightarrow> skip_loop crc bytes base budget' (pos + 1))
      else skip_loop crc bytes base budget (pos + 1))"
  by pat_completeness auto
termination
  by (relation "measure (\<lambda>(crc, bytes, base, budget, pos). length bytes - pos)") auto

declare skip_loop.simps [simp del]

lemma skip_loop_ge: "skip_loop crc bytes base budget pos = (pos', budget') \<Longrightarrow> pos \<le> pos'"
proof (induction crc bytes base budget pos arbitrary: pos' budget' rule: skip_loop.induct)
  case (1 crc bytes base budget pos)
  from "1.prems" show ?case
    using "1.IH" [simplified]
    by (subst (asm) skip_loop.simps) (force split: if_splits prod.splits option.splits)
qed

lemma record_at_advance:
  "record_at crc bytes pos base budget = (Some (r, stop), budget') \<Longrightarrow>
   pos < stop \<and> stop \<le> length bytes \<and> pos < length bytes"
  by (auto simp: record_at_def Let_def RECORD_HEADER_LEN_def split: if_splits)

definition close_range :: "nat \<Rightarrow> nat option \<Rightarrow> nat \<Rightarrow> DamagedRange list" where
  "close_range base bad_from until =
     (case bad_from of
        None \<Rightarrow> []
      | Some first \<Rightarrow> [\<lparr>d_offset = base + first, d_len = until - first, d_torn_tail = False\<rparr>])"

definition declared_end :: "u8 list \<Rightarrow> nat \<Rightarrow> nat" where
  "declared_end bytes pos = pos + RECORD_HEADER_LEN + unat (u32_le (slice pos (pos + 4) bytes))"

text \<open>
  The outer loop: the records and closed damaged ranges from \<open>pos\<close> on, and the value of
  \<open>bad_from\<close> when the loop ends.
\<close>

function resync_loop ::
  "(u8 list \<Rightarrow> u32) \<Rightarrow> u8 list \<Rightarrow> nat \<Rightarrow> nat \<Rightarrow> nat \<Rightarrow> nat option \<Rightarrow>
   Record list \<times> DamagedRange list \<times> nat option"
where
  "resync_loop crc bytes base budget pos bad_from =
     (if length bytes \<le> pos then ([], [], bad_from)
      else case record_at crc bytes pos base budget of
        (Some (r, stop), budget1) \<Rightarrow>
          (let (rs, ds, bf) = resync_loop crc bytes base budget1 stop None
           in (r # rs, close_range base bad_from pos @ ds, bf))
      | (None, budget1) \<Rightarrow>
          (let (jump, budget2) =
             (if bad_from = None \<and> plausible_header bytes pos \<and> declared_end bytes pos \<le> length bytes
              then (case record_at crc bytes (declared_end bytes pos) base budget1 of
                      (Some _, b) \<Rightarrow> (True, b) | (None, b) \<Rightarrow> (False, b))
              else (False, budget1));
               bad_from' = (if bad_from = None then Some pos else bad_from)
           in if jump then
                (let (rs, ds, bf) = resync_loop crc bytes base budget2 (declared_end bytes pos) None
                 in (rs, close_range base bad_from' (declared_end bytes pos) @ ds, bf))
              else
                (let (pos', budget3) = skip_loop crc bytes base budget2 (pos + 1)
                 in resync_loop crc bytes base budget3 pos' bad_from')))"
  by pat_completeness auto
termination
  by (relation "measure (\<lambda>(crc, bytes, base, budget, pos, bad_from). length bytes - pos)")
    (auto simp: declared_end_def RECORD_HEADER_LEN_def dest!: record_at_advance [OF sym]
      dest: skip_loop_ge [OF sym] intro!: diff_less_mono2)

declare resync_loop.simps [simp del]

definition resync_bytes :: "(u8 list \<Rightarrow> u32) \<Rightarrow> u8 list \<Rightarrow> nat \<Rightarrow> Record list \<times> DamagedRange list" where
  "resync_bytes crc bytes base =
     (let (rs, ds, bad_from) = resync_loop crc bytes base (length bytes * 4 + 2 ^ 20) 0 None
      in case bad_from of
           None \<Rightarrow> (rs, ds)
         | Some first \<Rightarrow>
             (let rest = length bytes - first;
                  torn = (rest < RECORD_HEADER_LEN \<or>
                    unat (u32_le (slice first (first + 4) bytes)) \<le> MAX_RECORD_PAYLOAD \<and>
                    rest < RECORD_HEADER_LEN + unat (u32_le (slice first (first + 4) bytes)) \<and>
                    plausible_header bytes first)
              in (rs, ds @ [\<lparr>d_offset = base + first, d_len = rest, d_torn_tail = torn\<rparr>])))"

definition scan_resync ::
  "(u8 list \<Rightarrow> u32) \<Rightarrow> (nat \<Rightarrow> bool) \<Rightarrow> u8 list \<Rightarrow> u8 list \<Rightarrow> storage_error + ResyncScan"
where
  "scan_resync crc flt file magic =
     (case scan crc flt file magic of
        Err e \<Rightarrow> Err e
      | Ok sc \<Rightarrow>
          (case sc_truncated_at sc of
             None \<Rightarrow> Ok \<lparr>rs_header = sc_header sc, rs_records = sc_records sc, rs_damaged = [],
                        rs_total_len = sc_total_len sc\<rparr>
           | Some at \<Rightarrow>
               (let (more, damaged) = resync_bytes crc (drop at file) at
                in Ok \<lparr>rs_header = sc_header sc, rs_records = sc_records sc @ more,
                       rs_damaged = damaged, rs_total_len = sc_total_len sc\<rparr>)))"

section \<open>The records found are records\<close>

definition resync_record :: "Record \<Rightarrow> bool" where
  "resync_record r \<longleftrightarrow>
     valid_record r \<and> r_flags r = 0 \<and> r_codec r = CodecId_Json \<and>
     (r_type r = record_type_EVENT \<or> r_type r = record_type_CHECKPOINT)"

lemma record_at_scan_one:
  assumes "record_at crc bytes pos base budget = (Some (r, stop), budget')"
  shows "scan_one crc no_fault bytes pos = StepRecord (r\<lparr>r_offset := pos\<rparr>) stop"
    and "r_offset r = base + pos" and "budget' = budget" and "r_flags r = 0" "r_codec r = CodecId_Json"
    and "r_type r = record_type_EVENT \<or> r_type r = record_type_CHECKPOINT"
proof -
  define h where "h = slice pos (pos + 12) bytes"
  define n where "n = unat (u32_le (slice 0 4 h))"
  from assms have
    n: "n \<le> MAX_RECORD_PAYLOAD" "pos + 12 + n \<le> length bytes" and
    sum: "crc (slice (pos + 8) (pos + 12 + n) bytes) = u32_le (slice 4 8 h)" and
    r: "r = \<lparr>r_type = h ! 8, r_codec = h ! 9, r_flags = u16_le (slice 10 12 h),
         r_payload = slice (pos + 12) (pos + 12 + n) bytes, r_offset = base + pos\<rparr>"
       "stop = pos + 12 + n" and
    kind: "budget' = budget" "r_flags r = 0" "r_codec r = CodecId_Json"
      "r_type r = record_type_EVENT \<or> r_type r = record_type_CHECKPOINT"
    unfolding record_at_def RECORD_HEADER_LEN_def
    by (simp_all add: Let_def h_def [symmetric] n_def [symmetric] split: if_splits) auto
  have "slice (pos + 8) (pos + 12) bytes = slice 8 12 h"
    using n by (simp add: h_def slice_def add.commute drop_take)
  then have body: "slice (pos + 8) (pos + 12 + n) bytes = slice 8 12 h @ slice (pos + 12) (pos + 12 + n) bytes"
    using slice_split [of "pos + 8" "pos + 12" "pos + 12 + n" bytes] by simp
  have ty: "h ! 8 \<noteq> 0"
    using kind r by (auto simp: record_type_EVENT_def record_type_CHECKPOINT_def)
  have h: "read_fully no_fault bytes pos RECORD_HEADER_LEN = ReadOk h"
    using n by (simp add: read_fully_def RECORD_HEADER_LEN_def h_def)
  have b: "read_fully no_fault bytes (pos + RECORD_HEADER_LEN) n =
      ReadOk (slice (pos + 12) (pos + 12 + n) bytes)"
    using n by (auto simp: read_fully_def RECORD_HEADER_LEN_def slice_def)
  show "scan_one crc no_fault bytes pos = StepRecord (r\<lparr>r_offset := pos\<rparr>) stop"
    unfolding scan_one_def h
    using n ty b sum body r by (simp add: Let_def n_def [symmetric] RECORD_HEADER_LEN_def)
  show "r_offset r = base + pos" "budget' = budget" "r_flags r = 0" "r_codec r = CodecId_Json"
    "r_type r = record_type_EVENT \<or> r_type r = record_type_CHECKPOINT"
    using r kind by simp_all
qed

lemma record_at_sound:
  assumes "record_at crc bytes pos base budget = (Some (r, stop), budget')"
  shows "resync_record r \<and> r_offset r = base + pos \<and> stop = pos + encoded_len r \<and>
    stop \<le> length bytes \<and> slice pos stop bytes = encode_record crc r"
  using scan_one_sound [OF record_at_scan_one(1) [OF assms]] record_at_scan_one(2-) [OF assms]
  by (auto simp: resync_record_def valid_record_def)

lemma skip_loop_le:
  "skip_loop crc bytes base budget pos = (pos', budget') \<Longrightarrow> pos \<le> length bytes \<Longrightarrow> pos' \<le> length bytes"
proof (induction crc bytes base budget pos arbitrary: pos' budget' rule: skip_loop.induct)
  case (1 crc bytes base budget pos)
  from "1.prems" show ?case
    using "1.IH" [simplified]
    by (subst (asm) skip_loop.simps) (force split: if_splits prod.splits option.splits)
qed

section \<open>Records and damage tile the bytes\<close>

definition rec_span :: "Record \<Rightarrow> nat \<times> nat" where
  "rec_span r = (r_offset r, encoded_len r)"

definition dmg_span :: "DamagedRange \<Rightarrow> nat \<times> nat" where
  "dmg_span d = (d_offset d, d_len d)"

text \<open>Spans (start, length) that follow each other without gap or overlap from \<open>a\<close> to \<open>b\<close>.\<close>

primrec tiles :: "nat \<Rightarrow> (nat \<times> nat) list \<Rightarrow> nat \<Rightarrow> bool" where
  "tiles a [] b \<longleftrightarrow> a = b"
| "tiles a (x # xs) b \<longleftrightarrow> fst x = a \<and> 0 < snd x \<and> tiles (a + snd x) xs b"

lemma tiles_snoc: "tiles a (xs @ [x]) b \<longleftrightarrow> tiles a xs (fst x) \<and> 0 < snd x \<and> b = fst x + snd x"
  by (induction xs arbitrary: a) auto

definition loop_tiled ::
  "nat \<Rightarrow> u8 list \<Rightarrow> nat \<Rightarrow> nat option \<Rightarrow> Record list \<Rightarrow> DamagedRange list \<Rightarrow> nat option \<Rightarrow> bool"
where
  "loop_tiled base bytes pos bf rs ds bf' \<longleftrightarrow>
     (\<exists>iv \<in> shuffles (map rec_span rs) (map dmg_span ds).
        tiles (base + (case bf of None \<Rightarrow> pos | Some f \<Rightarrow> f)) iv
          (base + (case bf' of None \<Rightarrow> length bytes | Some f \<Rightarrow> f)) \<and>
        (case bf' of None \<Rightarrow> True | Some f \<Rightarrow> f < length bytes))"

lemma loop_tiled_dmg:
  assumes "loop_tiled base bytes stop None rs ds bf'" and "f < stop"
  shows "loop_tiled base bytes pos (Some f) rs (close_range base (Some f) stop @ ds) bf'"
proof -
  obtain iv where iv: "iv \<in> shuffles (map rec_span rs) (map dmg_span ds)"
    "tiles (base + stop) iv (base + (case bf' of None \<Rightarrow> length bytes | Some f \<Rightarrow> f))"
    "case bf' of None \<Rightarrow> True | Some f \<Rightarrow> f < length bytes"
    using assms(1) by (auto simp: loop_tiled_def)
  then show ?thesis
    using assms(2)
    unfolding loop_tiled_def
    by (intro bexI [of _ "(base + f, stop - f) # iv"])
      (simp_all add: close_range_def dmg_span_def Cons_in_shuffles_rightI)
qed

lemma loop_tiled_rec:
  assumes "loop_tiled base bytes (pos + encoded_len r) None rs ds bf'" and "r_offset r = base + pos"
  shows "loop_tiled base bytes pos None (r # rs) ds bf'"
proof -
  obtain iv where iv: "iv \<in> shuffles (map rec_span rs) (map dmg_span ds)"
    "tiles (base + (pos + encoded_len r)) iv (base + (case bf' of None \<Rightarrow> length bytes | Some f \<Rightarrow> f))"
    "case bf' of None \<Rightarrow> True | Some f \<Rightarrow> f < length bytes"
    using assms(1) by (auto simp: loop_tiled_def)
  have "0 < encoded_len r"
    by (simp add: encoded_len_def RECORD_HEADER_LEN_def)
  with iv assms(2) show ?thesis
    unfolding loop_tiled_def
    by (intro bexI [of _ "(base + pos, encoded_len r) # iv"])
      (simp_all add: rec_span_def add.assoc Cons_in_shuffles_leftI)
qed

text \<open>One unfolding of the outer loop, with its three ways to go on.\<close>

lemma resync_loop_cases:
  assumes "resync_loop crc bytes base budget pos bf = (rs, ds, bf')" and "pos < length bytes"
  obtains (rec) r stop budget1 rs' ds' where
      "record_at crc bytes pos base budget = (Some (r, stop), budget1)"
      "resync_loop crc bytes base budget1 stop None = (rs', ds', bf')"
      "rs = r # rs'" "ds = close_range base bf pos @ ds'"
  | (jump) budget1 budget2 ds' where
      "record_at crc bytes pos base budget = (None, budget1)" "bf = None"
      "pos < declared_end bytes pos" "declared_end bytes pos \<le> length bytes"
      "resync_loop crc bytes base budget2 (declared_end bytes pos) None = (rs, ds', bf')"
      "ds = close_range base (Some pos) (declared_end bytes pos) @ ds'"
  | (skip) budget1 budget2 budget3 pos' where
      "record_at crc bytes pos base budget = (None, budget1)"
      "skip_loop crc bytes base budget2 (pos + 1) = (pos', budget3)"
      "pos < pos'" "pos' \<le> length bytes"
      "resync_loop crc bytes base budget3 pos' (Some (case bf of None \<Rightarrow> pos | Some f \<Rightarrow> f)) = (rs, ds, bf')"
proof (cases "record_at crc bytes pos base budget")
  case (Pair x budget1)
  show ?thesis
  proof (cases x)
    case (Some y)
    then show ?thesis
      using assms Pair rec
      by (cases y, subst (asm) resync_loop.simps) (auto split: prod.splits)
  next
    case None
    define jb where "jb =
       (if bf = None \<and> plausible_header bytes pos \<and> declared_end bytes pos \<le> length bytes
        then (case record_at crc bytes (declared_end bytes pos) base budget1 of
                (Some _, b) \<Rightarrow> (True, b) | (None, b) \<Rightarrow> (False, b))
        else (False, budget1))"
    obtain pos' budget3 where sk: "skip_loop crc bytes base (snd jb) (pos + 1) = (pos', budget3)"
      by (cases "skip_loop crc bytes base (snd jb) (pos + 1)")
    have eq: "(if fst jb then
          (let (rs, ds, g) = resync_loop crc bytes base (snd jb) (declared_end bytes pos) None
           in (rs, close_range base (if bf = None then Some pos else bf) (declared_end bytes pos) @ ds, g))
        else resync_loop crc bytes base budget3 pos' (if bf = None then Some pos else bf)) = (rs, ds, bf')"
      using assms Pair None sk
      by (subst (asm) resync_loop.simps)
        (auto simp: jb_def [symmetric] Let_def case_prod_beta split: if_splits)
    have dec: "pos < declared_end bytes pos"
      by (simp add: declared_end_def RECORD_HEADER_LEN_def)
    show ?thesis
    proof (cases "fst jb")
      case True
      then have "bf = None" "declared_end bytes pos \<le> length bytes"
        by (auto simp: jb_def split: if_splits)
      with True eq Pair None dec jump show ?thesis
        by (auto split: prod.splits)
    next
      case False
      have "pos < pos'" "pos' \<le> length bytes"
        using skip_loop_ge [OF sk] skip_loop_le [OF sk] assms(2) by auto
      with False eq Pair None sk skip show ?thesis
        by (cases bf) auto
    qed
  qed
qed

text \<open>A well-formed record whose encoding is what the bytes (from file offset \<open>base\<close> on) hold at its offset.\<close>

definition found_at :: "(u8 list \<Rightarrow> u32) \<Rightarrow> u8 list \<Rightarrow> nat \<Rightarrow> Record \<Rightarrow> bool" where
  "found_at crc bytes base r \<longleftrightarrow>
     resync_record r \<and> base \<le> r_offset r \<and>
     slice (r_offset r - base) (r_offset r - base + encoded_len r) bytes = encode_record crc r"

lemma resync_loop_tiled:
  assumes "resync_loop crc bytes base budget pos bf = (rs, ds, bf')"
    and "pos \<le> length bytes" and "\<forall>f. bf = Some f \<longrightarrow> f < pos"
  shows "loop_tiled base bytes pos bf rs ds bf' \<and>
    (\<forall>r \<in> set rs. found_at crc bytes base r)"
  using assms
proof (induction "length bytes - pos" arbitrary: budget pos bf rs ds rule: less_induct)
  case less
  show ?case
  proof (cases "pos < length bytes")
    case False
    with less.prems show ?thesis
      by (subst (asm) resync_loop.simps) (auto simp: loop_tiled_def split: option.splits)
  next
    case True
    from less.prems(1) True show ?thesis
    proof (cases rule: resync_loop_cases)
      case (rec r stop budget1 rs' ds')
      note snd = record_at_sound [OF rec(1)] record_at_advance [OF rec(1)]
      have shorter: "length bytes - stop < length bytes - pos"
        using snd by linarith
      have ih: "loop_tiled base bytes stop None rs' ds' bf' \<and>
          (\<forall>r \<in> set rs'. found_at crc bytes base r)"
        using less.hyps [OF shorter rec(2)] snd by simp
      have "loop_tiled base bytes pos None rs ds' bf'"
        using loop_tiled_rec [of base bytes pos r rs' ds' bf'] ih snd rec by simp
      then have "loop_tiled base bytes pos bf rs ds bf'"
        using less.prems(3) rec loop_tiled_dmg [of base bytes pos rs ds' bf']
        by (cases bf) (auto simp: close_range_def)
      with ih snd rec show ?thesis
        by (auto simp: found_at_def)
    next
      case (jump budget1 budget2 ds')
      have ih: "loop_tiled base bytes (declared_end bytes pos) None rs ds' bf' \<and>
          (\<forall>r \<in> set rs. found_at crc bytes base r)"
        using less.hyps [OF _ jump(5)] jump True by simp
      then have "loop_tiled base bytes pos (Some pos) rs ds bf'"
        using jump loop_tiled_dmg [of base bytes "declared_end bytes pos" rs ds' bf' pos pos] by simp
      with ih jump show ?thesis
        by (simp add: loop_tiled_def)
    next
      case (skip budget1 budget2 budget3 pos')
      have "loop_tiled base bytes pos' (Some (case bf of None \<Rightarrow> pos | Some f \<Rightarrow> f)) rs ds bf' \<and>
          (\<forall>r \<in> set rs. found_at crc bytes base r)"
        using less.hyps [OF _ skip(5)] skip True less.prems(3) by (auto split: option.splits)
      then show ?thesis
        by (auto simp: loop_tiled_def split: option.splits)
    qed
  qed
qed

lemma shuffles_append_left: "zs \<in> shuffles xs ys \<Longrightarrow> ws @ zs \<in> shuffles (ws @ xs) ys"
  by (induction ws) (simp_all add: Cons_in_shuffles_leftI)

lemma append_in_shuffles: "xs @ ys \<in> shuffles xs ys"
  by (induction xs) (simp_all add: Cons_in_shuffles_leftI)

lemma shuffles_snoc: "zs \<in> shuffles xs ys \<Longrightarrow> zs @ [y] \<in> shuffles xs (ys @ [y])"
  by (induction xs ys arbitrary: zs rule: shuffles.induct)
    (auto simp: Cons_in_shuffles_leftI Cons_in_shuffles_rightI append_in_shuffles)

lemma resync_bytes_tiled:
  assumes "resync_bytes crc bytes base = (rs, ds)"
  shows "(\<exists>iv \<in> shuffles (map rec_span rs) (map dmg_span ds). tiles base iv (base + length bytes)) \<and>
    (\<forall>r \<in> set rs. found_at crc bytes base r)"
proof -
  obtain rs0 ds0 bf where loop:
    "resync_loop crc bytes base (length bytes * 4 + 2 ^ 20) 0 None = (rs0, ds0, bf)"
    by (cases "resync_loop crc bytes base (length bytes * 4 + 2 ^ 20) 0 None")
  from resync_loop_tiled [OF loop] obtain iv where
    iv: "iv \<in> shuffles (map rec_span rs0) (map dmg_span ds0)"
      "tiles base iv (base + (case bf of None \<Rightarrow> length bytes | Some f \<Rightarrow> f))"
      "case bf of None \<Rightarrow> True | Some f \<Rightarrow> f < length bytes"
    and found: "\<forall>r \<in> set rs0. found_at crc bytes base r"
    by (auto simp: loop_tiled_def)
  have rs: "rs = rs0"
    using assms loop by (simp add: resync_bytes_def Let_def split: option.splits)
  show ?thesis
  proof (cases bf)
    case None
    with assms loop iv found rs show ?thesis
      by (auto simp: resync_bytes_def)
  next
    case (Some f)
    with assms loop obtain t where ds: "ds = ds0 @ [\<lparr>d_offset = base + f, d_len = length bytes - f, d_torn_tail = t\<rparr>]"
      by (auto simp: resync_bytes_def Let_def)
    have "iv @ [(base + f, length bytes - f)] \<in> shuffles (map rec_span rs0) (map dmg_span ds0 @ [(base + f, length bytes - f)])"
      by (rule shuffles_snoc) (rule iv)
    moreover have "tiles base (iv @ [(base + f, length bytes - f)]) (base + length bytes)"
      using iv Some by (simp add: tiles_snoc)
    ultimately show ?thesis
      using ds rs found by (auto simp: dmg_span_def)
  qed
qed

lemma tiles_append: "tiles a xs b \<Longrightarrow> tiles b ys c \<Longrightarrow> tiles a (xs @ ys) c"
  by (induction xs arbitrary: a) auto

lemma place_ConsD:
  "place off (r # rs) = r # rs \<Longrightarrow> r_offset r = off \<and> place (off + encoded_len r) rs = rs"
  by (metis Record.select_convs(5) Record.surjective Record.update_convs(5) list.inject place.simps(2))

lemma tiles_place: "place off rs = rs \<Longrightarrow> tiles off (map rec_span rs) (off + length (encode_records crc rs))"
proof (induction rs arbitrary: off)
  case (Cons r rs)
  have "r_offset r = off" "place (off + encoded_len r) rs = rs"
    using place_ConsD [OF Cons.prems] by simp_all
  moreover have "0 < encoded_len r"
    by (simp add: encoded_len_def RECORD_HEADER_LEN_def)
  ultimately show ?case
    using Cons.IH [of "off + encoded_len r"] \<open>place (off + encoded_len r) rs = rs\<close>
    by (simp add: rec_span_def add.assoc)
qed simp

lemma placed_slices:
  assumes "slice off v file = encode_records crc rs" and "place off rs = rs" and "v \<le> length file"
  shows "\<forall>r \<in> set rs. slice (r_offset r) (r_offset r + encoded_len r) file = encode_record crc r"
  using assms
proof (induction rs arbitrary: off)
  case (Cons r rs)
  have off: "r_offset r = off" and rest: "place (off + encoded_len r) rs = rs"
    using place_ConsD [OF Cons.prems(2)] by simp_all
  have len: "off + encoded_len r + length (encode_records crc rs) = v"
    using arg_cong [OF Cons.prems(1), of length] Cons.prems(3)
    by (simp add: slice_length encoded_len_def RECORD_HEADER_LEN_def)
  have "slice off v file = slice off (off + encoded_len r) file @ slice (off + encoded_len r) v file"
    using len by (intro slice_split) auto
  moreover have "length (slice off (off + encoded_len r) file) = length (encode_record crc r)"
    using len Cons.prems(3) by (simp add: slice_length)
  ultimately have "slice off (off + encoded_len r) file = encode_record crc r"
    "slice (off + encoded_len r) v file = encode_records crc rs"
    using Cons.prems(1) by simp_all
  with Cons.IH [OF _ rest Cons.prems(3)] off show ?case
    by simp
qed simp

section \<open>One damaged record\<close>

text \<open>A record stored with a checksum \<open>st\<close> that may be wrong.\<close>

lemma stored_head:
  fixes st r suf pre
  defines "bytes \<equiv> pre @ encode_record (\<lambda>_. st) r @ suf"
  defines "h \<equiv> slice (length pre) (length pre + RECORD_HEADER_LEN) bytes"
  assumes "valid_record r"
  shows "unat (u32_le (slice 0 4 h)) = length (r_payload r)" and "u32_le (slice 4 8 h) = st"
    and "h ! 8 = r_type r" and "h ! 9 = r_codec r" and "u16_le (slice 10 12 h) = r_flags r"
    and "slice (length pre + 8) (length pre + encoded_len r) bytes = record_body r"
    and "slice (length pre + RECORD_HEADER_LEN) (length pre + encoded_len r) bytes = r_payload r"
    and "length pre + encoded_len r \<le> length bytes"
    and "unat (u32_le (slice (length pre) (length pre + 4) bytes)) = length (r_payload r)"
proof -
  have h: "h = take RECORD_HEADER_LEN (encode_record (\<lambda>_. st) r @ suf)"
    by (simp add: h_def bytes_def slice_def)
  note head = encode_record_head [of "\<lambda>_. st" r suf, folded h]
  have n: "unat (of_nat (length (r_payload r)) :: u32) = length (r_payload r)"
    using assms by (intro unat_payload_len) (simp add: valid_record_def)
  show "unat (u32_le (slice 0 4 h)) = length (r_payload r)" "u32_le (slice 4 8 h) = st"
    "h ! 8 = r_type r" "h ! 9 = r_codec r" "u16_le (slice 10 12 h) = r_flags r"
    using head n by (simp_all add: le_simps)
  show "slice (length pre + 8) (length pre + encoded_len r) bytes = record_body r"
    "slice (length pre + RECORD_HEADER_LEN) (length pre + encoded_len r) bytes = r_payload r"
    "length pre + encoded_len r \<le> length bytes"
    by (simp_all add: bytes_def slice_def encode_record_def encoded_len_def RECORD_HEADER_LEN_def
        record_body_def del: take_append) (simp_all add: numeral_eq_Suc)
  have "slice (length pre) (length pre + 4) bytes = u32_to_le (of_nat (length (r_payload r)))"
    by (simp add: bytes_def slice_def encode_record_def)
  then show "unat (u32_le (slice (length pre) (length pre + 4) bytes)) = length (r_payload r)"
    using n by (simp add: le_simps)
qed

lemma scan_one_stored:
  assumes "st \<noteq> crc (record_body r)" and "valid_record r"
  shows "scan_one crc no_fault (pre @ encode_record (\<lambda>_. st) r @ suf) (length pre) = StepBad"
proof -
  let ?n = "length (r_payload r)"
  let ?head = "take RECORD_HEADER_LEN (encode_record (\<lambda>_. st) r @ suf)"
  note head = encode_record_head [of "\<lambda>_. st" r suf]
  have h: "read_fully no_fault (pre @ encode_record (\<lambda>_. st) r @ suf) (length pre) RECORD_HEADER_LEN = ReadOk ?head"
    by (simp add: read_fully_suffix0 encoded_len_def RECORD_HEADER_LEN_def)
  have b: "read_fully no_fault (pre @ encode_record (\<lambda>_. st) r @ suf) (length pre + RECORD_HEADER_LEN) ?n =
      ReadOk (r_payload r)"
    using head(8) by (simp add: read_fully_suffix encoded_len_def RECORD_HEADER_LEN_def)
  have pl: "unat (u32_le (slice 0 4 ?head)) = ?n"
    using head(1) unat_payload_len [of r] assms(2) by (simp add: le_simps valid_record_def)
  show ?thesis
    unfolding scan_one_def h
    using assms(1) pl b head by (simp add: Let_def le_simps record_body_def)
qed

lemma record_at_stored:
  assumes "resync_record r" and "4 + length (r_payload r) \<le> budget"
  shows "record_at crc (pre @ encode_record (\<lambda>_. st) r @ suf) (length pre) base budget =
    (if crc (record_body r) \<noteq> st then (None, budget - (4 + length (r_payload r)))
     else (Some (r\<lparr>r_offset := base + length pre\<rparr>, length pre + encoded_len r), budget))"
proof -
  let ?b = "pre @ encode_record (\<lambda>_. st) r @ suf"
  have valid: "valid_record r" and kind: "r_flags r = 0" "r_codec r = CodecId_Json"
    "r_type r = record_type_EVENT \<or> r_type r = record_type_CHECKPOINT"
    using assms(1) by (simp_all add: resync_record_def)
  note head = stored_head [OF valid, of pre st suf]
  have len: "length pre + RECORD_HEADER_LEN + length (r_payload r) = length pre + encoded_len r"
    "length pre + RECORD_HEADER_LEN \<le> length ?b"
    by (simp_all add: encoded_len_def)
  show ?thesis
    unfolding record_at_def Let_def head(1-5) len(1) head(6,7)
    using head(8) len(2) assms(2) valid kind by (simp add: valid_record_def)
qed

lemma stored_header:
  assumes "resync_record r"
  shows "plausible_header (pre @ encode_record (\<lambda>_. st) r @ suf) (length pre)"
    and "declared_end (pre @ encode_record (\<lambda>_. st) r @ suf) (length pre) = length pre + encoded_len r"
proof -
  have valid: "valid_record r"
    using assms by (simp add: resync_record_def)
  note head = stored_head [OF valid, of pre st suf]
  show "plausible_header (pre @ encode_record (\<lambda>_. st) r @ suf) (length pre)"
    unfolding plausible_header_def Let_def head(1-5)
    using assms by (auto simp: resync_record_def valid_record_def encoded_len_def)
  show "declared_end (pre @ encode_record (\<lambda>_. st) r @ suf) (length pre) = length pre + encoded_len r"
    using head(9) by (simp add: declared_end_def encoded_len_def)
qed

lemma encode_record_stored: "encode_record crc r = encode_record (\<lambda>_. crc (record_body r)) r"
  by (simp add: encode_record_def)

lemma record_at_encoded:
  assumes "resync_record r" and "4 + length (r_payload r) \<le> budget"
  shows "record_at crc (pre @ encode_record crc r @ suf) (length pre) base budget =
    (Some (r\<lparr>r_offset := base + length pre\<rparr>, length pre + encoded_len r), budget)"
  using record_at_stored [OF assms, of crc pre "crc (record_body r)" suf base]
  by (simp flip: encode_record_stored)

lemma resync_loop_encoded:
  assumes "\<forall>r \<in> set ss. resync_record r" and "length (encode_records crc ss) \<le> budget"
  shows "resync_loop crc (pre @ encode_records crc ss) base budget (length pre) None =
    (place (base + length pre) ss, [], None)"
  using assms
proof (induction ss arbitrary: pre)
  case Nil
  then show ?case
    by (subst resync_loop.simps) simp
next
  case (Cons r ss)
  have one: "record_at crc (pre @ encode_record crc r @ encode_records crc ss) (length pre) base budget =
      (Some (r\<lparr>r_offset := base + length pre\<rparr>, length pre + encoded_len r), budget)"
    using Cons.prems by (intro record_at_encoded) (auto simp: encoded_len_def RECORD_HEADER_LEN_def)
  have "resync_loop crc ((pre @ encode_record crc r) @ encode_records crc ss) base budget
      (length (pre @ encode_record crc r)) None =
      (place (base + length (pre @ encode_record crc r)) ss, [], None)"
    using Cons.prems by (intro Cons.IH) auto
  then show ?case
    using one by (subst resync_loop.simps) (simp add: close_range_def add.assoc encoded_len_def RECORD_HEADER_LEN_def)
qed

lemma resync_bytes_stored:
  assumes "resync_record d" and "st \<noteq> crc (record_body d)"
    and "ss \<noteq> []" and "\<forall>r \<in> set ss. resync_record r"
  shows "resync_bytes crc (encode_record (\<lambda>_. st) d @ encode_records crc ss) base =
    (place (base + encoded_len d) ss,
     [\<lparr>d_offset = base, d_len = encoded_len d, d_torn_tail = False\<rparr>])"
proof -
  define bytes where "bytes = encode_record (\<lambda>_. st) d @ encode_records crc ss"
  define budget where "budget = length bytes * 4 + 2 ^ 20"
  define left where "left = budget - (4 + length (r_payload d))"
  have len: "length bytes = encoded_len d + length (encode_records crc ss)" "bytes \<noteq> []"
    by (simp_all add: bytes_def)
  then have left: "length (encode_records crc ss) \<le> left" "4 + length (r_payload d) \<le> budget"
    by (auto simp: left_def budget_def encoded_len_def RECORD_HEADER_LEN_def)
  have at0: "record_at crc bytes 0 base budget = (None, left)"
    using record_at_stored [OF assms(1) left(2), of crc "[]" st "encode_records crc ss" base] assms(2)
    by (simp add: bytes_def left_def)
  obtain s ss' where ss: "ss = s # ss'"
    using assms(3) by (cases ss) auto
  have "record_at crc (encode_record (\<lambda>_. st) d @ encode_record crc s @ encode_records crc ss')
      (length (encode_record (\<lambda>_. st) d)) base left =
      (Some (s\<lparr>r_offset := base + length (encode_record (\<lambda>_. st) d)\<rparr>,
        length (encode_record (\<lambda>_. st) d) + encoded_len s), left)"
    using assms(4) left(1) ss
    by (intro record_at_encoded) (auto simp: encoded_len_def RECORD_HEADER_LEN_def)
  then have at1: "\<exists>x. record_at crc bytes (encoded_len d) base left = (Some x, left)"
    by (simp add: bytes_def ss)
  have head: "plausible_header bytes 0" "declared_end bytes 0 = encoded_len d"
    using stored_header [OF assms(1), of "[]" st "encode_records crc ss"] by (simp_all add: bytes_def)
  have "resync_loop crc bytes base left (encoded_len d) None = (place (base + encoded_len d) ss, [], None)"
    using resync_loop_encoded [OF assms(4) left(1), of "encode_record (\<lambda>_. st) d" base]
    by (simp add: bytes_def)
  then have "resync_loop crc bytes base budget 0 None =
      (place (base + encoded_len d) ss, close_range base (Some 0) (encoded_len d), None)"
    using at0 at1 head len by (subst resync_loop.simps) auto
  then show ?thesis
    by (simp add: resync_bytes_def budget_def bytes_def [symmetric] close_range_def)
qed

lemma place_last_ge: "ss \<noteq> [] \<Longrightarrow> off \<le> r_offset (last (place off ss))"
proof (induction ss arbitrary: off)
  case (Cons s ss)
  have "ss \<noteq> [] \<Longrightarrow> off \<le> r_offset (last (place (off + encoded_len s) ss))"
    using Cons.IH [of "off + encoded_len s"] by linarith
  then show ?case
    by simp
qed simp

section \<open>Theorems\<close>

text \<open>
  C14: on arbitrary bytes, the records a resynchronising scan returns and the damaged ranges it
  reports, taken together in the order of their offsets, tile the file from the end of its header
  to its last byte without gap or overlap; and the bytes at each returned record's offset are the
  encoding of that record.
\<close>

theorem scan_resync_tiles:
  assumes "scan_resync crc flt file magic = Ok s"
  shows "(\<exists>iv \<in> shuffles (map rec_span (rs_records s)) (map dmg_span (rs_damaged s)).
      tiles FILE_HEADER_LEN iv (length file)) \<and>
    (\<forall>r \<in> set (rs_records s).
      slice (r_offset r) (r_offset r + encoded_len r) file = encode_record crc r)"
proof -
  obtain sc where sc: "scan crc flt file magic = Ok sc"
    using assms by (auto simp: scan_resync_def split: sum.splits)
  note sound = scan_ok_sound [OF sc]
  define v where "v = sc_valid_len sc"
  have "length (slice FILE_HEADER_LEN v file) = length (encode_records crc (sc_records sc))"
    using sound by (simp add: v_def)
  moreover have "FILE_HEADER_LEN \<le> v" "v \<le> length file"
    using sound by (simp_all add: v_def)
  ultimately have v: "v = FILE_HEADER_LEN + length (encode_records crc (sc_records sc))"
    by (simp add: slice_length)
  have tl: "tiles FILE_HEADER_LEN (map rec_span (sc_records sc)) v"
    using tiles_place [of FILE_HEADER_LEN "sc_records sc" crc] sound v by simp
  have plain: "\<forall>r \<in> set (sc_records sc). slice (r_offset r) (r_offset r + encoded_len r) file = encode_record crc r"
    using placed_slices sound by blast
  show ?thesis
  proof (cases "sc_truncated_at sc")
    case None
    with assms sc sound tl plain show ?thesis
      by (auto simp: scan_resync_def v_def)
  next
    case (Some at)
    then have at: "at = v" "v \<le> length file"
      using sound by (auto simp: v_def)
    obtain more damaged where more: "resync_bytes crc (drop v file) v = (more, damaged)"
      by (cases "resync_bytes crc (drop v file) v")
    then have s: "rs_records s = sc_records sc @ more" "rs_damaged s = damaged"
      using assms sc Some at by (auto simp: scan_resync_def)
    from resync_bytes_tiled [OF more] at obtain iv where
      iv: "iv \<in> shuffles (map rec_span more) (map dmg_span damaged)" "tiles v iv (length file)"
      and found: "\<forall>r \<in> set more. found_at crc (drop v file) v r"
      by auto
    have "\<forall>r \<in> set more. slice (r_offset r) (r_offset r + encoded_len r) file = encode_record crc r"
      using found by (auto simp: found_at_def slice_def)
    with plain s iv tl shuffles_append_left [OF iv(1), of "map rec_span (sc_records sc)"] show ?thesis
      by (auto intro!: bexI [of _ "map rec_span (sc_records sc) @ iv"] intro: tiles_append)
  qed
qed

theorem scan_resync_tiles_witness:
  "\<exists>s. scan_resync (\<lambda>_. 5) (\<lambda>_. False) (FileHeader_encode sample_header @ [1, 2, 3]) MAGIC_WAL = Ok s \<and>
    (\<exists>iv \<in> shuffles (map rec_span (rs_records s)) (map dmg_span (rs_damaged s)). tiles 32 iv 35)"
proof -
  obtain sc where "scan (\<lambda>_. 5) (\<lambda>_. False) (FileHeader_encode sample_header @ [1, 2, 3]) MAGIC_WAL = Ok sc"
    using scan_from_header [of MAGIC_WAL sample_header no_fault "\<lambda>_. 5" "[1, 2, 3]" FILE_HEADER_LEN]
    by (auto simp: scan_def split: prod.splits)
  then obtain s where s: "scan_resync (\<lambda>_. 5) (\<lambda>_. False) (FileHeader_encode sample_header @ [1, 2, 3]) MAGIC_WAL = Ok s"
    by (cases "sc_truncated_at sc")
      (auto simp: scan_resync_def case_prod_beta simp del: drop_append)
  show ?thesis
    using scan_resync_tiles [OF s] s by (auto simp: FILE_HEADER_LEN_def)
qed

text \<open>
  In a file whose only damage is one record with a wrong checksum (its payload or its stored
  checksum changed, its length and type fields intact) and at least one intact record after it, a
  resynchronising scan returns every other record, in order, and reports exactly the bytes of the
  damaged record as damage in the middle of the file.
\<close>

theorem scan_resync_one_damaged:
  assumes "header_ok magic h" and "\<forall>r \<in> set rs. valid_record r"
    and "resync_record d" and "stored \<noteq> crc (record_body d)"
    and "ss \<noteq> []" and "\<forall>r \<in> set ss. resync_record r"
    and "pre = FileHeader_encode h @ encode_records crc rs"
    and "bad = u32_to_le (of_nat (length (r_payload d))) @ u32_to_le stored @ record_body d"
  shows "\<exists>s. scan_resync crc (\<lambda>_. False) (pre @ bad @ encode_records crc ss) magic = Ok s \<and>
    rs_records s = place FILE_HEADER_LEN rs @ place (length pre + length bad) ss \<and>
    rs_damaged s = [\<lparr>d_offset = length pre, d_len = length bad, d_torn_tail = False\<rparr>] \<and>
    mid_file_damage s = rs_damaged s"
proof -
  let ?bytes = "bad @ encode_records crc ss"
  have bad: "bad = encode_record (\<lambda>_. stored) d" "length bad = encoded_len d"
    using assms(8) by (simp_all add: encode_record_def encoded_len_def RECORD_HEADER_LEN_def)
  have valid: "valid_record d"
    using assms(3) by (simp add: resync_record_def)
  have "scan_one crc no_fault (pre @ encode_record (\<lambda>_. stored) d @ encode_records crc ss) (length pre) = StepBad"
    using assms(4) valid by (intro scan_one_stored)
  then have "scan_loop crc no_fault (pre @ ?bytes) (length pre) = ([], length pre, Some (length pre))"
    by (subst scan_loop.simps) (simp add: bad)
  then have "scan_loop crc no_fault (pre @ ?bytes) FILE_HEADER_LEN =
      (place FILE_HEADER_LEN rs, length pre, Some (length pre))"
    using scan_loop_encoded [OF assms(2), of "FileHeader_encode h" crc no_fault ?bytes] assms(1,7)
    by simp
  then have sc: "scan crc no_fault (pre @ ?bytes) magic =
      Ok \<lparr>sc_header = h, sc_records = place FILE_HEADER_LEN rs, sc_valid_len = length pre,
          sc_truncated_at = Some (length pre), sc_total_len = length pre + length ?bytes\<rparr>"
    using scan_from_header [OF assms(1), of no_fault crc "encode_records crc rs @ ?bytes" FILE_HEADER_LEN]
      assms(1,7) by (simp add: scan_def)
  have "resync_bytes crc ?bytes (length pre) =
      (place (length pre + length bad) ss,
       [\<lparr>d_offset = length pre, d_len = length bad, d_torn_tail = False\<rparr>])"
    using resync_bytes_stored [of d stored crc ss "length pre"] assms(3-6) bad by simp
  then show ?thesis
    using sc assms(5) bad place_last_ge [of ss "length pre + length bad"]
    by (simp add: scan_resync_def mid_file_damage_def Let_def RECORD_HEADER_LEN_def)
qed

theorem scan_resync_one_damaged_witness:
  "\<exists>s. scan_resync (\<lambda>_. 5) (\<lambda>_. False)
      ((FileHeader_encode sample_header @ encode_records (\<lambda>_. 5) [sample_record 1]) @
       (u32_to_le (of_nat (length (r_payload (sample_record 2)))) @ u32_to_le 6 @ record_body (sample_record 2)) @
       encode_records (\<lambda>_. 5) [sample_record 3]) MAGIC_WAL = Ok s \<and>
    rs_records s = [(sample_record 1)\<lparr>r_offset := 32\<rparr>, (sample_record 3)\<lparr>r_offset := 60\<rparr>] \<and>
    rs_damaged s = [\<lparr>d_offset = 46, d_len = 14, d_torn_tail = False\<rparr>]"
proof -
  have sync: "resync_record (sample_record b)" for b
    by (simp add: resync_record_def sample_record_def Record_checkpoint_def valid_record_def
        MAX_RECORD_PAYLOAD_def)
  have len: "length (r_payload (sample_record 2)) = 2"
    by (simp add: sample_record_def Record_checkpoint_def)
  show ?thesis
    using scan_resync_one_damaged [OF sample_ok(1), of "[sample_record 1]" "sample_record 2" 6 "\<lambda>_. 5"
        "[sample_record 3]", OF _ sync _ _ _ refl refl] sync len
    by (auto simp: FILE_HEADER_LEN_def)
qed

end
