(* ===== verification/Str.thy ===== *)
theory Str
  imports Prelude
begin

text \<open>
  The part of Rust's \<open>str\<close> API that the sources use, on UTF-8 bytes: trimming, splitting,
  prefixes and suffixes, substring search, ASCII case, and the decimal text of \<open>u64\<close> numbers
  (\<open>format!("{n:06}")\<close> and \<open>str::parse::<u64>\<close>). These are definitions of the language's
  standard library, not of the program.
\<close>

section \<open>Characters\<close>

definition code :: "char \<Rightarrow> nat" where
  "code c = of_char c"

definition is_ascii_digit :: "char \<Rightarrow> bool" where
  "is_ascii_digit c \<longleftrightarrow> 48 \<le> code c \<and> code c \<le> 57"

definition is_ascii_lowercase :: "char \<Rightarrow> bool" where
  "is_ascii_lowercase c \<longleftrightarrow> 97 \<le> code c \<and> code c \<le> 122"

definition is_ascii_uppercase :: "char \<Rightarrow> bool" where
  "is_ascii_uppercase c \<longleftrightarrow> 65 \<le> code c \<and> code c \<le> 90"

definition is_ascii_alphabetic :: "char \<Rightarrow> bool" where
  "is_ascii_alphabetic c \<longleftrightarrow> is_ascii_lowercase c \<or> is_ascii_uppercase c"

definition is_ascii_alphanumeric :: "char \<Rightarrow> bool" where
  "is_ascii_alphanumeric c \<longleftrightarrow> is_ascii_alphabetic c \<or> is_ascii_digit c"

definition ascii_lower :: "char \<Rightarrow> char" where
  "ascii_lower c = (if is_ascii_uppercase c then char_of (code c + 32) else c)"

definition ascii_upper :: "char \<Rightarrow> char" where
  "ascii_upper c = (if is_ascii_lowercase c then char_of (code c - 32) else c)"

definition to_ascii_lowercase :: "string \<Rightarrow> string" where
  "to_ascii_lowercase s = map ascii_lower s"

definition eq_ignore_ascii_case :: "string \<Rightarrow> string \<Rightarrow> bool" where
  "eq_ignore_ascii_case s t \<longleftrightarrow> to_ascii_lowercase s = to_ascii_lowercase t"

section \<open>Prefixes, suffixes, substrings\<close>

fun strip_prefix :: "'a list \<Rightarrow> 'a list \<Rightarrow> 'a list option" where
  "strip_prefix [] s = Some s"
| "strip_prefix (p # ps) [] = None"
| "strip_prefix (p # ps) (c # cs) = (if p = c then strip_prefix ps cs else None)"

definition starts_with :: "'a list \<Rightarrow> 'a list \<Rightarrow> bool" where
  "starts_with p s \<longleftrightarrow> strip_prefix p s \<noteq> None"

definition strip_suffix :: "'a list \<Rightarrow> 'a list \<Rightarrow> 'a list option" where
  "strip_suffix p s = map_option rev (strip_prefix (rev p) (rev s))"

definition ends_with :: "'a list \<Rightarrow> 'a list \<Rightarrow> bool" where
  "ends_with p s \<longleftrightarrow> strip_suffix p s \<noteq> None"

text \<open>\<open>split_once\<close> with a string pattern: the parts before and after its first occurrence.\<close>

fun split_once :: "'a list \<Rightarrow> 'a list \<Rightarrow> ('a list \<times> 'a list) option" where
  "split_once p [] = (if p = [] then Some ([], []) else None)"
| "split_once p (c # cs) =
     (case strip_prefix p (c # cs) of
        Some rest \<Rightarrow> Some ([], rest)
      | None \<Rightarrow> map_option (\<lambda>(a, b). (c # a, b)) (split_once p cs))"

definition rsplit_once :: "'a list \<Rightarrow> 'a list \<Rightarrow> ('a list \<times> 'a list) option" where
  "rsplit_once p s = map_option (\<lambda>(a, b). (rev b, rev a)) (split_once (rev p) (rev s))"

definition contains :: "'a list \<Rightarrow> 'a list \<Rightarrow> bool" where
  "contains p s \<longleftrightarrow> split_once p s \<noteq> None"

text \<open>\<open>split(pred)\<close>: the pieces between separator characters.\<close>

fun split_by :: "('a \<Rightarrow> bool) \<Rightarrow> 'a list \<Rightarrow> 'a list list" where
  "split_by P [] = [[]]"
| "split_by P (c # cs) =
     (if P c then [] # split_by P cs
      else case split_by P cs of [] \<Rightarrow> [[c]] | w # ws \<Rightarrow> (c # w) # ws)"

abbreviation split_char :: "'a \<Rightarrow> 'a list \<Rightarrow> 'a list list" where
  "split_char c \<equiv> split_by (\<lambda>x. x = c)"

fun join :: "'a list \<Rightarrow> 'a list list \<Rightarrow> 'a list" where
  "join sep [] = []"
| "join sep [w] = w"
| "join sep (w # v # ws) = w @ sep @ join sep (v # ws)"

definition trim_end_matches :: "'a \<Rightarrow> 'a list \<Rightarrow> 'a list" where
  "trim_end_matches c s = rev (dropWhile (\<lambda>x. x = c) (rev s))"

definition replace_char :: "'a \<Rightarrow> 'a \<Rightarrow> 'a list \<Rightarrow> 'a list" where
  "replace_char a b s = map (\<lambda>x. if x = a then b else x) s"

text \<open>\<open>replace\<close> with a non-empty string pattern.\<close>

fun replace_str_fuel :: "nat \<Rightarrow> 'a list \<Rightarrow> 'a list \<Rightarrow> 'a list \<Rightarrow> 'a list" where
  "replace_str_fuel 0 p t s = s"
| "replace_str_fuel (Suc n) p t [] = []"
| "replace_str_fuel (Suc n) p t (c # cs) =
     (case strip_prefix p (c # cs) of
        Some rest \<Rightarrow> t @ replace_str_fuel n p t rest
      | None \<Rightarrow> c # replace_str_fuel n p t cs)"

definition replace_str :: "'a list \<Rightarrow> 'a list \<Rightarrow> 'a list \<Rightarrow> 'a list" where
  "replace_str p t s = replace_str_fuel (length s) p t s"

section \<open>Trimming Unicode white space\<close>

text \<open>The UTF-8 encodings of the characters with the White_Space property.\<close>

definition whitespace :: "string list" where
  "whitespace =
     map (\<lambda>n. [char_of n]) [9, 10, 11, 12, 13, 32 :: nat] @
     map (map char_of) [[0xC2, 0x85], [0xC2, 0xA0], [0xE1, 0x9A, 0x80 :: nat]] @
     map (\<lambda>n. map char_of [0xE2, 0x80, n]) [0x80 ..< 0x8B] @
     map (map char_of) [[0xE2, 0x80, 0xA8], [0xE2, 0x80, 0xA9], [0xE2, 0x80, 0xAF],
                        [0xE2, 0x81, 0x9F], [0xE3, 0x80, 0x80 :: nat]]"

fun first_stripped :: "string list \<Rightarrow> string \<Rightarrow> string option" where
  "first_stripped [] s = None"
| "first_stripped (w # ws) s =
     (case strip_prefix w s of Some r \<Rightarrow> Some r | None \<Rightarrow> first_stripped ws s)"

fun trim_fuel :: "string list \<Rightarrow> nat \<Rightarrow> string \<Rightarrow> string" where
  "trim_fuel ws 0 s = s"
| "trim_fuel ws (Suc n) s = (case first_stripped ws s of Some r \<Rightarrow> trim_fuel ws n r | None \<Rightarrow> s)"

definition trim_start :: "string \<Rightarrow> string" where
  "trim_start s = trim_fuel whitespace (length s) s"

definition trim_end :: "string \<Rightarrow> string" where
  "trim_end s = rev (trim_fuel (map rev whitespace) (length s) (rev s))"

definition trim :: "string \<Rightarrow> string" where
  "trim s = trim_end (trim_start s)"

section \<open>Decimal numbers\<close>

definition digit_char :: "nat \<Rightarrow> char" where
  "digit_char d = char_of (48 + d)"

function decimal :: "nat \<Rightarrow> string" where
  "decimal n = (if n < 10 then [digit_char n] else decimal (n div 10) @ [digit_char (n mod 10)])"
  by pat_completeness auto
termination by (relation "measure id") auto

declare decimal.simps [simp del]

text \<open>\<open>format!("{n:06}")\<close>.\<close>

definition pad6 :: "nat \<Rightarrow> string" where
  "pad6 n = replicate (6 - length (decimal n)) CHR ''0'' @ decimal n"

text \<open>
  \<open>str::parse::<u64>\<close>: an optional plus sign, then at least one decimal digit, with the value
  below \<open>2 ^ 64\<close>.
\<close>

fun parse_digits :: "nat \<Rightarrow> string \<Rightarrow> nat option" where
  "parse_digits acc [] = Some acc"
| "parse_digits acc (c # cs) =
     (if is_ascii_digit c then
        (let acc' = acc * 10 + (code c - 48) in if acc' < 2 ^ 64 then parse_digits acc' cs else None)
      else None)"

definition parse_u64 :: "string \<Rightarrow> nat option" where
  "parse_u64 s =
     (let s' = (case s of c # cs \<Rightarrow> if c = CHR ''+'' then cs else s | [] \<Rightarrow> [])
      in if s' = [] then None else parse_digits 0 s')"

section \<open>Lemmas\<close>

lemma strip_prefix_Some: "strip_prefix p s = Some r \<longleftrightarrow> s = p @ r"
  by (induction p s rule: strip_prefix.induct) auto

lemma strip_prefix_append [simp]: "strip_prefix p (p @ r) = Some r"
  by (simp add: strip_prefix_Some)

lemma strip_suffix_Some: "strip_suffix p s = Some r \<longleftrightarrow> s = r @ p"
proof -
  have "strip_suffix p s = Some r \<longleftrightarrow> strip_prefix (rev p) (rev s) = Some (rev r)"
    by (auto simp: strip_suffix_def)
  also have "\<dots> \<longleftrightarrow> s = r @ p"
    by (simp add: strip_prefix_Some flip: rev_append)
  finally show ?thesis .
qed

lemma strip_suffix_append [simp]: "strip_suffix p (r @ p) = Some r"
  by (simp add: strip_suffix_Some)

lemma code_digit_char [simp]: "d < 10 \<Longrightarrow> code (digit_char d) = 48 + d"
  by (simp add: code_def digit_char_def)

lemma is_ascii_digit_char [simp]: "d < 10 \<Longrightarrow> is_ascii_digit (digit_char d)"
  by (simp add: is_ascii_digit_def)

lemma parse_digits_append:
  "parse_digits acc (s @ t) = (case parse_digits acc s of None \<Rightarrow> None | Some a \<Rightarrow> parse_digits a t)"
  by (induction acc s rule: parse_digits.induct) (simp_all add: Let_def)

lemma decimal_not_Nil [simp]: "decimal n \<noteq> []"
  by (subst decimal.simps) simp

lemma parse_decimal: "n < 2 ^ 64 \<Longrightarrow> parse_digits 0 (decimal n) = Some n"
proof (induction n rule: decimal.induct)
  case (1 n)
  show ?case
  proof (cases "n < 10")
    case True
    then show ?thesis by (subst decimal.simps) (simp add: Let_def)
  next
    case False
    have "n div 10 < 2 ^ 64"
      using "1.prems" by linarith
    then have "parse_digits 0 (decimal (n div 10)) = Some (n div 10)"
      using "1.IH" False by simp
    then show ?thesis
      using False "1.prems" by (subst decimal.simps) (simp add: parse_digits_append Let_def)
  qed
qed

lemma parse_zeros: "parse_digits 0 (replicate k CHR ''0'' @ s) = parse_digits 0 s"
  by (induction k) (simp_all add: is_ascii_digit_def code_def Let_def)

lemma decimal_digits: "\<forall>c \<in> set (decimal n). is_ascii_digit c"
proof (induction n rule: decimal.induct)
  case (1 n)
  then show ?case by (subst decimal.simps) auto
qed

lemma pad6_digits: "\<forall>c \<in> set (pad6 n). is_ascii_digit c"
  using decimal_digits [of n] by (auto simp: pad6_def is_ascii_digit_def code_def)

lemma parse_u64_pad6:
  assumes "n < 2 ^ 64"
  shows "parse_u64 (pad6 n) = Some n"
proof -
  obtain c cs where c: "pad6 n = c # cs"
    by (cases "pad6 n") (auto simp: pad6_def)
  then have "c \<noteq> CHR ''+''"
    using pad6_digits [of n] by (auto simp: is_ascii_digit_def code_def)
  then have "parse_u64 (pad6 n) = parse_digits 0 (pad6 n)"
    using c by (simp add: parse_u64_def)
  also have "\<dots> = Some n"
    using parse_decimal [OF assms] by (simp add: pad6_def parse_zeros)
  finally show ?thesis .
qed

lemma pad6_inject: "m < 2 ^ 64 \<Longrightarrow> n < 2 ^ 64 \<Longrightarrow> pad6 m = pad6 n \<longleftrightarrow> m = n"
  by (metis option.inject parse_u64_pad6)

lemma join_split_by: "join [c] (split_char c s) = s"
proof (induction s)
  case (Cons x xs)
  have ne: "split_char c xs \<noteq> []"
    by (cases xs) (auto split: list.splits)
  then obtain w ws where "split_char c xs = w # ws"
    by (cases "split_char c xs") auto
  with Cons show ?case
    by (cases ws) auto
qed simp

section \<open>Trimming is idempotent and commutes with case folding\<close>

lemma first_stripped_None: "first_stripped ws s = None \<longleftrightarrow> (\<forall>w \<in> set ws. strip_prefix w s = None)"
  by (induction ws) (auto split: option.splits)

lemma first_stripped_Some: "first_stripped ws s = Some r \<Longrightarrow> \<exists>w \<in> set ws. s = w @ r"
  by (induction ws) (auto simp: strip_prefix_Some split: option.splits)

lemma trim_fuel_done: "first_stripped ws s = None \<Longrightarrow> trim_fuel ws n s = s"
  by (cases n) auto

lemma trim_fuel_None:
  "[] \<notin> set ws \<Longrightarrow> length s \<le> n \<Longrightarrow> first_stripped ws (trim_fuel ws n s) = None"
proof (induction ws n s rule: trim_fuel.induct)
  case (1 ws s)
  then show ?case
    by (auto simp: first_stripped_None neq_Nil_conv) (metis strip_prefix.simps(2) list.exhaust)
next
  case (2 ws n s)
  show ?case
  proof (cases "first_stripped ws s")
    case (Some r)
    then obtain w where "w \<in> set ws" "s = w @ r"
      by (auto dest: first_stripped_Some)
    then have "0 < length w" "length s = length w + length r"
      using "2.prems"(1) by auto
    then have "length r \<le> n"
      using "2.prems"(2) by linarith
    with Some 2 show ?thesis by simp
  qed simp
qed

lemma trim_fuel_suffix: "\<exists>t. s = t @ trim_fuel ws n s"
proof (induction ws n s rule: trim_fuel.induct)
  case (2 ws n s)
  show ?case
  proof (cases "first_stripped ws s")
    case (Some r)
    then obtain w where "s = w @ r"
      by (auto dest: first_stripped_Some)
    with 2 Some show ?thesis
      by (metis append.assoc option.simps(5) trim_fuel.simps(2))
  qed simp
qed simp

lemma first_stripped_prefix:
  assumes "first_stripped ws (u @ v) = None"
  shows "first_stripped ws u = None"
  unfolding first_stripped_None
proof
  fix w
  assume w: "w \<in> set ws"
  show "strip_prefix w u = None"
  proof (rule ccontr)
    assume "strip_prefix w u \<noteq> None"
    then obtain r where "u = w @ r"
      by (auto simp: strip_prefix_Some)
    then have "strip_prefix w (u @ v) = Some (r @ v)"
      by simp
    with assms w show False
      by (simp add: first_stripped_None)
  qed
qed

lemma whitespace_not_Nil: "[] \<notin> set whitespace" "[] \<notin> set (map rev whitespace)"
  by (auto simp: whitespace_def)

lemma trim_idem: "trim (trim s) = trim s"
proof -
  let ?t = "trim_start s"
  have start: "first_stripped whitespace ?t = None"
    by (simp add: trim_start_def trim_fuel_None whitespace_not_Nil)
  obtain v where v: "?t = trim_end ?t @ v"
    using trim_fuel_suffix [of "rev ?t" "map rev whitespace" "length ?t"]
    by (metis rev_append rev_rev_ident trim_end_def)
  have "first_stripped whitespace (trim_end ?t) = None"
    using start v by (metis first_stripped_prefix)
  moreover have "first_stripped (map rev whitespace) (rev (trim_end ?t)) = None"
    using trim_fuel_None [OF whitespace_not_Nil(2), of "rev ?t" "length ?t"] by (simp add: trim_end_def)
  ultimately show ?thesis
    by (simp add: trim_def trim_start_def trim_end_def trim_fuel_done)
qed

lemma code_char_of: "n < 256 \<Longrightarrow> code (char_of n) = n"
  by (simp add: code_def)

lemma ascii_lower_not_upper: "\<not> is_ascii_uppercase (ascii_lower c)"
  by (auto simp: ascii_lower_def is_ascii_uppercase_def code_char_of)

lemma ascii_lower_idem [simp]: "ascii_lower (ascii_lower c) = ascii_lower c"
  using ascii_lower_not_upper [of c] by (simp add: ascii_lower_def)

lemma ascii_lower_eq: "\<not> is_ascii_alphabetic x \<Longrightarrow> ascii_lower c = x \<longleftrightarrow> c = x"
  by (auto simp: ascii_lower_def is_ascii_alphabetic_def is_ascii_uppercase_def is_ascii_lowercase_def
      code_char_of)

text \<open>A byte map that neither moves a white-space byte nor maps another byte onto one.\<close>

definition keeps_whitespace :: "(char \<Rightarrow> char) \<Rightarrow> bool" where
  "keeps_whitespace g \<longleftrightarrow> (\<forall>w \<in> set whitespace. \<forall>x \<in> set w. \<forall>c. g c = x \<longleftrightarrow> c = x)"

lemma strip_prefix_map:
  assumes "\<forall>x \<in> set w. \<forall>c. g c = x \<longleftrightarrow> c = x"
  shows "strip_prefix w (map g s) = map_option (map g) (strip_prefix w s)"
  using assms
proof (induction w s rule: strip_prefix.induct)
  case (3 p ps c cs)
  have "p = g c \<longleftrightarrow> p = c"
    using "3.prems" by (metis list.set_intros(1))
  with 3 show ?case by simp
qed simp_all

lemma trim_fuel_map:
  assumes "\<forall>w \<in> set ws. \<forall>x \<in> set w. \<forall>c. g c = x \<longleftrightarrow> c = x"
  shows "trim_fuel ws n (map g s) = map g (trim_fuel ws n s)"
proof -
  have "first_stripped ws (map g s) = map_option (map g) (first_stripped ws s)" for s
    using assms
  proof (induction ws)
    case (Cons w ws)
    then show ?case
      by (auto simp: strip_prefix_map split: option.splits)
  qed simp
  then show ?thesis
    by (induction n arbitrary: s) (auto split: option.splits)
qed

lemma trim_map: "keeps_whitespace g \<Longrightarrow> trim (map g s) = map g (trim s)"
  by (simp add: trim_def trim_start_def trim_end_def keeps_whitespace_def trim_fuel_map rev_map)

lemma whitespace_plain:
  "\<forall>w \<in> set whitespace. \<forall>x \<in> set w. \<not> is_ascii_alphabetic x \<and> x \<noteq> CHR ''-'' \<and> x \<noteq> CHR ''_''"
  by code_simp

lemma trim_letters:
  assumes "s \<noteq> []" and "is_ascii_alphabetic (hd s)" and "is_ascii_alphabetic (last s)"
  shows "trim s = s"
proof -
  have none: "strip_prefix w t = None"
    if "w \<noteq> []" "t \<noteq> []" "is_ascii_alphabetic (hd t)" "\<forall>x \<in> set w. \<not> is_ascii_alphabetic x" for w t
    using that by (cases w; cases t) auto
  have "first_stripped whitespace s = None"
    unfolding first_stripped_None
  proof
    fix w
    assume w: "w \<in> set whitespace"
    then have "\<forall>x \<in> set w. \<not> is_ascii_alphabetic x" "w \<noteq> []"
      using whitespace_plain whitespace_not_Nil(1) by auto
    then show "strip_prefix w s = None"
      using assms by (intro none)
  qed
  moreover have "first_stripped (map rev whitespace) (rev s) = None"
    unfolding first_stripped_None
  proof
    fix w
    assume "w \<in> set (map rev whitespace)"
    then obtain v where v: "v \<in> set whitespace" "w = rev v"
      by (metis ex_map_conv in_set_conv_nth list.set_map imageE)
    then have "v \<noteq> []" "\<forall>x \<in> set v. \<not> is_ascii_alphabetic x"
      using whitespace_plain whitespace_not_Nil(1) by blast+
    then have "\<forall>x \<in> set w. \<not> is_ascii_alphabetic x" "w \<noteq> []"
      using v(2) by simp_all
    then show "strip_prefix w (rev s) = None"
      using assms by (intro none) (simp_all add: hd_rev)
  qed
  ultimately show ?thesis
    by (simp add: trim_def trim_start_def trim_end_def trim_fuel_done)
qed

end
