(* ===== verification/Paths.thy ===== *)
theory Paths
  imports Str
begin

text \<open>
  Portable paths (\<open>attemptdb-core/src/paths.rs\<close>): the elision of home directories that the
  privacy contract rests on, and the normalised logical form of a path with its
  repository-relative part. \<open>char_indices\<close> over a string is a walk over its bytes here: the
  separators are ASCII, so the segment boundaries are the same.
\<close>

section \<open>Definitions\<close>

record PortablePath =
  pp_original :: string
  pp_logical :: string
  pp_repo_relative :: "string option"
  pp_drive :: "string option"
  pp_unc :: bool

definition HOME_PARENTS :: "string list" where
  "HOME_PARENTS = [''users'', ''home'', ''documents and settings'']"

definition MAX_HOME_PREFIX_SEGMENTS :: nat where
  "MAX_HOME_PREFIX_SEGMENTS = 5"

definition is_sep :: "char \<Rightarrow> bool" where
  "is_sep c \<longleftrightarrow> c = CHR ''/'' \<or> c = CHR 0x5C"

text \<open>The loop of \<open>elide_home\<close> that collects the non-empty segments with their byte ranges.\<close>

fun path_segments :: "nat \<Rightarrow> nat option \<Rightarrow> string \<Rightarrow> (nat \<times> nat) list" where
  "path_segments i start [] = (case start of Some s \<Rightarrow> [(s, i)] | None \<Rightarrow> [])"
| "path_segments i start (c # cs) =
     (case (is_sep c, start) of
        (True, Some s) \<Rightarrow> (s, i) # path_segments (i + 1) None cs
      | (False, None) \<Rightarrow> path_segments (i + 1) (Some i) cs
      | _ \<Rightarrow> path_segments (i + 1) start cs)"

definition seg_text :: "string \<Rightarrow> (nat \<times> nat) list \<Rightarrow> nat \<Rightarrow> string" where
  "seg_text logical segments k = slice (fst (segments ! k)) (snd (segments ! k)) logical"

definition is_superuser :: "string \<Rightarrow> (nat \<times> nat) list \<Rightarrow> nat \<Rightarrow> bool" where
  "is_superuser logical segments k \<longleftrightarrow>
     eq_ignore_ascii_case (seg_text logical segments k) ''root'' \<and>
     (k = 0 \<or> k = 1 \<and> eq_ignore_ascii_case (seg_text logical segments 0) ''var'')"

definition is_home_marker :: "string \<Rightarrow> bool" where
  "is_home_marker seg \<longleftrightarrow> list_ex (eq_ignore_ascii_case seg) HOME_PARENTS"

text \<open>The loop over the segments; \<open>n\<close> counts the remaining ones from position \<open>k\<close>.\<close>

fun elide_loop :: "string \<Rightarrow> (nat \<times> nat) list \<Rightarrow> nat \<Rightarrow> nat \<Rightarrow> string" where
  "elide_loop logical segments k 0 = logical"
| "elide_loop logical segments k (Suc n) =
     (if k > MAX_HOME_PREFIX_SEGMENTS then logical
      else if is_superuser logical segments k then ''~'' @ drop (snd (segments ! k)) logical
      else if is_home_marker (seg_text logical segments k) \<and> k + 1 < length segments
        then ''~'' @ drop (snd (segments ! (k + 1))) logical
      else elide_loop logical segments (k + 1) n)"

definition is_absolute :: "string \<Rightarrow> bool" where
  "is_absolute logical \<longleftrightarrow>
     starts_with ''/'' logical \<or> starts_with [CHR 0x5C] logical \<or>
     (3 \<le> length logical \<and> is_ascii_alphabetic (logical ! 0) \<and> logical ! 1 = CHR '':'' \<and>
      is_sep (logical ! 2))"

text \<open>\<open>~name/...\<close> names someone else's home directory.\<close>

definition named_home :: "string \<Rightarrow> string option" where
  "named_home logical =
     (case strip_prefix ''~'' logical of
        Some (c # cs) \<Rightarrow>
          if is_sep c then None else Some (''~'' @ dropWhile (\<lambda>c. \<not> is_sep c) (c # cs))
      | _ \<Rightarrow> None)"

definition elide_home :: "string \<Rightarrow> string" where
  "elide_home logical =
     (case named_home logical of
        Some s \<Rightarrow> s
      | None \<Rightarrow>
          if \<not> is_absolute logical then logical
          else elide_loop logical (path_segments 0 None logical) 0
                 (length (path_segments 0 None logical)))"

text \<open>\<open>replace\<close> applied as long as the pattern occurs.\<close>

lemma replace_str_fuel_length:
  "length t \<le> length p \<Longrightarrow> length (replace_str_fuel n p t s) \<le> length s"
proof (induction n p t s rule: replace_str_fuel.induct)
  case (3 n p t c cs)
  show ?case
  proof (cases "strip_prefix p (c # cs)")
    case (Some rest)
    then have "length (c # cs) = length p + length rest"
      by (simp add: strip_prefix_Some del: length_Cons)
    with Some 3 show ?thesis by simp
  qed (use 3 in simp)
qed auto

lemma replace_str_fuel_shorter:
  "length t < length p \<Longrightarrow> contains p s \<Longrightarrow> length s \<le> n \<Longrightarrow>
   length (replace_str_fuel n p t s) < length s"
proof (induction n p t s rule: replace_str_fuel.induct)
  case (3 n p t c cs)
  show ?case
  proof (cases "strip_prefix p (c # cs)")
    case None
    then have "contains p cs"
      using 3 by (auto simp: contains_def)
    with None 3 show ?thesis by simp
  next
    case (Some rest)
    then have "c # cs = p @ rest"
      by (simp add: strip_prefix_Some)
    then have "length p + length rest = Suc (length cs)"
      by (metis length_Cons length_append)
    moreover have "length (replace_str_fuel n p t rest) \<le> length rest"
      using 3 by (intro replace_str_fuel_length) simp
    ultimately show ?thesis
      using Some 3 by simp
  qed
qed (auto simp: contains_def split: if_splits)

function collapse :: "string \<Rightarrow> string \<Rightarrow> string \<Rightarrow> string" where
  "collapse p t s =
     (if length t < length p \<and> contains p s then collapse p t (replace_str p t s) else s)"
  by pat_completeness auto
termination
  by (relation "measure (\<lambda>(p, t, s). length s)") (auto simp: replace_str_def replace_str_fuel_shorter)

declare collapse.simps [simp del]

definition drive_letter :: "string \<Rightarrow> char option" where
  "drive_letter s =
     (case s of c # d # _ \<Rightarrow> if is_ascii_alphabetic c \<and> d = CHR '':'' then Some c else None
              | _ \<Rightarrow> None)"

definition is_relative :: "string \<Rightarrow> bool" where
  "is_relative s \<longleftrightarrow> \<not> (starts_with ''/'' s \<or> drive_letter s \<noteq> None)"

text \<open>\<open>while r.len() > 1 && r.ends_with('/') { r.pop(); }\<close> on the reversed text.\<close>

fun pop_slashes :: "string \<Rightarrow> string" where
  "pop_slashes (c # d # cs) = (if c = CHR ''/'' then pop_slashes (d # cs) else c # d # cs)"
| "pop_slashes s = s"

definition upper_drive :: "string \<Rightarrow> string" where
  "upper_drive s = (case drive_letter s of Some d \<Rightarrow> ascii_upper d # tl s | None \<Rightarrow> s)"

definition normalise_root :: "string \<Rightarrow> string" where
  "normalise_root root = rev (pop_slashes (rev (upper_drive (replace_char CHR 0x5C CHR ''/'' (trim root)))))"

definition strip_root :: "string \<Rightarrow> string \<Rightarrow> string option" where
  "strip_root logical root =
     (if root = [] then None
      else case strip_prefix root logical of
             None \<Rightarrow> None
           | Some rest \<Rightarrow> if rest = [] then Some [] else strip_prefix ''/'' rest)"

text \<open>The UTF-8 length of the character a byte starts.\<close>

definition utf8_len :: "char \<Rightarrow> nat" where
  "utf8_len c = (if code c < 0x80 then 1 else if code c < 0xE0 then 2 else if code c < 0xF0 then 3 else 4)"

definition repo_relative_of :: "string \<Rightarrow> string option \<Rightarrow> string option" where
  "repo_relative_of logical project_root =
     (case project_root of
        None \<Rightarrow> None
      | Some root \<Rightarrow>
          (case (if is_relative logical then Some logical
                 else strip_root logical (normalise_root root)) of
             Some r \<Rightarrow> if r = [] then None else Some r
           | None \<Rightarrow> None))"

definition from_raw :: "string \<Rightarrow> string option \<Rightarrow> PortablePath" where
  "from_raw raw project_root =
     (let trimmed = trim raw;
          bs = CHR 0x5C;
          (unc, stripped) =
            (case strip_prefix [bs, bs, CHR ''?'', bs, CHR ''U'', CHR ''N'', CHR ''C'', bs] trimmed of
               Some rest \<Rightarrow> (True, ''//'' @ rest)
             | None \<Rightarrow>
                 (case strip_prefix [bs, bs, CHR ''?'', bs] trimmed of
                    Some rest \<Rightarrow> (False, rest)
                  | None \<Rightarrow> (starts_with [bs, bs] trimmed, trimmed)));
          logical0 = replace_char bs CHR ''/'' stripped;
          leading_unc = starts_with ''//'' logical0;
          logical1 = collapse ''///'' ''//'' logical0;
          split = (case logical1 of [] \<Rightarrow> 0 | c # _ \<Rightarrow> utf8_len c);
          logical2 = (if leading_unc then logical1
                      else take split logical1 @ collapse ''//'' ''/'' (drop split logical1));
          drive = map_option (\<lambda>c. [ascii_upper c]) (drive_letter logical2);
          logical = (case drive of Some d \<Rightarrow> d @ tl logical2 | None \<Rightarrow> logical2);
          repo_relative = repo_relative_of logical project_root
      in \<lparr>pp_original = raw, pp_logical = logical, pp_repo_relative = repo_relative,
          pp_drive = drive, pp_unc = unc\<rparr>)"

definition extension :: "PortablePath \<Rightarrow> string option" where
  "extension p =
     (case rsplit_once ''.'' (last (split_char CHR ''/'' (pp_logical p))) of
        None \<Rightarrow> None
      | Some (stem, ext) \<Rightarrow> if stem = [] then None else Some (to_ascii_lowercase ext))"

definition display :: "PortablePath \<Rightarrow> string" where
  "display p = (case pp_repo_relative p of Some r \<Rightarrow> r | None \<Rightarrow> pp_logical p)"

section \<open>Segments\<close>

lemma path_segments_bound:
  "(a, b) \<in> set (path_segments i start s) \<Longrightarrow>
   i \<le> b \<and> b \<le> i + length s \<and> (b < i + length s \<longrightarrow> is_sep (s ! (b - i)))"
proof (induction s arbitrary: i start)
  case Nil
  then show ?case by (auto split: option.splits)
next
  case (Cons c cs)
  have step: "i \<le> b \<and> b \<le> i + length (c # cs) \<and> (b < i + length (c # cs) \<longrightarrow> is_sep ((c # cs) ! (b - i)))"
    if "(a, b) \<in> set (path_segments (Suc i) st cs)" for st
    using Cons.IH [OF that] by (auto simp: nth_Cons' Suc_le_eq)
  show ?case
    using Cons.prems step by (cases "is_sep c"; cases start) auto
qed

lemma path_segments_sep: "t = [] \<or> is_sep (hd t) \<Longrightarrow>
    path_segments i (Some a) t = (a, i) # path_segments i None t"
  by (cases t) auto

lemma path_segments_word: "\<forall>c \<in> set w. \<not> is_sep c \<Longrightarrow>
    path_segments i (Some a) (w @ t) = path_segments (i + length w) (Some a) t"
  by (induction w arbitrary: i) simp_all

lemma path_segments_cons:
  assumes "\<forall>c \<in> set w. \<not> is_sep c" and "w \<noteq> []" and "t = [] \<or> is_sep (hd t)"
  shows "path_segments i None (''/'' @ w @ t) =
    (i + 1, i + 1 + length w) # path_segments (i + 1 + length w) None t"
proof (cases w)
  case (Cons c cs)
  then have "path_segments i None (''/'' @ w @ t) = path_segments (i + 1) None (w @ t)"
    by (simp add: is_sep_def)
  also have "\<dots> = path_segments (i + 2) (Some (i + 1)) (cs @ t)"
    using assms Cons by simp
  also have "\<dots> = path_segments (i + 1 + length w) (Some (i + 1)) t"
    using assms Cons path_segments_word [of cs "i + 2" "i + 1" t] by simp
  finally show ?thesis
    using assms by (simp add: path_segments_sep)
qed (use assms in simp)

definition plain_segment :: "string \<Rightarrow> bool" where
  "plain_segment w \<longleftrightarrow>
     w \<noteq> [] \<and> (\<forall>c \<in> set w. \<not> is_sep c) \<and> \<not> is_home_marker w \<and> \<not> eq_ignore_ascii_case w ''root''"

text \<open>The slash-separated path of the given segments.\<close>

definition path_of :: "string list \<Rightarrow> string" where
  "path_of ws = concat (map (\<lambda>w. ''/'' @ w) ws)"

lemma path_of_simps [simp]:
  "path_of [] = []" "path_of (w # ws) = CHR ''/'' # w @ path_of ws"
  "path_of (ws @ vs) = path_of ws @ path_of vs"
  by (simp_all add: path_of_def)

lemma path_of_sep: "rest = [] \<or> is_sep (hd rest) \<Longrightarrow> path_of ws @ rest = [] \<or> is_sep (hd (path_of ws @ rest))"
  by (cases ws) (auto simp: is_sep_def)

lemma path_segments_count:
  assumes "\<forall>w \<in> set ws. w \<noteq> [] \<and> (\<forall>c \<in> set w. \<not> is_sep c)" and "rest = [] \<or> is_sep (hd rest)"
  shows "length ws \<le> length (path_segments i None (path_of ws @ rest))"
  using assms(1)
proof (induction ws arbitrary: i)
  case (Cons w ws)
  then show ?case
    using path_segments_cons [of w "path_of ws @ rest" i] path_of_sep [OF assms(2), of ws] by auto
qed simp

lemma elide_loop_home:
  assumes "\<forall>w \<in> set ws. plain_segment w" and "is_home_marker m" and "\<forall>c \<in> set m. \<not> is_sep c"
    and "\<not> eq_ignore_ascii_case m ''root''" and "m \<noteq> []"
    and "name \<noteq> []" and "\<forall>c \<in> set name. \<not> is_sep c" and "rest = [] \<or> is_sep (hd rest)"
    and "logical = pre @ path_of (ws @ [m, name]) @ rest"
    and "segments = before @ path_segments (length pre) None (path_of (ws @ [m, name]) @ rest)"
    and "length before + length ws \<le> MAX_HOME_PREFIX_SEGMENTS" and "length ws + 2 \<le> n"
  shows "elide_loop logical segments (length before) n = ''~'' @ rest"
  using assms
proof (induction ws arbitrary: pre before n)
  case Nil
  have segs: "segments = before @ (length pre + 1, length pre + 1 + length m) #
      (length pre + length m + 2, length pre + length m + 2 + length name) #
      path_segments (length pre + length m + 2 + length name) None rest"
    using Nil.prems path_segments_cons [of m "path_of [name] @ rest" "length pre"]
      path_segments_cons [of name rest "length pre + 1 + length m"]
    by (simp add: is_sep_def)
  have seg: "seg_text logical segments (length before) = m"
    unfolding segs using Nil.prems(9) by (simp add: seg_text_def nth_append slice_def)
  have "drop (length pre + length m + 2 + length name) logical = rest"
    using Nil.prems(9) by simp
  moreover have "length before + 1 < length segments"
    "segments ! (length before + 1) = (length pre + length m + 2, length pre + length m + 2 + length name)"
    unfolding segs by (simp_all add: nth_append)
  ultimately show ?case
    using Nil.prems(2,4,11,12) seg by (cases n) (simp_all add: is_superuser_def)
next
  case (Cons w ws)
  have w: "w \<noteq> []" "\<forall>c \<in> set w. \<not> is_sep c" "\<not> is_home_marker w" "\<not> eq_ignore_ascii_case w ''root''"
    using Cons.prems(1) by (auto simp: plain_segment_def)
  let ?pre = "pre @ ''/'' @ w" and ?before = "before @ [(length pre + 1, length pre + 1 + length w)]"
  have segs: "segments = ?before @ path_segments (length ?pre) None (path_of (ws @ [m, name]) @ rest)"
    using Cons.prems(10) path_segments_cons [of w "path_of (ws @ [m, name]) @ rest" "length pre"] w
      path_of_sep [OF Cons.prems(8), of "ws @ [m, name]"]
    by simp
  have log: "logical = ?pre @ path_of (ws @ [m, name]) @ rest"
    using Cons.prems(9) by simp
  have seg: "seg_text logical segments (length before) = w"
    using segs log by (simp add: seg_text_def nth_append slice_def)
  obtain n' where n': "n = Suc n'" "length ws + 2 \<le> n'"
    using Cons.prems(12) by (cases n) auto
  have "elide_loop logical segments (length ?before) n' = ''~'' @ rest"
    using Cons.prems n' by (intro Cons.IH [OF _ _ _ _ _ _ _ _ log segs]) auto
  then show ?case
    using n' seg w Cons.prems(11) by (simp add: is_superuser_def)
qed

section \<open>Theorems\<close>

lemma elide_home_tilde:
  assumes "rest = [] \<or> is_sep (hd rest)"
  shows "elide_home (''~'' @ rest) = ''~'' @ rest"
proof -
  have "named_home (''~'' @ rest) = None"
    using assms by (cases rest) (auto simp: named_home_def)
  moreover have "\<not> is_absolute (''~'' @ rest)"
    by (simp add: is_absolute_def starts_with_def is_ascii_alphabetic_def is_ascii_lowercase_def
        is_ascii_uppercase_def code_def)
  ultimately show ?thesis
    by (simp add: elide_home_def)
qed

lemma dropWhile_sep: "dropWhile (\<lambda>c. \<not> is_sep c) s = [] \<or> is_sep (hd (dropWhile (\<lambda>c. \<not> is_sep c) s))"
  by (metis hd_dropWhile)

lemma drop_segment_end:
  assumes "k < length (path_segments 0 None s)"
  shows "drop (snd (path_segments 0 None s ! k)) s = [] \<or> is_sep (hd (drop (snd (path_segments 0 None s ! k)) s))"
proof -
  obtain a b where ab: "path_segments 0 None s ! k = (a, b)"
    by (cases "path_segments 0 None s ! k")
  then have "(a, b) \<in> set (path_segments 0 None s)"
    using assms by (metis nth_mem)
  then show ?thesis
    using path_segments_bound [of a b 0 None s] ab by (cases "b < length s") (simp_all add: hd_drop_conv_nth)
qed

lemma elide_loop_shape:
  assumes "k + n = length (path_segments 0 None s)"
  shows "elide_loop s (path_segments 0 None s) k n = s \<or>
    (\<exists>rest. elide_loop s (path_segments 0 None s) k n = ''~'' @ rest \<and> (rest = [] \<or> is_sep (hd rest)))"
  using assms
proof (induction n arbitrary: k)
  case (Suc n)
  have "k < length (path_segments 0 None s)"
    using Suc.prems by simp
  then show ?case
    using Suc.IH [of "k + 1"] Suc.prems drop_segment_end [of k s] drop_segment_end [of "k + 1" s] by auto
qed simp

text \<open>
  Eliding the home directory is idempotent, so applying the rule at every layer that handles a
  path (the hook, the writer, the export) never changes an already elided path.
\<close>

theorem elide_home_idem: "elide_home (elide_home p) = elide_home p"
proof (cases "named_home p")
  case (Some s)
  then obtain rest where "s = ''~'' @ dropWhile (\<lambda>c. \<not> is_sep c) rest"
    by (auto simp: named_home_def split: option.splits list.splits if_splits)
  then show ?thesis
    using Some elide_home_tilde [OF dropWhile_sep, of rest] by (simp add: elide_home_def)
next
  case None
  then show ?thesis
  proof (cases "is_absolute p")
    case True
    have "elide_home p = p \<or> (\<exists>rest. elide_home p = ''~'' @ rest \<and> (rest = [] \<or> is_sep (hd rest)))"
      using elide_loop_shape [of 0 "length (path_segments 0 None p)" p] None True
      by (simp add: elide_home_def)
    then show ?thesis
      using elide_home_tilde by auto
  qed (simp add: elide_home_def)
qed



lemma from_raw_logical: "pp_logical (from_raw raw root) = pp_logical (from_raw raw None)"
  by (simp add: from_raw_def Let_def case_prod_beta)

lemma from_raw_relative:
  "pp_repo_relative (from_raw raw root) = repo_relative_of (pp_logical (from_raw raw root)) root"
  by (simp add: from_raw_def Let_def case_prod_beta)

text \<open>
  A repository-relative path is never invented: it is non-empty, and either it is the logical
  path itself (a relative path) or the logical path is exactly the normalised project root, a
  slash, and the relative path.
\<close>

theorem from_raw_repo_relative:
  assumes "pp_repo_relative (from_raw raw root) = Some r"
  shows "r \<noteq> [] \<and>
    (is_relative (pp_logical (from_raw raw root)) \<and> r = pp_logical (from_raw raw root) \<or>
     (\<exists>d. root = Some d \<and> pp_logical (from_raw raw root) = normalise_root d @ ''/'' @ r))"
proof -
  have "repo_relative_of (pp_logical (from_raw raw root)) root = Some r"
    using assms by (simp add: from_raw_relative)
  then show ?thesis
    by (auto simp: repo_relative_of_def strip_root_def strip_prefix_Some
        split: option.splits if_splits)
qed

theorem from_raw_repo_relative_witness:
  "pp_logical (from_raw ''/w//a'' (Some ''/w/'')) = normalise_root ''/w/'' @ ''/'' @ ''a''"
proof -
  have root: "repo_relative_of ''/w/a'' (Some ''/w/'') = Some ''a''" "\<not> is_relative ''/w/a''"
    by code_simp+
  have logical: "pp_logical (from_raw ''/w//a'' (Some ''/w/'')) = ''/w/a''"
    unfolding from_raw_logical [of _ "Some _"] by code_simp
  have "pp_repo_relative (from_raw ''/w//a'' (Some ''/w/'')) = Some ''a''"
    unfolding from_raw_relative logical by (rule root)
  then show ?thesis
    using from_raw_repo_relative [of "''/w//a''" "Some ''/w/''" "''a''"] logical root by simp
qed

end
