(* ===== verification/Event.thy ===== *)
theory Event
  imports Paths Frame
begin

text \<open>
  The canonical event model (\<open>attemptdb-core/src/event.rs\<close>, \<open>privacy.rs\<close>, \<open>ids.rs\<close>,
  \<open>codec.rs\<close>): providers, event kinds, capture modes, identifiers, the event itself, the two
  spellings of a repository's remote, and the codec of framed records.

  Parameters: \<open>v5\<close> stands for \<open>Uuid::new_v5\<close> under the program's namespace, a function of the
  derived name; \<open>to_vec\<close> and \<open>from_slice\<close> for \<open>serde_json\<close>; \<open>show_dev\<close> for the text of a device
  id. A UUID is its 128-bit number (the derived order on the bytes is the order of the numbers),
  a float its bit pattern.
\<close>

section \<open>JSON values\<close>

datatype number = PosInt nat | NegInt int | Float u64

datatype Value =
    Null
  | Bool bool
  | Number number
  | String string
  | Array "Value list"
  | Object "(string \<times> Value) list"

type_synonym json_map = "(string \<times> Value) list"

definition as_str :: "Value \<Rightarrow> string option" where
  "as_str v = (case v of String s \<Rightarrow> Some s | _ \<Rightarrow> None)"

definition as_bool :: "Value \<Rightarrow> bool option" where
  "as_bool v = (case v of Bool b \<Rightarrow> Some b | _ \<Rightarrow> None)"

definition as_u64 :: "Value \<Rightarrow> nat option" where
  "as_u64 v = (case v of Number (PosInt n) \<Rightarrow> Some n | _ \<Rightarrow> None)"

section \<open>Identifiers\<close>

type_synonym uuid = "128 word"
type_synonym EventId = uuid
type_synonym DeviceId = uuid
type_synonym ProjectId = uuid
type_synonym SessionId = uuid
type_synonym SpanId = uuid
type_synonym AgentId = uuid

text \<open>The name an identifier is derived from: the type's prefix, then each part after a unit separator.\<close>

definition derive_name :: "string \<Rightarrow> string list \<Rightarrow> string" where
  "derive_name pfx parts = pfx @ concat (map (\<lambda>p. CHR 0x1F # p) parts)"

definition derive_id :: "(string \<Rightarrow> uuid) \<Rightarrow> string \<Rightarrow> string list \<Rightarrow> uuid" where
  "derive_id v5 pfx parts = v5 (derive_name pfx parts)"

section \<open>Capture modes\<close>

datatype CaptureMode = MetadataOnly | LocalSemantic | FullSync

definition CaptureMode_from_stored :: "string \<Rightarrow> CaptureMode" where
  "CaptureMode_from_stored s =
     (if s = ''metadata_only'' then MetadataOnly
      else if s = ''local_semantic'' then LocalSemantic
      else if s = ''full_sync'' then FullSync
      else MetadataOnly)"

fun CaptureMode_as_str :: "CaptureMode \<Rightarrow> string" where
  "CaptureMode_as_str MetadataOnly = ''metadata_only''"
| "CaptureMode_as_str LocalSemantic = ''local_semantic''"
| "CaptureMode_as_str FullSync = ''full_sync''"

definition persists_content_locally :: "CaptureMode \<Rightarrow> bool" where
  "persists_content_locally m \<longleftrightarrow> m \<noteq> MetadataOnly"

definition syncs_content :: "CaptureMode \<Rightarrow> bool" where
  "syncs_content m \<longleftrightarrow> m = FullSync"

text \<open>The normalisation both \<open>FromStr\<close> implementations apply.\<close>

definition fold_name :: "string \<Rightarrow> string" where
  "fold_name s = replace_char CHR ''-'' CHR ''_'' (to_ascii_lowercase (trim s))"

definition CaptureMode_from_str :: "string \<Rightarrow> core_error + CaptureMode" where
  "CaptureMode_from_str s =
     (let t = fold_name s in
      if t = ''metadata_only'' \<or> t = ''metadata'' then Ok MetadataOnly
      else if t = ''local_semantic'' \<or> t = ''local'' then Ok LocalSemantic
      else if t = ''full_sync'' \<or> t = ''full'' then Ok FullSync
      else Err (InvalidId t))"

section \<open>Providers, kinds, tools, outcomes\<close>

datatype Provider = ClaudeCode | Codex | Cursor | GeminiCli | OtherProvider string

definition SELF_PROVIDER :: string where
  "SELF_PROVIDER = ''attemptdb''"

fun Provider_as_str :: "Provider \<Rightarrow> string" where
  "Provider_as_str ClaudeCode = ''claude_code''"
| "Provider_as_str Codex = ''codex''"
| "Provider_as_str Cursor = ''cursor''"
| "Provider_as_str GeminiCli = ''gemini_cli''"
| "Provider_as_str (OtherProvider s) = s"

definition Provider_is_self :: "Provider \<Rightarrow> bool" where
  "Provider_is_self p \<longleftrightarrow> Provider_as_str p = SELF_PROVIDER"

fun display_name :: "Provider \<Rightarrow> string" where
  "display_name ClaudeCode = ''Claude Code''"
| "display_name Codex = ''Codex''"
| "display_name Cursor = ''Cursor''"
| "display_name GeminiCli = ''Gemini CLI''"
| "display_name (OtherProvider s) = s"

definition Provider_from_str :: "string \<Rightarrow> Provider" where
  "Provider_from_str s =
     (let t = fold_name s in
      if t = ''claude_code'' \<or> t = ''claude'' \<or> t = ''claudecode'' then ClaudeCode
      else if t = ''codex'' \<or> t = ''codex_cli'' then Codex
      else if t = ''cursor'' then Cursor
      else if t = ''gemini_cli'' \<or> t = ''gemini'' then GeminiCli
      else OtherProvider t)"

datatype EventKind =
    SessionStarted
  | SessionEnded
  | PromptSubmitted
  | ToolCallStarted
  | ToolCallFinished
  | ToolCallFailed
  | PermissionRequested
  | PermissionDenied
  | Notification
  | AgentMessage
  | TurnStopped
  | TurnFailed
  | SubagentStarted
  | SubagentStopped
  | TaskCreated
  | TaskCompleted
  | CompactionStarted
  | CompactionFinished
  | ConfigChanged
  | CwdChanged
  | FileChanged
  | WorktreeCreated
  | WorktreeRemoved
  | Correction
  | Retraction
  | CaptureTest
  | UnknownKind

fun EventKind_as_str :: "EventKind \<Rightarrow> string" where
  "EventKind_as_str SessionStarted = ''session_started''"
| "EventKind_as_str SessionEnded = ''session_ended''"
| "EventKind_as_str PromptSubmitted = ''prompt_submitted''"
| "EventKind_as_str ToolCallStarted = ''tool_call_started''"
| "EventKind_as_str ToolCallFinished = ''tool_call_finished''"
| "EventKind_as_str ToolCallFailed = ''tool_call_failed''"
| "EventKind_as_str PermissionRequested = ''permission_requested''"
| "EventKind_as_str PermissionDenied = ''permission_denied''"
| "EventKind_as_str Notification = ''notification''"
| "EventKind_as_str AgentMessage = ''agent_message''"
| "EventKind_as_str TurnStopped = ''turn_stopped''"
| "EventKind_as_str TurnFailed = ''turn_failed''"
| "EventKind_as_str SubagentStarted = ''subagent_started''"
| "EventKind_as_str SubagentStopped = ''subagent_stopped''"
| "EventKind_as_str TaskCreated = ''task_created''"
| "EventKind_as_str TaskCompleted = ''task_completed''"
| "EventKind_as_str CompactionStarted = ''compaction_started''"
| "EventKind_as_str CompactionFinished = ''compaction_finished''"
| "EventKind_as_str ConfigChanged = ''config_changed''"
| "EventKind_as_str CwdChanged = ''cwd_changed''"
| "EventKind_as_str FileChanged = ''file_changed''"
| "EventKind_as_str WorktreeCreated = ''worktree_created''"
| "EventKind_as_str WorktreeRemoved = ''worktree_removed''"
| "EventKind_as_str Correction = ''correction''"
| "EventKind_as_str Retraction = ''retraction''"
| "EventKind_as_str CaptureTest = ''capture_test''"
| "EventKind_as_str UnknownKind = ''unknown''"

definition EventKind_ALL :: "EventKind list" where
  "EventKind_ALL =
     [SessionStarted, SessionEnded, PromptSubmitted, ToolCallStarted, ToolCallFinished,
      ToolCallFailed, PermissionRequested, PermissionDenied, Notification, AgentMessage,
      TurnStopped, TurnFailed, SubagentStarted, SubagentStopped, TaskCreated,
      TaskCompleted, CompactionStarted, CompactionFinished, ConfigChanged, CwdChanged,
      FileChanged, WorktreeCreated, WorktreeRemoved, Correction, Retraction,
      CaptureTest, UnknownKind]"

definition EventKind_parse :: "string \<Rightarrow> EventKind option" where
  "EventKind_parse s = find (\<lambda>k. EventKind_as_str k = s) EventKind_ALL"

datatype ToolCategory =
    Shell
  | FileRead
  | FileWrite
  | FileEdit
  | Search
  | Web
  | Mcp
  | Subagent
  | Plan
  | Notebook
  | OtherTool

fun ToolCategory_as_str :: "ToolCategory \<Rightarrow> string" where
  "ToolCategory_as_str Shell = ''shell''"
| "ToolCategory_as_str FileRead = ''file_read''"
| "ToolCategory_as_str FileWrite = ''file_write''"
| "ToolCategory_as_str FileEdit = ''file_edit''"
| "ToolCategory_as_str Search = ''search''"
| "ToolCategory_as_str Web = ''web''"
| "ToolCategory_as_str Mcp = ''mcp''"
| "ToolCategory_as_str Subagent = ''subagent''"
| "ToolCategory_as_str Plan = ''plan''"
| "ToolCategory_as_str Notebook = ''notebook''"
| "ToolCategory_as_str OtherTool = ''other''"

definition mutates_files :: "ToolCategory \<Rightarrow> bool" where
  "mutates_files c \<longleftrightarrow> c \<in> {FileWrite, FileEdit, Notebook}"

record ToolRef =
  tool_name :: string
  tool_category :: ToolCategory
  tool_call_id :: "string option"

datatype OutcomeStatus = Success | Failure | Denied | Cancelled | UnknownStatus

fun OutcomeStatus_as_str :: "OutcomeStatus \<Rightarrow> string" where
  "OutcomeStatus_as_str Success = ''success''"
| "OutcomeStatus_as_str Failure = ''failure''"
| "OutcomeStatus_as_str Denied = ''denied''"
| "OutcomeStatus_as_str Cancelled = ''cancelled''"
| "OutcomeStatus_as_str UnknownStatus = ''unknown''"

record Outcome =
  oc_status :: OutcomeStatus
  oc_class :: "string option"
  oc_exit_code :: "int option"

definition Outcome_success :: Outcome where
  "Outcome_success = \<lparr>oc_status = Success, oc_class = None, oc_exit_code = None\<rparr>"

definition Outcome_failure :: "string option \<Rightarrow> Outcome" where
  "Outcome_failure cls = \<lparr>oc_status = Failure, oc_class = cls, oc_exit_code = None\<rparr>"

definition Outcome_denied :: Outcome where
  "Outcome_denied = \<lparr>oc_status = Denied, oc_class = None, oc_exit_code = None\<rparr>"

record AgentRef =
  agent_id :: AgentId
  agent_provider_agent_id :: "string option"
  agent_type :: "string option"
  agent_parent_agent_id :: "AgentId option"
  agent_model :: "string option"

record ProjectRef =
  project_id :: ProjectId
  project_root :: string
  project_name :: string
  project_repo_remote :: "string option"
  project_branch :: "string option"
  project_head :: "string option"

section \<open>Repository remotes\<close>

fun replace_first :: "char \<Rightarrow> char \<Rightarrow> string \<Rightarrow> string" where
  "replace_first a b [] = []"
| "replace_first a b (c # cs) = (if c = a then b # cs else c # replace_first a b cs)"

definition strip_git :: "string \<Rightarrow> string" where
  "strip_git s = (case strip_suffix ''.git'' s of Some t \<Rightarrow> t | None \<Rightarrow> s)"

definition normalise_remote :: "string \<Rightarrow> string option" where
  "normalise_remote input =
     (let url = trim input in
      if url = [] then None
      else
        let without_scheme =
              (case split_once ''://'' url of
                 Some (_, rest) \<Rightarrow> rest
               | None \<Rightarrow> (case split_once ''@'' url of Some (_, rest) \<Rightarrow> rest | None \<Rightarrow> url));
            without_user = last (split_char CHR ''@'' without_scheme);
            s0 = trim_end_matches CHR ''/'' (replace_first CHR '':'' CHR ''/'' without_user);
            s = to_ascii_lowercase (trim_end_matches CHR ''/'' (strip_git s0))
        in if length (filter (\<lambda>c. c = CHR ''/'') s) < 2 then None else Some s)"

definition URL_TAIL_SEGMENTS :: "string list" where
  "URL_TAIL_SEGMENTS =
     [''-'', ''tree'', ''blob'', ''blame'', ''raw'', ''issues'', ''pull'', ''pulls'',
      ''pull-requests'', ''merge_requests'', ''commit'', ''commits'', ''compare'', ''releases'',
      ''wiki'', ''actions'', ''discussions'']"

definition FLAT_HOSTS :: "string list" where
  "FLAT_HOSTS = [''github.com'', ''bitbucket.org'', ''codeberg.org'']"

definition canonical_host :: "string \<Rightarrow> string" where
  "canonical_host host =
     (let h = trim_end_matches CHR ''.'' host in
      if h = ''ssh.github.com'' \<or> h = ''www.github.com'' then ''github.com''
      else if h = ''altssh.gitlab.com'' \<or> h = ''www.gitlab.com'' then ''gitlab.com''
      else if h = ''altssh.bitbucket.org'' \<or> h = ''www.bitbucket.org'' then ''bitbucket.org''
      else h)"

definition strip_port :: "string \<Rightarrow> string" where
  "strip_port host_port =
     (if starts_with ''['' host_port then
        (case split_once '']'' host_port of Some (h, _) \<Rightarrow> h @ '']'' | None \<Rightarrow> host_port)
      else case rsplit_once '':'' host_port of
             Some (h, port) \<Rightarrow>
               if port \<noteq> [] \<and> list_all is_ascii_digit port then h else host_port
           | None \<Rightarrow> host_port)"

text \<open>The host and path that \<open>repo_key\<close> reads from a URL, an scp-style address or the stored form.\<close>

definition repo_host_path :: "string \<Rightarrow> string \<times> string" where
  "repo_host_path txt =
     (case split_once ''://'' txt of
        Some (_, rest) \<Rightarrow>
          (let (authority, path) = (case split_once ''/'' rest of Some ap \<Rightarrow> ap | None \<Rightarrow> (rest, []));
               host_port = last (split_char CHR ''@'' authority)
           in (strip_port host_port, path))
      | None \<Rightarrow>
          (let before_slash = takeWhile (\<lambda>c. c \<noteq> CHR ''/'') txt in
           case split_once '':'' before_slash of
             Some (user_host, _) \<Rightarrow>
               (last (split_char CHR ''@'' user_host), drop (length user_host + 1) txt)
           | None \<Rightarrow>
               (let (head, path) = (case split_once ''/'' txt of Some hp \<Rightarrow> hp | None \<Rightarrow> (txt, []))
                in (last (split_char CHR ''@'' head), path))))"

definition is_port_segment :: "string \<Rightarrow> bool" where
  "is_port_segment s \<longleftrightarrow>
     length s \<le> 5 \<and> list_all is_ascii_digit s \<and>
     (case parse_u64 s of Some p \<Rightarrow> 0 < p \<and> p \<le> 65535 | None \<Rightarrow> False)"

definition drop_port_segment :: "string list \<Rightarrow> string list" where
  "drop_port_segment segs =
     (if 3 \<le> length segs \<and> is_port_segment (hd segs) then tl segs else segs)"

definition cut_url_tail :: "string list \<Rightarrow> string list" where
  "cut_url_tail segs = take 2 segs @ takeWhile (\<lambda>s. s \<notin> set URL_TAIL_SEGMENTS) (drop 2 segs)"

definition strip_last_git :: "string list \<Rightarrow> string list" where
  "strip_last_git segs = (if segs = [] then [] else butlast segs @ [strip_git (last segs)])"

definition repo_key :: "string \<Rightarrow> string option" where
  "repo_key input =
     (let lower = to_ascii_lowercase (trim input);
          txt = hd (split_by (\<lambda>c. c = CHR ''?'' \<or> c = CHR ''#'') lower)
      in if txt = [] then None
         else if starts_with ''/'' txt then normalise_remote txt
         else
           let (raw_host, path) = repo_host_path txt;
               host = canonical_host raw_host
           in if host = [] then None
              else
                let segs0 = filter (\<lambda>s. s \<noteq> []) (split_char CHR ''/'' path);
                    segs1 = cut_url_tail (drop_port_segment segs0);
                    segs2 = (if host \<in> set FLAT_HOSTS then take 2 segs1 else segs1);
                    owned = filter (\<lambda>s. s \<noteq> []) (strip_last_git segs2)
                in if length owned < 2 then None else Some (host @ ''/'' @ join ''/'' owned))"

definition last_two :: "'a list \<Rightarrow> 'a list" where
  "last_two xs = drop (length xs - 2) xs"

definition ProjectRef_derive ::
  "(string \<Rightarrow> uuid) \<Rightarrow> (DeviceId \<Rightarrow> string) \<Rightarrow> string \<Rightarrow> string option \<Rightarrow> DeviceId \<Rightarrow> ProjectRef"
where
  "ProjectRef_derive v5 show_dev root repo_remote device_id =
     (let root_logical = pp_logical (from_raw root None);
          remote = (case repo_remote of None \<Rightarrow> None | Some r \<Rightarrow> normalise_remote r);
          base = last (split_char CHR ''/'' (trim_end_matches CHR ''/'' root_logical));
          (pid, name) =
            (case remote of
               Some r \<Rightarrow> (derive_id v5 ''prj_'' [''remote'', r],
                         join ''/'' (last_two (split_char CHR ''/'' r)))
             | None \<Rightarrow> (derive_id v5 ''prj_'' [''root'', show_dev device_id, root_logical],
                       if base = [] then ''project'' else base))
      in \<lparr>project_id = pid, project_root = root_logical, project_name = name,
          project_repo_remote = remote, project_branch = None, project_head = None\<rparr>)"

section \<open>Events\<close>

record EventContent =
  ct_prompt :: "string option"
  ct_command :: "string option"
  ct_message :: "string option"
  ct_error :: "string option"
  ct_tool_input :: "Value option"
  ct_tool_output :: "Value option"
  ct_extra :: json_map

definition EventContent_is_empty :: "EventContent \<Rightarrow> bool" where
  "EventContent_is_empty c \<longleftrightarrow>
     ct_prompt c = None \<and> ct_command c = None \<and> ct_message c = None \<and> ct_error c = None \<and>
     ct_tool_input c = None \<and> ct_tool_output c = None \<and> ct_extra c = []"

record Event =
  ev_event_id :: EventId
  ev_schema_version :: u16
  ev_device_id :: DeviceId
  ev_source_seq :: nat
  ev_hlc :: u64
  ev_observed_at :: Timestamp
  ev_captured_at :: Timestamp
  ev_ingested_at :: "Timestamp option"
  ev_provider :: Provider
  ev_provider_version :: "string option"
  ev_adapter_version :: string
  ev_hook_version :: "string option"
  ev_capture_mode :: CaptureMode
  ev_provider_event_name :: string
  ev_kind :: EventKind
  ev_project :: ProjectRef
  ev_session_id :: SessionId
  ev_provider_session_id :: string
  ev_provider_turn_id :: "string option"
  ev_span_id :: "SpanId option"
  ev_parent_span_id :: "SpanId option"
  ev_agent :: AgentRef
  ev_tool :: "ToolRef option"
  ev_paths :: "PortablePath list"
  ev_outcome :: "Outcome option"
  ev_duration_ms :: "nat option"
  ev_attrs :: json_map
  ev_content :: "EventContent option"
  ev_raw :: "Value option"
  ev_unknown :: json_map

definition attr_str :: "Event \<Rightarrow> string \<Rightarrow> string option" where
  "attr_str ev key = Option.bind (map_of (ev_attrs ev) key) as_str"

definition is_telemetry :: "Event \<Rightarrow> bool" where
  "is_telemetry ev \<longleftrightarrow> ev_kind ev = UnknownKind \<and> attr_str ev ''source'' = Some ''otel''"

definition is_ingested :: "Event \<Rightarrow> bool" where
  "is_ingested ev \<longleftrightarrow> ev_source_seq ev \<noteq> 0 \<and> ev_hlc ev \<noteq> 0"

definition apply_capture_mode :: "Event \<Rightarrow> Event" where
  "apply_capture_mode ev =
     (if \<not> persists_content_locally (ev_capture_mode ev)
      then ev\<lparr>ev_content := None, ev_raw := None\<rparr> else ev)"

text \<open>
  \<open>Event::new\<close>: the fresh event id and the current time are arguments, \<open>show_id\<close> is the text of
  an identifier.
\<close>

definition Event_new ::
  "(string \<Rightarrow> uuid) \<Rightarrow> (uuid \<Rightarrow> string) \<Rightarrow> EventId \<Rightarrow> Timestamp \<Rightarrow>
   DeviceId \<Rightarrow> Provider \<Rightarrow> string \<Rightarrow> EventKind \<Rightarrow> ProjectRef \<Rightarrow> string \<Rightarrow> CaptureMode \<Rightarrow> string \<Rightarrow> Event"
where
  "Event_new v5 show_id fresh now dev prov event_name kind project provider_session_id mode adapter =
     (let sid = derive_id v5 ''ses_'' [Provider_as_str prov, provider_session_id] in
      \<lparr>ev_event_id = fresh, ev_schema_version = CANONICAL_SCHEMA_VERSION, ev_device_id = dev,
       ev_source_seq = 0, ev_hlc = 0, ev_observed_at = now, ev_captured_at = now,
       ev_ingested_at = None, ev_provider = prov, ev_provider_version = None,
       ev_adapter_version = adapter, ev_hook_version = None, ev_capture_mode = mode,
       ev_provider_event_name = event_name, ev_kind = kind, ev_project = project,
       ev_session_id = sid, ev_provider_session_id = provider_session_id,
       ev_provider_turn_id = None, ev_span_id = None, ev_parent_span_id = None,
       ev_agent = \<lparr>agent_id = derive_id v5 ''agt_'' [''session'', show_id sid],
                   agent_provider_agent_id = None, agent_type = None,
                   agent_parent_agent_id = None, agent_model = None\<rparr>,
       ev_tool = None, ev_paths = [], ev_outcome = None, ev_duration_ms = None,
       ev_attrs = [], ev_content = None, ev_raw = None, ev_unknown = []\<rparr>)"

section \<open>The codec of framed records\<close>

definition MIN_READABLE_SCHEMA_VERSION :: u16 where
  "MIN_READABLE_SCHEMA_VERSION = 1"

definition encode_event :: "(Event \<Rightarrow> (unit + u8 list)) \<Rightarrow> Event \<Rightarrow> core_error + u8 list" where
  "encode_event to_vec ev = (case to_vec ev of Inl _ \<Rightarrow> Err JsonCore | Inr bs \<Rightarrow> Ok bs)"

definition decode_event :: "(u8 list \<Rightarrow> (unit + Event)) \<Rightarrow> u8 list \<Rightarrow> core_error + Event" where
  "decode_event from_slice bs =
     (case from_slice bs of
        Inl _ \<Rightarrow> Err JsonCore
      | Inr ev \<Rightarrow>
          if ev_schema_version ev < MIN_READABLE_SCHEMA_VERSION \<or>
             ev_schema_version ev > CANONICAL_SCHEMA_VERSION + 100
          then Err (UnsupportedSchema (ev_schema_version ev) CANONICAL_SCHEMA_VERSION)
          else Ok ev)"

section \<open>Theorems\<close>

text \<open>
  The textual name of an event kind determines the kind: parsing a text gives a kind exactly
  when the text is that kind's name, so every kind written to a column reads back as itself and
  nothing else is accepted.
\<close>

theorem EventKind_roundtrip: "EventKind_parse s = Some k \<longleftrightarrow> s = EventKind_as_str k"
proof
  show "EventKind_parse s = Some k \<Longrightarrow> s = EventKind_as_str k"
    by (auto simp: EventKind_parse_def find_Some_iff)
  show "s = EventKind_as_str k \<Longrightarrow> EventKind_parse s = Some k"
    by (cases k) (simp_all add: EventKind_parse_def EventKind_ALL_def)
qed

lemma fold_name_idem: "fold_name (fold_name s) = fold_name s"
proof -
  define g where "g c = (if ascii_lower c = CHR ''-'' then CHR ''_'' else ascii_lower c)" for c
  have fold: "fold_name t = map g (trim t)" for t
    by (simp add: fold_name_def g_def replace_char_def to_ascii_lowercase_def comp_def)
  have dash: "ascii_lower CHR ''_'' = CHR ''_''"
    by (simp add: ascii_lower_def is_ascii_uppercase_def code_def)
  then have gg: "g (g c) = g c" for c
    by (simp add: g_def)
  have "g c = x \<longleftrightarrow> c = x" if "w \<in> set whitespace" "x \<in> set w" for w x c
    using whitespace_plain that ascii_lower_eq [of x c] by (auto simp: g_def)
  then have "keeps_whitespace g"
    by (simp add: keeps_whitespace_def)
  then show ?thesis
    by (simp add: fold trim_map trim_idem comp_def gg)
qed

lemma Provider_from_str_names:
  "Provider_from_str ''claude_code'' = ClaudeCode" "Provider_from_str ''codex'' = Codex"
  "Provider_from_str ''cursor'' = Cursor" "Provider_from_str ''gemini_cli'' = GeminiCli"
  by (simp_all add: Provider_from_str_def fold_name_def trim_letters is_ascii_alphabetic_def
      is_ascii_lowercase_def is_ascii_uppercase_def code_def to_ascii_lowercase_def ascii_lower_def
      replace_char_def)

text \<open>
  A provider survives storage: the text written for a provider that was read from any text
  reads back as the same provider.
\<close>

theorem Provider_roundtrip:
  "Provider_from_str (Provider_as_str (Provider_from_str s)) = Provider_from_str s"
proof (cases "Provider_from_str s")
  case (OtherProvider t)
  then have "t = fold_name s"
    by (auto simp: Provider_from_str_def Let_def split: if_splits)
  then have "Provider_from_str t = Provider_from_str s"
    by (simp add: Provider_from_str_def fold_name_idem)
  with OtherProvider show ?thesis by simp
qed (simp_all add: Provider_from_str_names)


lemma derive_name_nth_sep:
  assumes "\<forall>p \<in> set xs. CHR 0x1F \<notin> set p" and "\<forall>p \<in> set ys. CHR 0x1F \<notin> set p"
    and "concat (map (\<lambda>p. CHR 0x1F # p) xs) = concat (map (\<lambda>p. CHR 0x1F # p) ys)"
  shows "xs = ys"
  using assms
proof (induction xs arbitrary: ys)
  case Nil
  then show ?case by (cases ys) auto
next
  case (Cons x xs)
  then obtain y ys' where ys: "ys = y # ys'"
    by (cases ys) auto
  have head: "takeWhile (\<lambda>c. c \<noteq> CHR 0x1F) (p @ concat (map (\<lambda>p. CHR 0x1F # p) ps)) = p"
    if "CHR 0x1F \<notin> set p" for p and ps :: "string list"
    using that by (cases ps) (auto simp: takeWhile_append intro: takeWhile_eq_all_conv [THEN iffD2])
  have eq: "x @ concat (map (\<lambda>p. CHR 0x1F # p) xs) = y @ concat (map (\<lambda>p. CHR 0x1F # p) ys')"
    using Cons.prems(3) ys by simp
  then have "x = y"
    using head [of x xs] head [of y ys'] Cons.prems(1,2) ys by auto
  then show ?case
    using Cons.IH [of ys'] Cons.prems eq ys by auto
qed

text \<open>
  Identifiers are derived from distinct names for distinct parts: when no part contains the
  unit separator, the name an identifier is hashed from determines the parts, so two different
  provider sessions (or project roots) can only share an identifier if the hash itself collides.
\<close>

theorem derive_name_injective:
  assumes "\<forall>p \<in> set xs. CHR 0x1F \<notin> set p" and "\<forall>p \<in> set ys. CHR 0x1F \<notin> set p"
  shows "derive_name pfx xs = derive_name pfx ys \<longleftrightarrow> xs = ys"
  using derive_name_nth_sep [OF assms] by (auto simp: derive_name_def)

theorem derive_name_injective_witness:
  "derive_name ''ses_'' [''codex'', ''1''] \<noteq> derive_name ''ses_'' [''codex'', ''2'']"
  using derive_name_injective [of "[''codex'', ''1'']" "[''codex'', ''2'']" "''ses_''"] by simp

end
