(* ===== verification/Wal.thy ===== *)
theory Wal
  imports Event
begin

text \<open>
  The write-ahead log (\<open>attemptdb-storage/src/wal.rs\<close>): numbered framed files in one directory.
  The directory is the association list of its file names and contents, in the (arbitrary) order
  the operating system lists it. Opening replays every file, oldest first; appends go to the
  highest-numbered one; rotation starts the next; truncation deletes the files that a durable
  manifest generation covers.

  Parameters: \<open>crc\<close> and read faults as for framed files (one fault predicate per file), and the
  JSON decoder \<open>from_slice\<close>. Failures of the operating system are arguments of each operation.
\<close>

section \<open>Definitions\<close>

type_synonym dir = "(string \<times> u8 list) list"

record Wal =
  wal_active :: FrameWriter
  wal_active_number :: nat

record WalRecovery =
  wr_events :: "Event list"
  wr_files_scanned :: nat
  wr_truncated_files :: "string list"
  wr_undecodable_records :: nat

definition WalRecovery_default :: WalRecovery where
  "WalRecovery_default =
     \<lparr>wr_events = [], wr_files_scanned = 0, wr_truncated_files = [], wr_undecodable_records = 0\<rparr>"

definition wal_file_name :: "nat \<Rightarrow> string" where
  "wal_file_name n = pad6 n @ ''.wal''"

definition wal_number_of :: "string \<Rightarrow> nat option" where
  "wal_number_of name = Option.bind (strip_suffix ''.wal'' name) parse_u64"

definition list_numbers :: "dir \<Rightarrow> nat list" where
  "list_numbers d = List.map_filter (\<lambda>e. wal_number_of (fst e)) d"

text \<open>The loop over the records of one file: events decoded, and how many did not decode.\<close>

fun decode_records :: "(u8 list \<Rightarrow> unit + Event) \<Rightarrow> Record list \<Rightarrow> Event list \<times> nat" where
  "decode_records from_slice [] = ([], 0)"
| "decode_records from_slice (r # rs) =
     (let (evs, bad) = decode_records from_slice rs in
      if r_type r = record_type_EVENT then
        (case Record_decode_event (decode_event from_slice) r of
           Ok ev \<Rightarrow> (ev # evs, bad)
         | Err _ \<Rightarrow> (evs, bad + 1))
      else (evs, bad))"

text \<open>One file of \<open>scan_dir\<close>.\<close>

definition scan_wal_file ::
  "(u8 list \<Rightarrow> u32) \<Rightarrow> (string \<Rightarrow> nat \<Rightarrow> bool) \<Rightarrow> (u8 list \<Rightarrow> unit + Event) \<Rightarrow> dir \<Rightarrow> nat \<Rightarrow> WalRecovery \<Rightarrow>
   storage_error + WalRecovery"
where
  "scan_wal_file crc flt from_slice d n rec =
     (let path = wal_file_name n;
          rec1 = rec\<lparr>wr_files_scanned := wr_files_scanned rec + 1\<rparr>
      in case map_of d path of
           None \<Rightarrow> Err (Io NotFound)
         | Some bytes \<Rightarrow>
             if length bytes < FILE_HEADER_LEN then
               Ok (rec1\<lparr>wr_truncated_files := wr_truncated_files rec @ [path]\<rparr>)
             else
               (case scan crc (flt path) bytes MAGIC_WAL of
                  Err e \<Rightarrow> Err e
                | Ok sc \<Rightarrow>
                    (let (evs, bad) = decode_records from_slice (sc_records sc) in
                     Ok (rec1\<lparr>wr_truncated_files :=
                                (if sc_truncated_at sc \<noteq> None then wr_truncated_files rec @ [path]
                                 else wr_truncated_files rec),
                              wr_events := wr_events rec @ evs,
                              wr_undecodable_records := wr_undecodable_records rec + bad\<rparr>))))"

fun scan_numbers ::
  "(u8 list \<Rightarrow> u32) \<Rightarrow> (string \<Rightarrow> nat \<Rightarrow> bool) \<Rightarrow> (u8 list \<Rightarrow> unit + Event) \<Rightarrow> dir \<Rightarrow> nat list \<Rightarrow> WalRecovery \<Rightarrow>
   storage_error + WalRecovery"
where
  "scan_numbers crc flt from_slice d [] rec = Ok rec"
| "scan_numbers crc flt from_slice d (n # ns) rec =
     (case scan_wal_file crc flt from_slice d n rec of
        Err e \<Rightarrow> Err e
      | Ok rec' \<Rightarrow> scan_numbers crc flt from_slice d ns rec')"

definition scan_dir ::
  "(u8 list \<Rightarrow> u32) \<Rightarrow> (string \<Rightarrow> nat \<Rightarrow> bool) \<Rightarrow> (u8 list \<Rightarrow> unit + Event) \<Rightarrow> dir \<Rightarrow>
   storage_error + WalRecovery \<times> nat"
where
  "scan_dir crc flt from_slice d =
     (let numbers = sort (list_numbers d) in
      case scan_numbers crc flt from_slice d numbers WalRecovery_default of
        Err e \<Rightarrow> Err e
      | Ok rec \<Rightarrow> Ok (rec, if numbers = [] then 1 else last numbers))"

definition dir_get :: "dir \<Rightarrow> string \<Rightarrow> u8 list" where
  "dir_get d name = (case map_of d name of Some bs \<Rightarrow> bs | None \<Rightarrow> [])"

definition dir_set :: "(string \<times> 'v) list \<Rightarrow> string \<Rightarrow> 'v \<Rightarrow> (string \<times> 'v) list" where
  "dir_set d name bs =
     (if name \<in> fst ` set d then map (\<lambda>(k, v). if k = name then (k, bs) else (k, v)) d
      else d @ [(name, bs)])"

definition Wal_open ::
  "(u8 list \<Rightarrow> u32) \<Rightarrow> (string \<Rightarrow> nat \<Rightarrow> bool) \<Rightarrow> (u8 list \<Rightarrow> unit + Event) \<Rightarrow> FileHeader \<Rightarrow> dir \<Rightarrow>
   storage_error + Wal \<times> WalRecovery \<times> dir"
where
  "Wal_open crc flt from_slice fresh d =
     (case scan_dir crc flt from_slice d of
        Err e \<Rightarrow> Err e
      | Ok (recovery, active_number) \<Rightarrow>
          (let path = wal_file_name active_number in
           case FrameWriter_open crc (flt path) fresh (dir_get d path) MAGIC_WAL of
             Err e \<Rightarrow> Err e
           | Ok (active, file) \<Rightarrow>
               Ok (\<lparr>wal_active = active, wal_active_number = active_number\<rparr>, recovery,
                   dir_set d path file)))"

text \<open>\<open>Wal::scan\<close>; \<open>None\<close> is a directory that does not exist.\<close>

definition Wal_scan ::
  "(u8 list \<Rightarrow> u32) \<Rightarrow> (string \<Rightarrow> nat \<Rightarrow> bool) \<Rightarrow> (u8 list \<Rightarrow> unit + Event) \<Rightarrow> dir option \<Rightarrow>
   storage_error + WalRecovery"
where
  "Wal_scan crc flt from_slice d =
     (case d of
        None \<Rightarrow> Ok WalRecovery_default
      | Some d \<Rightarrow> (case scan_dir crc flt from_slice d of Err e \<Rightarrow> Err e | Ok (r, _) \<Rightarrow> Ok r))"

definition Wal_append_records ::
  "(u8 list \<Rightarrow> u32) \<Rightarrow> write_io \<Rightarrow> Wal \<Rightarrow> dir \<Rightarrow> Record list \<Rightarrow> (storage_error + nat) \<times> Wal \<times> dir"
where
  "Wal_append_records crc io w d records =
     (let bytes = sum_list (map encoded_len records);
          path = wal_file_name (wal_active_number w);
          (res, active, file) = FrameWriter_append crc io (wal_active w) (dir_get d path) records
      in (case res of Err e \<Rightarrow> Err e | Ok _ \<Rightarrow> Ok bytes, w\<lparr>wal_active := active\<rparr>, dir_set d path file))"

fun collect_records :: "(Event \<Rightarrow> unit + u8 list) \<Rightarrow> Event list \<Rightarrow> storage_error + Record list" where
  "collect_records to_vec [] = Ok []"
| "collect_records to_vec (ev # evs) =
     (case Record_event (encode_event to_vec) ev of
        Err e \<Rightarrow> Err e
      | Ok r \<Rightarrow> (case collect_records to_vec evs of Err e \<Rightarrow> Err e | Ok rs \<Rightarrow> Ok (r # rs)))"

definition Wal_append ::
  "(u8 list \<Rightarrow> u32) \<Rightarrow> (Event \<Rightarrow> unit + u8 list) \<Rightarrow> write_io \<Rightarrow> Wal \<Rightarrow> dir \<Rightarrow> Event list \<Rightarrow>
   (storage_error + nat) \<times> Wal \<times> dir"
where
  "Wal_append crc to_vec io w d events =
     (case collect_records to_vec events of
        Err e \<Rightarrow> (Err e, w, d)
      | Ok records \<Rightarrow> Wal_append_records crc io w d records)"

datatype rotate_fault = RotateOk | RotateSyncFails | RotateDirSyncFails

definition Wal_rotate ::
  "(u8 list \<Rightarrow> u32) \<Rightarrow> (string \<Rightarrow> nat \<Rightarrow> bool) \<Rightarrow> rotate_fault \<Rightarrow> FileHeader \<Rightarrow> Wal \<Rightarrow> dir \<Rightarrow>
   (storage_error + unit) \<times> Wal \<times> dir"
where
  "Wal_rotate crc flt fault fresh w d =
     (let next_number = wal_active_number w + 1;
          path = wal_file_name next_number
      in if fault = RotateSyncFails then (Err (Io OtherIo), w, d)
         else case FrameWriter_open crc (flt path) fresh (dir_get d path) MAGIC_WAL of
             Err e \<Rightarrow> (Err e, w, d)
           | Ok (active, file) \<Rightarrow>
               (if fault = RotateDirSyncFails then Err (Io OtherIo) else Ok (),
                \<lparr>wal_active = active, wal_active_number = next_number\<rparr>, dir_set d path file))"

text \<open>The loop of \<open>truncate_before\<close>; \<open>rmfail\<close> says for which numbers the deletion fails.\<close>

fun remove_numbers :: "(nat \<Rightarrow> bool) \<Rightarrow> nat \<Rightarrow> nat list \<Rightarrow> nat \<Rightarrow> dir \<Rightarrow> (storage_error + nat) \<times> dir" where
  "remove_numbers rmfail keep_from [] removed d = (Ok removed, d)"
| "remove_numbers rmfail keep_from (n # ns) removed d =
     (if n < keep_from then
        (if rmfail n then (Err (Io OtherIo), d)
         else if map_of d (wal_file_name n) = None then (Err (Io NotFound), d)
         else remove_numbers rmfail keep_from ns (removed + 1)
                (filter (\<lambda>e. fst e \<noteq> wal_file_name n) d))
      else remove_numbers rmfail keep_from ns removed d)"

definition truncate_before :: "(nat \<Rightarrow> bool) \<Rightarrow> bool \<Rightarrow> nat \<Rightarrow> dir \<Rightarrow> (storage_error + nat) \<times> dir" where
  "truncate_before rmfail sync_ok keep_from d =
     (case remove_numbers rmfail keep_from (list_numbers d) 0 d of
        (Err e, d') \<Rightarrow> (Err e, d')
      | (Ok removed, d') \<Rightarrow>
          (if removed > 0 \<and> \<not> sync_ok then Err (Io OtherIo) else Ok removed, d'))"

section \<open>File names\<close>

lemma wal_number_of_file_name: "n < 2 ^ 64 \<Longrightarrow> wal_number_of (wal_file_name n) = Some n"
  by (simp add: wal_number_of_def wal_file_name_def parse_u64_pad6)

lemma wal_file_name_inject: "m < 2 ^ 64 \<Longrightarrow> n < 2 ^ 64 \<Longrightarrow> wal_file_name m = wal_file_name n \<longleftrightarrow> m = n"
  by (simp add: wal_file_name_def pad6_inject)

section \<open>Directories as the writer leaves them\<close>

text \<open>A file the writer made: shorter than a header, or a well-formed header and any bytes after it.\<close>

definition wal_file_ok :: "u8 list \<Rightarrow> bool" where
  "wal_file_ok file \<longleftrightarrow>
     length file < FILE_HEADER_LEN \<or>
     (\<exists>h cs. header_ok MAGIC_WAL h \<and> file = FileHeader_encode h @ cs)"

definition wal_dir_ok :: "dir \<Rightarrow> bool" where
  "wal_dir_ok d \<longleftrightarrow>
     distinct (map fst d) \<and>
     (\<forall>e \<in> set d. (\<exists>n < 2 ^ 64. fst e = wal_file_name n) \<and> wal_file_ok (snd e))"

text \<open>The events a replay reads from one file, and from all files in the order of their numbers.\<close>

definition file_events :: "(u8 list \<Rightarrow> u32) \<Rightarrow> (u8 list \<Rightarrow> unit + Event) \<Rightarrow> u8 list \<Rightarrow> Event list" where
  "file_events crc from_slice file =
     (if length file < FILE_HEADER_LEN then []
      else fst (decode_records from_slice (frame_parse crc (drop FILE_HEADER_LEN file))))"

definition wal_events :: "(u8 list \<Rightarrow> u32) \<Rightarrow> (u8 list \<Rightarrow> unit + Event) \<Rightarrow> dir \<Rightarrow> Event list" where
  "wal_events crc from_slice d =
     concat (map (\<lambda>n. file_events crc from_slice (dir_get d (wal_file_name n))) (sort (list_numbers d)))"

lemma decode_records_map:
  assumes "\<And>r. r_type (g r) = r_type r \<and> r_codec (g r) = r_codec r \<and> r_payload (g r) = r_payload r"
  shows "decode_records f (map g rs) = decode_records f rs"
proof -
  have same: "Record_decode_event (decode_event f) (g r) = Record_decode_event (decode_event f) r" for r
    using assms by (simp add: Record_decode_event_def)
  show ?thesis
    by (induction rs) (simp_all add: same assms case_prod_beta Let_def)
qed

lemma decode_records_append:
  "decode_records f (rs @ ss) =
    (fst (decode_records f rs) @ fst (decode_records f ss), snd (decode_records f rs) + snd (decode_records f ss))"
  by (induction rs) (auto simp: case_prod_beta Let_def split: sum.splits)

lemma scan_wal_file_events:
  assumes "map_of d (wal_file_name n) = Some file" and "wal_file_ok file"
  shows "\<exists>rec'. scan_wal_file crc (\<lambda>_. no_fault) f d n rec = Ok rec' \<and>
    wr_events rec' = wr_events rec @ file_events crc f file \<and>
    wr_files_scanned rec' = wr_files_scanned rec + 1"
proof (cases "length file < FILE_HEADER_LEN")
  case True
  then show ?thesis
    using assms(1) by (simp add: scan_wal_file_def file_events_def)
next
  case False
  then obtain h cs where h: "header_ok MAGIC_WAL h" "file = FileHeader_encode h @ cs"
    using assms(2) by (auto simp: wal_file_ok_def)
  obtain rs v t where loop: "scan_loop crc no_fault cs 0 = (rs, v, t)"
    by (cases "scan_loop crc no_fault cs 0")
  have len: "length (FileHeader_encode h) = FILE_HEADER_LEN"
    using h(1) by simp
  have sc: "scan crc no_fault file MAGIC_WAL =
      Ok \<lparr>sc_header = h, sc_records = map (shift_record FILE_HEADER_LEN) rs,
          sc_valid_len = FILE_HEADER_LEN + v, sc_truncated_at = map_option ((+) FILE_HEADER_LEN) t,
          sc_total_len = FILE_HEADER_LEN + length cs\<rparr>"
    using scan_from_header [OF h(1), of no_fault crc cs FILE_HEADER_LEN]
      scan_loop_shift [of crc "FileHeader_encode h" cs 0] loop len h(2)
    by (simp add: scan_def)
  have "decode_records f (map (shift_record FILE_HEADER_LEN) rs) = decode_records f rs"
    by (rule decode_records_map) (simp add: shift_record_def)
  moreover have "decode_records f (frame_parse crc cs) = decode_records f rs"
    unfolding frame_parse_def loop by (simp add: decode_records_map)
  ultimately show ?thesis
    using assms(1) False sc h(2) len
    by (simp add: scan_wal_file_def file_events_def case_prod_beta Let_def)
qed

lemma scan_numbers_events:
  assumes "\<forall>n \<in> set ns. \<exists>file. map_of d (wal_file_name n) = Some file \<and> wal_file_ok file"
  shows "\<exists>rec'. scan_numbers crc (\<lambda>_. no_fault) f d ns rec = Ok rec' \<and>
    wr_events rec' =
      wr_events rec @ concat (map (\<lambda>n. file_events crc f (dir_get d (wal_file_name n))) ns) \<and>
    wr_files_scanned rec' = wr_files_scanned rec + length ns"
  using assms
proof (induction ns arbitrary: rec)
  case (Cons n ns)
  then obtain bs where bs: "map_of d (wal_file_name n) = Some bs" "wal_file_ok bs"
    by auto
  from scan_wal_file_events [OF this] obtain rec1 where
    one: "scan_wal_file crc (\<lambda>_. no_fault) f d n rec = Ok rec1"
      "wr_events rec1 = wr_events rec @ file_events crc f bs"
      "wr_files_scanned rec1 = wr_files_scanned rec + 1"
    by blast
  from Cons obtain rec2 where
    "scan_numbers crc (\<lambda>_. no_fault) f d ns rec1 = Ok rec2"
    "wr_events rec2 =
      wr_events rec1 @ concat (map (\<lambda>n. file_events crc f (dir_get d (wal_file_name n))) ns)"
    "wr_files_scanned rec2 = wr_files_scanned rec1 + length ns"
    by (metis list.set_intros(2))
  with one bs show ?case
    by (simp add: dir_get_def)
qed simp

lemma list_numbers_ok:
  assumes "wal_dir_ok d"
  shows "list_numbers d = map (\<lambda>e. the (wal_number_of (fst e))) d"
    and "distinct (list_numbers d)"
    and "n \<in> set (list_numbers d) \<longleftrightarrow> n < 2 ^ 64 \<and> wal_file_name n \<in> fst ` set d"
proof -
  have num: "\<exists>n < 2 ^ 64. fst e = wal_file_name n \<and> wal_number_of (fst e) = Some n" if "e \<in> set d" for e
    using assms that wal_number_of_file_name by (fastforce simp: wal_dir_ok_def)
  show eq: "list_numbers d = map (\<lambda>e. the (wal_number_of (fst e))) d"
    unfolding list_numbers_def using num
    by (induction d) (force simp: List.map_filter_simps)+
  have "inj_on (\<lambda>e. the (wal_number_of (fst e))) (set d)"
  proof (rule inj_onI)
    fix x y
    assume xy: "x \<in> set d" "y \<in> set d" "the (wal_number_of (fst x)) = the (wal_number_of (fst y))"
    then have "fst x = fst y"
      using num [OF xy(1)] num [OF xy(2)] by auto
    then show "x = y"
      using assms xy(1,2) unfolding wal_dir_ok_def by (meson eq_key_imp_eq_value prod_eqI distinct_map inj_onD)
  qed
  then show "distinct (list_numbers d)"
    using assms by (auto simp: eq distinct_map wal_dir_ok_def)
  show "n \<in> set (list_numbers d) \<longleftrightarrow> n < 2 ^ 64 \<and> wal_file_name n \<in> fst ` set d"
    unfolding eq using num wal_number_of_file_name by (force simp: image_iff)
qed

lemma dir_member:
  assumes "wal_dir_ok d" and "n \<in> set (list_numbers d)"
  shows "\<exists>file. map_of d (wal_file_name n) = Some file \<and> wal_file_ok file"
proof -
  obtain bs where "(wal_file_name n, bs) \<in> set d"
    using list_numbers_ok(3) [OF assms(1), of n] assms(2) by auto
  then show ?thesis
    using assms(1) by (force simp: wal_dir_ok_def)
qed

lemma newest_mem: "list_numbers d \<noteq> [] \<Longrightarrow> last (sort (list_numbers d)) \<in> set (list_numbers d)"
  by (metis last_in_set length_0_conv length_sort set_sort)

lemma dir_bytes_ok:
  assumes "wal_dir_ok d"
  shows "wal_file_ok (dir_get d name)"
proof (cases "map_of d name")
  case (Some bs)
  then have "(name, bs) \<in> set d"
    by (rule map_of_SomeD)
  then show ?thesis
    using bspec [OF conjunct2 [OF assms [unfolded wal_dir_ok_def]]] Some by (fastforce simp: dir_get_def)
qed (simp add: dir_get_def wal_file_ok_def FILE_HEADER_LEN_def)

lemma scan_dir_events:
  assumes "wal_dir_ok d"
  shows "\<exists>rec. scan_dir crc (\<lambda>_. no_fault) f d =
      Ok (rec, if list_numbers d = [] then 1 else last (sort (list_numbers d))) \<and>
    wr_events rec = wal_events crc f d \<and> wr_files_scanned rec = length d"
proof -
  have "\<forall>n \<in> set (sort (list_numbers d)). \<exists>file. map_of d (wal_file_name n) = Some file \<and> wal_file_ok file"
    using dir_member [OF assms] by simp
  from scan_numbers_events [OF this, of crc f WalRecovery_default] show ?thesis
    using list_numbers_ok(1) [OF assms]
    by (auto simp: scan_dir_def wal_events_def WalRecovery_default_def Let_def)
qed

section \<open>Updating one file\<close>

lemma map_of_dir_set [simp]: "map_of (dir_set d name bs) = (map_of d)(name \<mapsto> bs)"
proof (cases "name \<in> fst ` set d")
  case True
  have "map_of (map (\<lambda>(k, v). if k = name then (k, bs) else (k, v)) d) k =
      (if k = name \<and> map_of d k \<noteq> None then Some bs else map_of d k)" for k
    by (induction d) auto
  moreover have "map_of d name \<noteq> None"
    using True by (simp add: map_of_eq_None_iff)
  ultimately show ?thesis
    using True by (auto simp: dir_set_def)
next
  case False
  then have "map_of d name = None"
    by (simp add: map_of_eq_None_iff)
  then show ?thesis
    using False by (auto simp: dir_set_def map_add_def split: option.splits)
qed

lemma dir_get_set [simp]:
  "dir_get (dir_set d name bs) name = bs"
  "name \<noteq> name' \<Longrightarrow> dir_get (dir_set d name bs) name' = dir_get d name'"
  by (simp_all add: dir_get_def)

lemma list_numbers_set:
  "name \<in> fst ` set d \<Longrightarrow> list_numbers (dir_set d name bs) = list_numbers d"
  by (simp add: dir_set_def list_numbers_def List.map_filter_def comp_def case_prod_beta filter_map
      if_distrib cong: if_cong)

lemma wal_dir_ok_set:
  assumes "wal_dir_ok d" and "n < 2 ^ 64" and "wal_file_ok bs"
  shows "wal_dir_ok (dir_set d (wal_file_name n) bs)"
proof (cases "wal_file_name n \<in> fst ` set d")
  case True
  have "map fst (map (\<lambda>(k, v). if k = wal_file_name n then (k, bs) else (k, v)) d) = map fst d"
    by (induction d) auto
  moreover have "(\<exists>n < 2 ^ 64. fst e = wal_file_name n) \<and> wal_file_ok (snd e)"
    if e: "e \<in> set (map (\<lambda>(k, v). if k = wal_file_name n then (k, bs) else (k, v)) d)" for e
  proof -
    obtain k v where kv: "(k, v) \<in> set d" "e = (if k = wal_file_name n then (k, bs) else (k, v))"
      using e by auto
    then have "fst e = k" "snd e = v \<or> snd e = bs"
      by (auto split: if_splits)
    moreover have "(\<exists>n < 2 ^ 64. k = wal_file_name n) \<and> wal_file_ok v"
      using bspec [OF conjunct2 [OF assms(1) [unfolded wal_dir_ok_def]] kv(1)] by simp
    ultimately show ?thesis
      using assms(3) by metis
  qed
  ultimately show ?thesis
    using True assms(1) unfolding wal_dir_ok_def dir_set_def by (simp only: if_True) blast
next
  case False
  then show ?thesis
    using assms by (auto simp: wal_dir_ok_def dir_set_def)
qed

lemma wal_events_active:
  assumes "wal_dir_ok d" and "list_numbers d \<noteq> []" and "a = last (sort (list_numbers d))"
  shows "\<exists>older. \<forall>bs. wal_events crc f (dir_set d (wal_file_name a) bs) = older @ file_events crc f bs \<and>
    wal_events crc f d = older @ file_events crc f (dir_get d (wal_file_name a))"
proof -
  obtain ms where ms: "sort (list_numbers d) = ms @ [a]"
    using assms(2,3) by (metis append_butlast_last_id length_0_conv length_sort)
  have a: "a \<in> set (list_numbers d)" and dist: "distinct (ms @ [a])"
    using ms list_numbers_ok(2) [OF assms(1)] by (metis in_set_conv_decomp set_sort, metis distinct_sort)
  then have mem: "wal_file_name a \<in> fst ` set d" and a64: "a < 2 ^ 64"
    using list_numbers_ok(3) [OF assms(1)] by blast+
  have "wal_file_name a \<noteq> wal_file_name n" if "n \<in> set ms" for n
  proof -
    have "n \<in> set (list_numbers d)"
      using that ms by (metis Un_iff set_append set_sort)
    then have "n < 2 ^ 64"
      using list_numbers_ok(3) [OF assms(1)] by blast
    then show ?thesis
      using that dist a64 by (auto simp: wal_file_name_inject)
  qed
  then have "concat (map (\<lambda>n. file_events crc f (dir_get (dir_set d (wal_file_name a) bs) (wal_file_name n))) ms) =
      concat (map (\<lambda>n. file_events crc f (dir_get d (wal_file_name n))) ms)" for bs
    by (intro arg_cong [where f = concat] map_cong) simp_all
  then show ?thesis
    unfolding wal_events_def list_numbers_set [OF mem] ms by simp
qed

section \<open>The writer's invariant\<close>

definition wal_ok :: "(u8 list \<Rightarrow> u32) \<Rightarrow> Wal \<Rightarrow> dir \<Rightarrow> bool" where
  "wal_ok crc w d \<longleftrightarrow>
     wal_dir_ok d \<and> list_numbers d \<noteq> [] \<and> wal_active_number w = last (sort (list_numbers d)) \<and>
     (\<exists>h olds. header_ok MAGIC_WAL h \<and> (\<forall>r \<in> set olds. log_record r) \<and>
        dir_get d (wal_file_name (wal_active_number w)) = FileHeader_encode h @ encode_records crc olds \<and>
        fw_len (wal_active w) = FILE_HEADER_LEN + length (encode_records crc olds))"

lemma file_events_header:
  "header_ok magic h \<Longrightarrow>
   file_events crc f (FileHeader_encode h @ cs) = fst (decode_records f (frame_parse crc cs))"
  by (simp add: file_events_def)

lemma frame_parse_enc:
  "\<forall>r \<in> set rs. log_record r \<Longrightarrow> frame_parse crc (encode_records crc rs) = rs"
  using fl.parse_enc [of rs crc] by (simp add: encode_records_def)

lemma wal_file_ok_header: "header_ok MAGIC_WAL h \<Longrightarrow> wal_file_ok (FileHeader_encode h @ cs)"
  by (auto simp: wal_file_ok_def)

text \<open>What opening the active file does: the events stay, and the file ends on a record boundary.\<close>

lemma open_active:
  assumes "wal_file_ok bs" and "header_ok MAGIC_WAL fresh"
  shows "\<exists>h olds. FrameWriter_open crc no_fault fresh bs MAGIC_WAL =
      Ok (\<lparr>fw_header = h, fw_len = FILE_HEADER_LEN + length (encode_records crc olds)\<rparr>,
          FileHeader_encode h @ encode_records crc olds) \<and>
    header_ok MAGIC_WAL h \<and> (\<forall>r \<in> set olds. log_record r) \<and>
    file_events crc f (FileHeader_encode h @ encode_records crc olds) = file_events crc f bs"
proof (cases "length bs < FILE_HEADER_LEN")
  case True
  have "frame_parse crc [] = []"
    using frame_parse_enc [of "[]"] by simp
  then have "file_events crc f (FileHeader_encode fresh @ []) = []"
    using assms(2) file_events_header [of MAGIC_WAL fresh crc f "[]"] by simp
  then show ?thesis
    using True assms(2)
    by (intro exI [of _ fresh] exI [of _ "[]"])
      (simp add: FrameWriter_open_def open_trusted_def file_events_def)
next
  case False
  then obtain h cs where h: "header_ok MAGIC_WAL h" "bs = FileHeader_encode h @ cs"
    using assms(1) by (auto simp: wal_file_ok_def)
  obtain rs v t where "scan_loop crc no_fault cs 0 = (rs, v, t)"
    by (cases "scan_loop crc no_fault cs 0")
  then have logs: "\<forall>r \<in> set (frame_parse crc cs). log_record r"
    by (rule scan_loop_parse(4))
  then show ?thesis
    using open_parse [OF h(1), of crc fresh cs] h
      file_events_header [OF h(1), of crc f "encode_records crc (frame_parse crc cs)"]
      file_events_header [OF h(1), of crc f cs] frame_parse_enc [OF logs, of crc]
    by (intro exI [of _ h] exI [of _ "frame_parse crc cs"]) simp
qed

section \<open>Theorems\<close>

text \<open>The events a codec reads back as they were written.\<close>

definition codec_ok :: "(Event \<Rightarrow> unit + u8 list) \<Rightarrow> (u8 list \<Rightarrow> unit + Event) \<Rightarrow> Event list \<Rightarrow> bool" where
  "codec_ok to_vec from_slice evs \<longleftrightarrow>
     (\<forall>ev \<in> set evs. ev_schema_version ev = CANONICAL_SCHEMA_VERSION \<and>
        (\<forall>bs. to_vec ev = Inr bs \<longrightarrow> from_slice bs = Inr ev))"

lemma Record_event_Ok:
  assumes "Record_event (encode_event to_vec) ev = Ok r"
  shows "log_record r \<and> r_type r = record_type_EVENT \<and> r_codec r = CodecId_Json \<and>
    to_vec ev = Inr (r_payload r) \<and> length (r_payload r) \<le> MAX_RECORD_PAYLOAD"
  using assms
  by (auto simp: Record_event_def encode_event_def check_payload_len_def log_record_def valid_record_def
      record_type_EVENT_def split: sum.splits if_splits)

lemma collect_records_Ok:
  assumes "collect_records to_vec evs = Ok rs" and "codec_ok to_vec from_slice evs"
  shows "length rs = length evs \<and> (\<forall>r \<in> set rs. log_record r) \<and> check_payloads rs = Ok () \<and>
    (\<forall>n. fst (decode_records from_slice (take n rs)) = take n evs)"
  using assms
proof (induction evs arbitrary: rs)
  case (Cons ev evs)
  then obtain r rs' where r: "Record_event (encode_event to_vec) ev = Ok r"
    "collect_records to_vec evs = Ok rs'" "rs = r # rs'"
    by (auto split: sum.splits)
  note rok = Record_event_Ok [OF r(1)]
  have codec: "from_slice (r_payload r) = Inr ev" "codec_ok to_vec from_slice evs"
    "ev_schema_version ev = CANONICAL_SCHEMA_VERSION"
    using Cons.prems(2) rok by (auto simp: codec_ok_def)
  have "Record_decode_event (decode_event from_slice) r = Ok ev"
    using rok codec
    by (simp add: Record_decode_event_def decode_event_def MIN_READABLE_SCHEMA_VERSION_def
        CANONICAL_SCHEMA_VERSION_def)
  with Cons.IH [OF r(2) codec(2)] rok show ?case
    by (auto simp: r(3) take_Cons' check_payload_len_def case_prod_beta Let_def)
qed (simp add: codec_ok_def)

lemma Wal_open_effect:
  assumes "wal_dir_ok d" and "header_ok MAGIC_WAL fresh"
  shows "\<exists>w rec d'. Wal_open crc (\<lambda>_ _. False) from_slice fresh d = Ok (w, rec, d') \<and>
    wr_events rec = wal_events crc from_slice d \<and>
    wal_events crc from_slice d' = wal_events crc from_slice d \<and> wal_ok crc w d'"
proof -
  let ?a = "if list_numbers d = [] then 1 else last (sort (list_numbers d))"
  let ?path = "wal_file_name ?a"
  obtain rec where rec: "scan_dir crc (\<lambda>_. no_fault) from_slice d = Ok (rec, ?a)"
    "wr_events rec = wal_events crc from_slice d"
    using scan_dir_events [OF assms(1)] by blast
  have a64: "?a < 2 ^ 64"
    using list_numbers_ok(3) [OF assms(1), of "last (sort (list_numbers d))"] newest_mem [of d] by simp
  have "wal_file_ok (dir_get d ?path)"
    using dir_bytes_ok [OF assms(1)] by blast
  from open_active [OF this assms(2), of crc from_slice] obtain h olds where
    op: "FrameWriter_open crc no_fault fresh (dir_get d ?path) MAGIC_WAL =
      Ok (\<lparr>fw_header = h, fw_len = FILE_HEADER_LEN + length (encode_records crc olds)\<rparr>,
          FileHeader_encode h @ encode_records crc olds)"
    and h: "header_ok MAGIC_WAL h" "\<forall>r \<in> set olds. log_record r"
    and same: "file_events crc from_slice (FileHeader_encode h @ encode_records crc olds) =
      file_events crc from_slice (dir_get d ?path)"
    by blast
  let ?file = "FileHeader_encode h @ encode_records crc olds"
  let ?d = "dir_set d ?path ?file"
  have evs: "wal_events crc from_slice ?d = wal_events crc from_slice d \<and> list_numbers ?d \<noteq> [] \<and>
      ?a = last (sort (list_numbers ?d))"
  proof (cases "list_numbers d = []")
    case True
    then have "d = []"
      using list_numbers_ok(1) [OF assms(1)] by simp
    moreover have "file_events crc from_slice [] = []"
      by (simp add: file_events_def FILE_HEADER_LEN_def)
    ultimately show ?thesis
      using same wal_number_of_file_name [of 1] True
      by (simp add: wal_events_def dir_set_def list_numbers_def List.map_filter_simps dir_get_def)
  next
    case False
    have "?path \<in> fst ` set d"
      using False list_numbers_ok(3) [OF assms(1), of "last (sort (list_numbers d))"] newest_mem [of d]
      by simp
    then show ?thesis
      using False wal_events_active [OF assms(1) False refl, of crc from_slice] same
      by (auto simp: list_numbers_set)
  qed
  have "wal_ok crc \<lparr>wal_active = \<lparr>fw_header = h, fw_len = FILE_HEADER_LEN + length (encode_records crc olds)\<rparr>,
      wal_active_number = ?a\<rparr> ?d"
    unfolding wal_ok_def
    using evs h wal_dir_ok_set [OF assms(1) a64 wal_file_ok_header [OF h(1)]] by auto
  then show ?thesis
    using rec op evs by (simp add: Wal_open_def)
qed

text \<open>
  C10: opening a write-ahead log succeeds on every directory the writer can have left behind (files
  cut anywhere, files without a header, listed in any order), recovers every event of every file in
  the order of the file numbers, loses none of them by truncating the active file, and leaves the
  log ready for appends.
\<close>

theorem Wal_open_recovers:
  assumes "wal_dir_ok d" and "header_ok MAGIC_WAL fresh"
  shows "\<exists>w rec d'. Wal_open crc (\<lambda>_ _. False) from_slice fresh d = Ok (w, rec, d') \<and>
    wr_events rec = wal_events crc from_slice d \<and>
    wal_events crc from_slice d' = wal_events crc from_slice d \<and> wal_ok crc w d'"
  by (rule Wal_open_effect [OF assms])

text \<open>A power loss that keeps \<open>n\<close> bytes of the active file.\<close>

definition crash_active :: "Wal \<Rightarrow> nat \<Rightarrow> dir \<Rightarrow> dir" where
  "crash_active w n d =
     dir_set d (wal_file_name (wal_active_number w)) (take n (dir_get d (wal_file_name (wal_active_number w))))"

lemma dir_set_twice: "dir_set (dir_set d name x) name y = dir_set d name y"
proof (cases "name \<in> fst ` set d")
  case True
  then have "name \<in> fst ` set (map (\<lambda>(k, v). if k = name then (k, x) else (k, v)) d)"
    by force
  with True show ?thesis
    by (auto simp: dir_set_def)
next
  case False
  then have "map (\<lambda>(k, v). if k = name then (k, y) else (k, v)) d = d"
    by (intro map_idI) (auto simp: image_iff)
  with False show ?thesis
    by (simp add: dir_set_def)
qed

lemma dir_set_same: "distinct (map fst d) \<Longrightarrow> map_of d name = Some bs \<Longrightarrow> dir_set d name bs = d"
proof -
  assume d: "distinct (map fst d)" "map_of d name = Some bs"
  then have "map (\<lambda>(k, v). if k = name then (k, bs) else (k, v)) d = d"
    by (intro map_idI) (auto dest: map_of_SomeD eq_key_imp_eq_value)
  moreover have "name \<in> fst ` set d"
    using map_of_SomeD [OF d(2)] by force
  ultimately show ?thesis
    by (simp add: dir_set_def)
qed

lemma collect_records_Err:
  "collect_records to_vec evs = Err e \<Longrightarrow> \<exists>ev \<in> set evs. \<exists>e. Record_event (encode_event to_vec) ev = Err e"
  by (induction evs arbitrary: e) (auto split: sum.splits)

text \<open>The active file with the records \<open>rs\<close> appended and cut at \<open>n\<close>: a prefix of them survives.\<close>

lemma file_events_cut:
  assumes "header_ok MAGIC_WAL h" and "\<forall>r \<in> set (olds @ rs). log_record r"
    and "\<forall>n. fst (decode_records f (take n rs)) = take n evs" and "length rs = length evs"
    and "FILE_HEADER_LEN + length (encode_records crc olds) \<le> n"
  shows "\<exists>ks. prefix ks evs \<and>
    file_events crc f (take n (FileHeader_encode h @ encode_records crc (olds @ rs))) =
      file_events crc f (FileHeader_encode h @ encode_records crc olds) @ ks \<and>
    (FILE_HEADER_LEN + length (encode_records crc (olds @ rs)) \<le> n \<longrightarrow> ks = evs)"
proof -
  define cs where "cs = take (n - FILE_HEADER_LEN - length (encode_records crc olds)) (encode_records crc rs)"
  have cut: "take n (FileHeader_encode h @ encode_records crc (olds @ rs)) =
      FileHeader_encode h @ encode_records crc olds @ cs"
    using assms(1,5) by (simp add: cs_def)
  have cs: "prefix cs (concat (map (encode_record crc) rs))"
    by (simp add: cs_def take_is_prefix encode_records_def)
  have "prefix (frame_parse crc cs) rs"
    using fl.parse_prefix [of rs cs crc] cs assms(2) by simp
  then obtain m where m: "frame_parse crc cs = take m rs"
    by (metis take_is_prefix prefix_def append_eq_conv_conj)
  have parse: "frame_parse crc (encode_records crc olds @ cs) = olds @ frame_parse crc cs"
    using fl.parse_append [of olds crc cs] assms(2) by (simp add: encode_records_def)
  have "file_events crc f (take n (FileHeader_encode h @ encode_records crc (olds @ rs))) =
      fst (decode_records f olds) @ take m evs"
    unfolding cut file_events_header [OF assms(1)] parse m decode_records_append using assms(3) by simp
  moreover have "file_events crc f (FileHeader_encode h @ encode_records crc olds) = fst (decode_records f olds)"
    unfolding file_events_header [OF assms(1)] using assms(2) frame_parse_enc [of olds crc] by simp
  moreover have "take m evs = evs" if "FILE_HEADER_LEN + length (encode_records crc (olds @ rs)) \<le> n"
  proof -
    have "cs = encode_records crc rs"
      using that by (simp add: cs_def)
    then have "take m rs = rs"
      using m frame_parse_enc [of rs crc] assms(2) by simp
    then show ?thesis
      using assms(4) by (metis length_take min.absorb_iff2 order_refl take_all_iff)
  qed
  ultimately show ?thesis
    by (intro exI [of _ "take m evs"]) (simp add: take_is_prefix)
qed

text \<open>
  Appending records that decode to \<open>evs\<close>: the log afterwards, and what is left of it when only \<open>n\<close>
  bytes of the active file survive.
\<close>

definition records_of :: "(u8 list \<Rightarrow> unit + Event) \<Rightarrow> Event list \<Rightarrow> Record list \<Rightarrow> bool" where
  "records_of f evs rs \<longleftrightarrow>
     length rs = length evs \<and> (\<forall>r \<in> set rs. log_record r) \<and> check_payloads rs = Ok () \<and>
     (\<forall>n. fst (decode_records f (take n rs)) = take n evs)"

lemma append_effect:
  assumes "wal_ok crc w d" and "records_of f evs rs"
  shows "\<exists>b w' d'. Wal_append_records crc WriteAll w d rs = (Ok b, w', d') \<and> wal_ok crc w' d' \<and>
    wal_active_number w' = wal_active_number w \<and> wal_events crc f d' = wal_events crc f d @ evs \<and>
    (\<forall>n \<ge> fw_len (wal_active w). \<exists>ks. prefix ks evs \<and>
       wal_events crc f (crash_active w' n d') = wal_events crc f d @ ks \<and>
       (fw_len (wal_active w') \<le> n \<longrightarrow> ks = evs))"
proof -
  note rs = assms(2) [unfolded records_of_def]
  let ?p = "wal_file_name (wal_active_number w)"
  obtain h olds where dir: "wal_dir_ok d" "list_numbers d \<noteq> []" "wal_active_number w = last (sort (list_numbers d))"
    and h: "header_ok MAGIC_WAL h" "\<forall>r \<in> set olds. log_record r"
    and bytes: "dir_get d ?p = FileHeader_encode h @ encode_records crc olds"
    and len: "fw_len (wal_active w) = FILE_HEADER_LEN + length (encode_records crc olds)"
    using assms(1) by (auto simp: wal_ok_def)
  let ?new = "FileHeader_encode h @ encode_records crc (olds @ rs)"
  let ?w = "w\<lparr>wal_active := (wal_active w)\<lparr>fw_len := FILE_HEADER_LEN + length (encode_records crc (olds @ rs))\<rparr>\<rparr>"
  obtain b where app: "Wal_append_records crc WriteAll w d rs = (Ok b, ?w, dir_set d ?p ?new)"
    using rs bytes len h(1)
    by (simp add: Wal_append_records_def FrameWriter_append_def write_at_def Let_def add.assoc)
  have mem: "wal_active_number w \<in> set (list_numbers d)"
    using newest_mem [OF dir(2)] dir(3) by simp
  have p: "wal_active_number w < 2 ^ 64" "?p \<in> fst ` set d"
    using list_numbers_ok(3) [OF dir(1)] mem by blast+
  obtain older where older: "wal_events crc f (dir_set d ?p bs) = older @ file_events crc f bs"
    "wal_events crc f d = older @ file_events crc f (dir_get d ?p)" for bs
    using wal_events_active [OF dir, of crc f] by blast
  have logs: "\<forall>r \<in> set (olds @ rs). log_record r"
    using h(2) rs by auto
  have ok: "wal_ok crc ?w (dir_set d ?p ?new)"
    using wal_dir_ok_set [OF dir(1) p(1) wal_file_ok_header [OF h(1)]] list_numbers_set [OF p(2)] dir h(1) logs
    unfolding wal_ok_def
    by (intro conjI exI [of _ h] exI [of _ "olds @ rs"]) (simp_all del: encode_records_simps)
  have cut: "\<exists>ks. prefix ks evs \<and>
      wal_events crc f (dir_set d ?p (take n ?new)) = wal_events crc f d @ ks \<and>
      (fw_len (wal_active ?w) \<le> n \<longrightarrow> ks = evs)" if "fw_len (wal_active w) \<le> n" for n
    using file_events_cut [OF h(1) logs, of f evs crc n] rs that len older bytes by auto
  have "wal_events crc f (dir_set d ?p ?new) = wal_events crc f d @ evs"
    using cut [of "length ?new"] h(1) len by auto
  then show ?thesis
    unfolding app using ok cut
    by (intro exI [of _ b] exI [of _ ?w] exI [of _ "dir_set d ?p ?new"]) (simp add: crash_active_def dir_set_twice)
qed

text \<open>A batch that fails part-way and is cut off again leaves the log as it was.\<close>

lemma append_failed:
  assumes "wal_ok crc w d" and "Wal_append_records crc (WritePart k True) w d rs = (res, w', d')"
  shows "(\<exists>e. res = Err e) \<and> w' = w \<and> wal_ok crc w d' \<and> wal_events crc f d' = wal_events crc f d"
proof -
  let ?p = "wal_file_name (wal_active_number w)"
  obtain h olds where dir: "wal_dir_ok d" "list_numbers d \<noteq> []" "wal_active_number w = last (sort (list_numbers d))"
    and h: "header_ok MAGIC_WAL h"
    and bytes: "dir_get d ?p = FileHeader_encode h @ encode_records crc olds"
    and len: "fw_len (wal_active w) = FILE_HEADER_LEN + length (encode_records crc olds)"
    using assms(1) by (auto simp: wal_ok_def)
  have "?p \<in> fst ` set d"
    using list_numbers_ok(3) [OF dir(1)] newest_mem [OF dir(2)] dir(3) by auto
  then have "map_of d ?p = Some (dir_get d ?p)"
    by (cases "map_of d ?p") (auto simp: dir_get_def map_of_eq_None_iff)
  then have same: "dir_set d ?p (dir_get d ?p) = d"
    using dir(1) by (intro dir_set_same) (auto simp: wal_dir_ok_def)
  have "length (dir_get d ?p) = fw_len (wal_active w)"
    using h by (simp add: bytes len)
  then have "(\<exists>e. res = Err e) \<and> w' = w \<and> d' = dir_set d ?p (dir_get d ?p)"
    using assms(2) by (auto simp: Wal_append_records_def FrameWriter_append_def write_at_def Let_def split: sum.splits)
  then show ?thesis
    using same assms(1) by simp
qed

lemma sorted_le_last: "sorted xs \<Longrightarrow> x \<in> set xs \<Longrightarrow> x \<le> last xs"
  by (induction xs) auto

text \<open>Rotation adds an empty file and keeps the events.\<close>

lemma rotate_effect:
  assumes "wal_ok crc w d" and "header_ok MAGIC_WAL fresh" and "wal_active_number w + 1 < 2 ^ 64"
    and "Wal_rotate crc (\<lambda>_ _. False) fault fresh w d = (res, w', d')"
  shows "wal_ok crc w' d' \<and> wal_events crc f d' = wal_events crc f d \<and>
    (res = Ok () \<longrightarrow> wal_active_number w' = wal_active_number w + 1 \<and>
       file_events crc f (dir_get d' (wal_file_name (wal_active_number w'))) = [])"
proof -
  let ?n = "wal_active_number w + 1"
  let ?p = "wal_file_name ?n"
  have dir: "wal_dir_ok d" "list_numbers d \<noteq> []" "wal_active_number w = last (sort (list_numbers d))"
    using assms(1) by (auto simp: wal_ok_def)
  have le: "m \<le> wal_active_number w" if "m \<in> set (list_numbers d)" for m
    using that dir(3) sorted_le_last [of "sort (list_numbers d)" m] by simp
  then have new: "?p \<notin> fst ` set d"
    using list_numbers_ok(3) [OF dir(1), of ?n] assms(3) by fastforce
  then have get: "dir_get d ?p = []"
    by (simp add: dir_get_def map_of_eq_None_iff [symmetric] flip: map_of_eq_None_iff)
  from open_active [of "[]" fresh crc f] assms(2) obtain h olds where
    op: "FrameWriter_open crc no_fault fresh [] MAGIC_WAL =
      Ok (\<lparr>fw_header = h, fw_len = FILE_HEADER_LEN + length (encode_records crc olds)\<rparr>,
          FileHeader_encode h @ encode_records crc olds)"
    and h: "header_ok MAGIC_WAL h" "\<forall>r \<in> set olds. log_record r"
    and ev: "file_events crc f (FileHeader_encode h @ encode_records crc olds) = file_events crc f []"
    by (auto simp: wal_file_ok_def FILE_HEADER_LEN_def)
  let ?file = "FileHeader_encode h @ encode_records crc olds"
  have none: "file_events crc f [] = []"
    by (simp add: file_events_def FILE_HEADER_LEN_def)
  have nums: "list_numbers (dir_set d ?p ?file) = list_numbers d @ [?n]"
    using new wal_number_of_file_name [OF assms(3)]
    by (simp add: dir_set_def list_numbers_def List.map_filter_def)
  have srt: "sort (list_numbers d @ [?n]) = sort (list_numbers d) @ [?n]"
    using le by (intro properties_for_sort) (auto simp: sorted_append intro: le_SucI)
  have ne: "wal_file_name m \<noteq> ?p" if "m \<in> set (list_numbers d)" for m
    using new list_numbers_ok(3) [OF dir(1), of m] that by metis
  have evs: "wal_events crc f (dir_set d ?p ?file) = wal_events crc f d"
    unfolding wal_events_def nums srt using ne ev none
    by (auto intro!: arg_cong [where f = concat] map_cong simp: dir_get_def)
  have ok: "wal_ok crc \<lparr>wal_active = \<lparr>fw_header = h, fw_len = FILE_HEADER_LEN + length (encode_records crc olds)\<rparr>,
      wal_active_number = ?n\<rparr> (dir_set d ?p ?file)"
    unfolding wal_ok_def nums srt
    using wal_dir_ok_set [OF dir(1) assms(3) wal_file_ok_header [OF h(1)]] h by auto
  show ?thesis
    using assms(4,1) op evs ok ev none
    by (cases fault) (auto simp: Wal_rotate_def get [simplified] Let_def)
qed

text \<open>
  C9: durability of acknowledged events. Appending events to an open log either fails with nothing
  changed (an event does not encode) or makes a replay return the old events followed by the new
  ones. If power is lost afterwards and only a prefix of the active file survives, a replay still
  returns all events acknowledged before, followed by a prefix of the new batch; and all of the
  batch once the file was synced up to its new length.
\<close>

theorem Wal_append_durable:
  assumes "wal_ok crc w d" and "codec_ok to_vec from_slice evs"
  shows "case Wal_append crc to_vec WriteAll w d evs of
      (Err e, w', d') \<Rightarrow> w' = w \<and> d' = d \<and> (\<exists>ev \<in> set evs. \<exists>e. Record_event (encode_event to_vec) ev = Err e)
    | (Ok bytes, w', d') \<Rightarrow>
        wal_ok crc w' d' \<and> wal_events crc from_slice d' = wal_events crc from_slice d @ evs \<and>
        (\<forall>n \<ge> fw_len (wal_active w). \<exists>ks. prefix ks evs \<and>
           wal_events crc from_slice (crash_active w' n d') = wal_events crc from_slice d @ ks \<and>
           (fw_len (wal_active w') \<le> n \<longrightarrow> ks = evs))"
proof (cases "collect_records to_vec evs")
  case (Inl e)
  then show ?thesis
    using collect_records_Err by (auto simp: Wal_append_def)
next
  case (Inr rs)
  then have "records_of from_slice evs rs"
    using collect_records_Ok [OF Inr assms(2)] by (simp add: records_of_def)
  from append_effect [OF assms(1) this] show ?thesis
    by (auto simp: Wal_append_def Inr)
qed

lemma remove_numbers_exact:
  assumes "distinct ns" and "\<forall>n \<in> set ns. n < 2 ^ 64 \<and> wal_file_name n \<in> fst ` set d"
  shows "remove_numbers (\<lambda>_. False) keep ns k d =
    (Ok (k + length (filter (\<lambda>n. n < keep) ns)),
     filter (\<lambda>e. fst e \<notin> wal_file_name ` {n \<in> set ns. n < keep}) d)"
  using assms
proof (induction ns arbitrary: k d)
  case (Cons n ns)
  show ?case
  proof (cases "n < keep")
    case False
    then have "{m \<in> set (n # ns). m < keep} = {m \<in> set ns. m < keep}"
      by auto
    with False Cons show ?thesis by simp
  next
    case True
    let ?d = "filter (\<lambda>e. fst e \<noteq> wal_file_name n) d"
    have "wal_file_name m \<in> fst ` set ?d" if "m \<in> set ns" for m
    proof -
      have "wal_file_name m \<noteq> wal_file_name n"
        using that Cons.prems by (auto simp: wal_file_name_inject)
      then show ?thesis
        using that Cons.prems(2) by force
    qed
    then have "remove_numbers (\<lambda>_. False) keep ns (k + 1) ?d =
      (Ok (k + 1 + length (filter (\<lambda>n. n < keep) ns)),
       filter (\<lambda>e. fst e \<notin> wal_file_name ` {n \<in> set ns. n < keep}) ?d)"
      using Cons.prems by (intro Cons.IH) auto
    moreover have "filter (\<lambda>e. fst e \<notin> wal_file_name ` {n \<in> set ns. n < keep}) ?d =
        filter (\<lambda>e. fst e \<notin> wal_file_name ` {m \<in> set (n # ns). m < keep}) d"
      using True by (auto intro!: filter_cong)
    moreover have "map_of d (wal_file_name n) \<noteq> None"
      using Cons.prems(2) by (auto simp: map_of_eq_None_iff)
    ultimately show ?thesis
      using True by simp
  qed
qed simp

lemma map_of_filter_name: "k \<notin> G \<Longrightarrow> map_of (filter (\<lambda>e. fst e \<notin> G) d) k = map_of d k"
  by (induction d) auto

text \<open>Truncation that may fail part-way: some of the older files are gone, the active one is not.\<close>

lemma remove_numbers_some:
  "\<exists>G \<subseteq> wal_file_name ` {n \<in> set ns. n < keep}. snd (remove_numbers rmfail keep ns k d) = filter (\<lambda>e. fst e \<notin> G) d"
proof (induction ns arbitrary: k d)
  case (Cons n ns)
  have same: "\<exists>G \<subseteq> wal_file_name ` {m \<in> set (n # ns). m < keep}. d = filter (\<lambda>e. fst e \<notin> G) d"
    by (intro exI [of _ "{}"]) simp
  obtain G where G: "G \<subseteq> wal_file_name ` {m \<in> set ns. m < keep}"
    "snd (remove_numbers rmfail keep ns (k + 1) (filter (\<lambda>e. fst e \<noteq> wal_file_name n) d)) =
      filter (\<lambda>e. fst e \<notin> G) (filter (\<lambda>e. fst e \<noteq> wal_file_name n) d)"
    using Cons.IH by blast
  have "filter (\<lambda>e. fst e \<notin> G) (filter (\<lambda>e. fst e \<noteq> wal_file_name n) d) =
      filter (\<lambda>e. fst e \<notin> insert (wal_file_name n) G) d"
    by (auto intro!: filter_cong)
  then have gone: "n < keep \<Longrightarrow> \<exists>G' \<subseteq> wal_file_name ` {m \<in> set (n # ns). m < keep}.
      snd (remove_numbers rmfail keep ns (k + 1) (filter (\<lambda>e. fst e \<noteq> wal_file_name n) d)) =
        filter (\<lambda>e. fst e \<notin> G') d"
    using G by (intro exI [of _ "insert (wal_file_name n) G"]) auto
  obtain G2 where G2: "G2 \<subseteq> wal_file_name ` {m \<in> set ns. m < keep}"
    "snd (remove_numbers rmfail keep ns k d) = filter (\<lambda>e. fst e \<notin> G2) d"
    using Cons.IH by blast
  have later: "\<exists>G' \<subseteq> wal_file_name ` {m \<in> set (n # ns). m < keep}.
      snd (remove_numbers rmfail keep ns k d) = filter (\<lambda>e. fst e \<notin> G') d"
    using G2 by (intro exI [of _ G2]) auto
  show ?case
    using same gone later by auto
qed (auto intro!: exI [of _ "{}"])

lemma truncate_effect:
  assumes "wal_ok crc w d" and "truncate_before rmfail sync_ok (wal_active_number w) d = (res, d')"
  shows "wal_ok crc w d' \<and> set (wal_events crc f d') \<subseteq> set (wal_events crc f d)"
proof -
  let ?a = "wal_active_number w"
  have dir: "wal_dir_ok d" "list_numbers d \<noteq> []" "?a = last (sort (list_numbers d))"
    using assms(1) by (auto simp: wal_ok_def)
  note nums = list_numbers_ok [OF dir(1)]
  obtain G where G: "G \<subseteq> wal_file_name ` {n \<in> set (list_numbers d). n < ?a}" "d' = filter (\<lambda>e. fst e \<notin> G) d"
    using remove_numbers_some [of "list_numbers d" ?a rmfail 0 d] assms(2)
    by (cases "remove_numbers rmfail ?a (list_numbers d) 0 d") (auto simp: truncate_before_def split: sum.splits)
  have ok: "wal_dir_ok d'"
    using dir(1) by (auto simp: wal_dir_ok_def G(2) distinct_map_filter)
  have keep: "dir_get d' (wal_file_name n) = dir_get d (wal_file_name n)" if "n \<in> set (list_numbers d')" for n
  proof -
    have "wal_file_name n \<notin> G"
      using list_numbers_ok(3) [OF ok, of n] that by (auto simp: G(2))
    then show ?thesis
      by (simp add: dir_get_def G(2) map_of_filter_name)
  qed
  have sub: "set (list_numbers d') \<subseteq> set (list_numbers d)"
    using list_numbers_ok(3) [OF ok] nums(3) by (auto simp: G(2))
  have act: "wal_file_name ?a \<notin> G"
  proof
    assume "wal_file_name ?a \<in> G"
    then obtain n where "n \<in> set (list_numbers d)" "n < ?a" "wal_file_name n = wal_file_name ?a"
      using G(1) by auto
    then show False
      using nums(3) [of n] nums(3) [of ?a] newest_mem [OF dir(2)] dir(3) wal_file_name_inject [of n ?a] by auto
  qed
  have amem: "?a \<in> set (list_numbers d')"
    using act nums(3) [of ?a] newest_mem [OF dir(2)] dir(3) list_numbers_ok(3) [OF ok, of ?a] by (force simp: G(2))
  have "last (sort (list_numbers d')) \<in> set (list_numbers d)"
    using newest_mem [of d'] amem sub by fastforce
  then have "last (sort (list_numbers d')) \<le> ?a"
    using sorted_le_last [of "sort (list_numbers d)"] dir(3) by simp
  moreover have "?a \<le> last (sort (list_numbers d'))"
    using sorted_le_last [of "sort (list_numbers d')"] amem by simp
  ultimately have "wal_ok crc w d'"
    using assms(1) ok amem keep [OF amem] unfolding wal_ok_def by (metis antisym list.set_cases list.distinct(1))
  moreover have "set (wal_events crc f d') \<subseteq> set (wal_events crc f d)"
    using sub keep by (auto simp: wal_events_def)
  ultimately show ?thesis
    by blast
qed

text \<open>
  Truncating the log deletes exactly the files numbered below the given one and returns how
  many there were; every other file stays in the directory with its bytes unchanged.
\<close>

theorem truncate_before_exact:
  assumes "wal_dir_ok d" and "truncate_before (\<lambda>_. False) True keep d = (res, d')"
  shows "res = Ok (card {n \<in> set (list_numbers d). n < keep}) \<and>
    wal_dir_ok d' \<and> set (list_numbers d') = {n \<in> set (list_numbers d). keep \<le> n} \<and>
    (\<forall>n \<ge> keep. n < 2 ^ 64 \<longrightarrow> map_of d' (wal_file_name n) = map_of d (wal_file_name n))"
proof -
  let ?gone = "wal_file_name ` {n \<in> set (list_numbers d). n < keep}"
  note nums = list_numbers_ok [OF assms(1)]
  have rm: "remove_numbers (\<lambda>_. False) keep (list_numbers d) 0 d =
      (Ok (length (filter (\<lambda>n. n < keep) (list_numbers d))), filter (\<lambda>e. fst e \<notin> ?gone) d)"
    using remove_numbers_exact [OF nums(2), of d keep 0] nums(3) by simp
  have card: "card {n \<in> set (list_numbers d). n < keep} = length (filter (\<lambda>n. n < keep) (list_numbers d))"
    using nums(2) by (metis distinct_card distinct_filter set_filter)
  have d': "d' = filter (\<lambda>e. fst e \<notin> ?gone) d" "res = Ok (card {n \<in> set (list_numbers d). n < keep})"
    using assms(2) rm card by (simp_all add: truncate_before_def)
  have ok: "wal_dir_ok d'"
    using assms(1) by (auto simp: wal_dir_ok_def d' distinct_map_filter)
  have keep: "wal_file_name n \<notin> ?gone" if "keep \<le> n" "n < 2 ^ 64" for n
    using that nums(3) wal_file_name_inject by fastforce
  have "map_of d' (wal_file_name n) = map_of d (wal_file_name n)" if "keep \<le> n" "n < 2 ^ 64" for n
    using keep [OF that] by (simp add: d'(1) map_of_filter_name)
  moreover have "set (list_numbers d') = {n \<in> set (list_numbers d). keep \<le> n}"
  proof (intro set_eqI iffI)
    fix n
    assume "n \<in> set (list_numbers d')"
    then have n: "n < 2 ^ 64" "wal_file_name n \<in> fst ` set d'"
      using list_numbers_ok(3) [OF ok] by blast+
    then have "wal_file_name n \<in> fst ` set d" "wal_file_name n \<notin> ?gone"
      by (auto simp: d')
    then show "n \<in> {n \<in> set (list_numbers d). keep \<le> n}"
      using n nums(3) [of n] by auto
  next
    fix n
    assume n: "n \<in> {n \<in> set (list_numbers d). keep \<le> n}"
    then have "n < 2 ^ 64" "wal_file_name n \<in> fst ` set d" "wal_file_name n \<notin> ?gone"
      using nums(3) [of n] keep [of n] by auto
    then show "n \<in> set (list_numbers d')"
      using list_numbers_ok(3) [OF ok, of n] by (force simp: d')
  qed
  ultimately show ?thesis
    using d' ok by blast
qed

section \<open>Witnesses\<close>

text \<open>A codec that knows one event, and a log of one file.\<close>

definition sample_event :: Event where
  "sample_event =
     (Event_new (\<lambda>_. 0) (\<lambda>_. []) 7 1700000000000000 1 Codex ''Stop'' TurnStopped
        \<lparr>project_id = 3, project_root = ''/p'', project_name = ''p'', project_repo_remote = None,
         project_branch = None, project_head = None\<rparr> ''s'' LocalSemantic ''t'')
       \<lparr>ev_source_seq := 1, ev_hlc := 65536\<rparr>"

definition sample_to_vec :: "Event \<Rightarrow> unit + u8 list" where
  "sample_to_vec ev = (if ev = sample_event then Inr [1, 2, 3] else Inl ())"

definition sample_from_slice :: "u8 list \<Rightarrow> unit + Event" where
  "sample_from_slice bs = (if bs = [1, 2, 3] then Inr sample_event else Inl ())"

definition sample_dir :: dir where
  "sample_dir = [(wal_file_name 1, FileHeader_encode sample_header)]"

lemma sample_dir_ok: "wal_dir_ok sample_dir"
proof -
  have "wal_file_ok (FileHeader_encode sample_header @ [])"
    by (rule wal_file_ok_header) simp
  then show ?thesis
    by (auto simp: wal_dir_ok_def sample_dir_def intro!: exI [of _ 1])
qed

lemma sample_numbers: "list_numbers sample_dir = [1]"
  using wal_number_of_file_name [of 1]
  by (simp add: sample_dir_def list_numbers_def List.map_filter_simps)

lemma sample_codec_ok: "codec_ok sample_to_vec sample_from_slice [sample_event]"
  by (auto simp: codec_ok_def sample_to_vec_def sample_from_slice_def sample_event_def Event_new_def)

theorem Wal_open_recovers_witness:
  "\<exists>w rec d'. Wal_open (\<lambda>_. 5) (\<lambda>_ _. False) sample_from_slice sample_header sample_dir = Ok (w, rec, d') \<and>
    wal_ok (\<lambda>_. 5) w d'"
  using Wal_open_recovers [OF sample_dir_ok, of sample_header "\<lambda>_. 5" sample_from_slice] by auto

definition sample_wal :: Wal where
  "sample_wal = \<lparr>wal_active = \<lparr>fw_header = sample_header, fw_len = 32\<rparr>, wal_active_number = 1\<rparr>"

lemma sample_wal_ok: "wal_ok (\<lambda>_. 5) sample_wal sample_dir"
  using sample_dir_ok sample_numbers
  by (auto simp: wal_ok_def sample_wal_def dir_get_def sample_dir_def FILE_HEADER_LEN_def
      intro!: exI [of _ sample_header] exI [of _ "[]"])

theorem Wal_append_durable_witness:
  "case Wal_append (\<lambda>_. 5) sample_to_vec WriteAll sample_wal sample_dir [sample_event] of
      (Err e, w', d') \<Rightarrow> False
    | (Ok bytes, w', d') \<Rightarrow>
        wal_events (\<lambda>_. 5) sample_from_slice d' =
          wal_events (\<lambda>_. 5) sample_from_slice sample_dir @ [sample_event]"
proof -
  have "Record_event (encode_event sample_to_vec) sample_event \<noteq> Err e" for e
    by (simp add: Record_event_def encode_event_def sample_to_vec_def check_payload_len_def
        MAX_RECORD_PAYLOAD_def)
  then show ?thesis
    using Wal_append_durable [OF sample_wal_ok sample_codec_ok]
    by (auto split: prod.splits sum.splits)
qed

theorem truncate_before_exact_witness:
  "fst (truncate_before (\<lambda>_. False) True 2 sample_dir) = Ok 1"
proof -
  have "card {n \<in> set (list_numbers sample_dir). n < 2} = 1"
  proof -
    have "{n \<in> set (list_numbers sample_dir). n < 2} = {1}"
      by (auto simp: sample_numbers)
    then show ?thesis by simp
  qed
  then show ?thesis
    using truncate_before_exact [OF sample_dir_ok, of 2]
    by (metis prod.collapse)
qed

end
