(* ===== verification/Manifest.thy ===== *)
theory Manifest
  imports Wal
begin

text \<open>
  Manifest generations (\<open>attemptdb-storage/src/manifest.rs\<close>): each generation is one
  self-checksummed document in its own numbered file, written to a temporary name, synced and
  renamed. A reader takes the newest generation that parses, carries the right checksum and whose
  segment files all exist.

  Parameters: \<open>crc\<close>; \<open>to_vec\<close>, \<open>to_vec_pretty\<close> and \<open>from_slice\<close> for \<open>serde_json\<close> on manifests;
  \<open>exists_seg\<close> says which segment files exist. Texts of warnings are left out, their number and
  order kept (a warning is the generation number it is about).
\<close>

section \<open>Definitions\<close>

record SegmentMeta =
  sm_segment_id :: uuid
  sm_file :: string
  sm_rows :: nat
  sm_bytes :: nat
  sm_min_observed_at :: Timestamp
  sm_max_observed_at :: Timestamp
  sm_min_hlc :: Hlc
  sm_max_hlc :: Hlc
  sm_min_source_seq :: nat
  sm_max_source_seq :: nat
  sm_min_event_id :: EventId
  sm_max_event_id :: EventId
  sm_providers :: "string list"
  sm_project_ids :: "ProjectId list"
  sm_session_count :: nat
  sm_sha256 :: string

record Tombstone =
  ts_file :: string
  ts_since_generation :: nat

record WalState =
  ws_active_file :: nat
  ws_checkpoint_offset :: nat

record Manifest =
  mf_format_version :: u16
  mf_generation :: nat
  mf_db_id :: uuid
  mf_device_id :: DeviceId
  mf_created_at :: Timestamp
  mf_last_hlc :: Hlc
  mf_last_source_seq :: nat
  mf_wal :: WalState
  mf_segments :: "SegmentMeta list"
  mf_tombstones :: "Tombstone list"
  mf_checksum :: "u32 option"
  mf_extra :: json_map

definition MANIFEST_FORMAT_VERSION :: u16 where
  "MANIFEST_FORMAT_VERSION = 1"

definition Manifest_initial :: "uuid \<Rightarrow> DeviceId \<Rightarrow> Timestamp \<Rightarrow> Manifest" where
  "Manifest_initial db_id device_id now =
     \<lparr>mf_format_version = MANIFEST_FORMAT_VERSION, mf_generation = 0, mf_db_id = db_id,
      mf_device_id = device_id, mf_created_at = now, mf_last_hlc = 0, mf_last_source_seq = 0,
      mf_wal = \<lparr>ws_active_file = 0, ws_checkpoint_offset = 0\<rparr>, mf_segments = [],
      mf_tombstones = [], mf_checksum = None, mf_extra = []\<rparr>"

definition manifest_file_name :: "nat \<Rightarrow> string" where
  "manifest_file_name g = ''gen-'' @ pad6 g @ ''.json''"

definition generation_of :: "string \<Rightarrow> nat option" where
  "generation_of name =
     Option.bind (strip_prefix ''gen-'' name) (\<lambda>s. Option.bind (strip_suffix ''.json'' s) parse_u64)"

definition canonical_bytes :: "(Manifest \<Rightarrow> unit + u8 list) \<Rightarrow> Manifest \<Rightarrow> storage_error + u8 list" where
  "canonical_bytes to_vec m =
     (case to_vec (m\<lparr>mf_checksum := None\<rparr>) of Inl _ \<Rightarrow> Err Json | Inr bs \<Rightarrow> Ok bs)"

definition compute_checksum ::
  "(u8 list \<Rightarrow> u32) \<Rightarrow> (Manifest \<Rightarrow> unit + u8 list) \<Rightarrow> Manifest \<Rightarrow> storage_error + u32"
where
  "compute_checksum crc to_vec m =
     (case canonical_bytes to_vec m of Err e \<Rightarrow> Err e | Ok bs \<Rightarrow> Ok (crc bs))"

definition KEEP_GENERATIONS :: nat where
  "KEEP_GENERATIONS = 8"

text \<open>\<open>prune_generations\<close>; \<open>rmfail\<close> says which deletions fail (they are ignored).\<close>

definition prune_generations :: "(string \<Rightarrow> bool) \<Rightarrow> nat \<Rightarrow> dir \<Rightarrow> dir" where
  "prune_generations rmfail current d =
     (if current < KEEP_GENERATIONS then d
      else filter (\<lambda>e. case generation_of (fst e) of
                         Some n \<Rightarrow> \<not> (n < current - KEEP_GENERATIONS) \<or> rmfail (fst e)
                       | None \<Rightarrow> True) d)"

text \<open>
  How far a write gets: the temporary file may be written in part (\<open>k\<close> bytes), the rename may
  fail, or the sync of the directory may fail after the rename.
\<close>

datatype manifest_io = MfAll | MfTmpPart nat | MfRenameFails | MfDirSyncFails

definition Manifest_write ::
  "(u8 list \<Rightarrow> u32) \<Rightarrow> (Manifest \<Rightarrow> unit + u8 list) \<Rightarrow> (Manifest \<Rightarrow> unit + u8 list) \<Rightarrow>
   manifest_io \<Rightarrow> (string \<Rightarrow> bool) \<Rightarrow> Manifest \<Rightarrow> dir \<Rightarrow> (storage_error + Manifest) \<times> dir"
where
  "Manifest_write crc to_vec to_vec_pretty io rmfail m d =
     (case compute_checksum crc to_vec m of
        Err e \<Rightarrow> (Err e, d)
      | Ok ck \<Rightarrow>
          (let m' = m\<lparr>mf_checksum := Some ck\<rparr>;
               path = manifest_file_name (mf_generation m);
               tmp = path @ ''.tmp''
           in case to_vec_pretty m' of
                Inl _ \<Rightarrow> (Err Json, d)
              | Inr bytes \<Rightarrow>
                  (case io of
                     MfTmpPart k \<Rightarrow> (Err (Io OtherIo), dir_set d tmp (take k bytes))
                   | MfRenameFails \<Rightarrow> (Err (Io OtherIo), dir_set d tmp bytes)
                   | MfDirSyncFails \<Rightarrow>
                       (Err (Io OtherIo), dir_set (filter (\<lambda>e. fst e \<noteq> tmp) d) path bytes)
                   | MfAll \<Rightarrow>
                       (Ok m', prune_generations rmfail (mf_generation m)
                                 (dir_set (filter (\<lambda>e. fst e \<noteq> tmp) d) path bytes)))))"

definition manifest_load_file ::
  "(u8 list \<Rightarrow> u32) \<Rightarrow> (Manifest \<Rightarrow> unit + u8 list) \<Rightarrow> (u8 list \<Rightarrow> unit + Manifest) \<Rightarrow> (string \<Rightarrow> bool) \<Rightarrow>
   u8 list \<Rightarrow> storage_error + Manifest"
where
  "manifest_load_file crc to_vec from_slice exists_seg bytes =
     (case from_slice bytes of
        Inl _ \<Rightarrow> Err (Corrupt ''manifest'' ''json'')
      | Inr m \<Rightarrow>
          if mf_format_version m \<noteq> MANIFEST_FORMAT_VERSION
          then Err (UnsupportedFormat ''manifest'' (mf_format_version m) MANIFEST_FORMAT_VERSION)
          else case compute_checksum crc to_vec m of
              Err e \<Rightarrow> Err e
            | Ok expected \<Rightarrow>
                if mf_checksum m \<noteq> Some expected then Err (Corrupt ''manifest'' ''checksum mismatch'')
                else if list_ex (\<lambda>s. \<not> exists_seg (sm_file s)) (mf_segments m)
                  then Err (Corrupt ''manifest'' ''references missing segment'')
                else Ok m)"

definition list_generations :: "dir \<Rightarrow> (nat \<times> u8 list) list" where
  "list_generations d = List.map_filter (\<lambda>(name, bs). map_option (\<lambda>n. (n, bs)) (generation_of name)) d"

text \<open>The loop over the generations, newest first, collecting a warning per rejected one.\<close>

fun first_valid :: "(u8 list \<Rightarrow> storage_error + Manifest) \<Rightarrow> (nat \<times> u8 list) list \<Rightarrow> nat list \<Rightarrow>
    storage_error + (Manifest \<times> nat list) option" where
  "first_valid load [] warnings =
     (if warnings = [] then Ok None else Err (Corrupt ''manifest'' ''no valid generation''))"
| "first_valid load ((n, bs) # gens) warnings =
     (case load bs of
        Ok m \<Rightarrow> Ok (Some (m, warnings))
      | Err _ \<Rightarrow> first_valid load gens (warnings @ [n]))"

text \<open>\<open>load_latest\<close>; \<open>None\<close> is a directory that does not exist. The sort is stable and descending.\<close>

definition load_latest ::
  "(u8 list \<Rightarrow> u32) \<Rightarrow> (Manifest \<Rightarrow> unit + u8 list) \<Rightarrow> (u8 list \<Rightarrow> unit + Manifest) \<Rightarrow> (string \<Rightarrow> bool) \<Rightarrow>
   dir option \<Rightarrow> storage_error + (Manifest \<times> nat list) option"
where
  "load_latest crc to_vec from_slice exists_seg d =
     (case d of
        None \<Rightarrow> Ok None
      | Some d \<Rightarrow>
          first_valid (manifest_load_file crc to_vec from_slice exists_seg)
            (sort_key (\<lambda>g. - int (fst g)) (list_generations d)) [])"

section \<open>Names\<close>

lemma generation_of_file_name: "n < 2 ^ 64 \<Longrightarrow> generation_of (manifest_file_name n) = Some n"
  by (simp add: generation_of_def manifest_file_name_def parse_u64_pad6)

lemma generation_of_tmp: "generation_of (name @ ''.tmp'') = None"
proof -
  have "strip_suffix ''.json'' s = None" if "''gen-'' @ s = name @ ''.tmp''" for s
  proof (rule ccontr)
    assume "strip_suffix ''.json'' s \<noteq> None"
    then obtain r where "s = r @ ''.json''"
      by (auto simp: strip_suffix_Some)
    then have "last (''gen-'' @ s) = CHR ''n''"
      by simp
    moreover have "last (''gen-'' @ s) = CHR ''p''"
      unfolding that by simp
    ultimately show False
      by simp
  qed
  then show ?thesis
    by (cases "strip_prefix ''gen-'' (name @ ''.tmp'')") (auto simp: generation_of_def strip_prefix_Some)
qed

section \<open>The newest valid generation\<close>

lemma first_valid_Some:
  assumes "first_valid load gens ws = Ok (Some (m, ws'))"
  shows "\<exists>pre n bs post. gens = pre @ (n, bs) # post \<and> load bs = Ok m \<and> ws' = ws @ map fst pre \<and>
    (\<forall>g \<in> set pre. \<exists>e. load (snd g) = Err e)"
  using assms
proof (induction load gens ws rule: first_valid.induct)
  case (2 load n bs gens ws)
  show ?case
  proof (cases "load bs")
    case (Inr m')
    with 2 show ?thesis
      by (intro exI [of _ "[]"] exI [of _ n] exI [of _ bs] exI [of _ gens]) simp
  next
    case (Inl e)
    with 2 obtain pre n' bs' post where
      "gens = pre @ (n', bs') # post" "load bs' = Ok m" "ws' = (ws @ [n]) @ map fst pre"
      "\<forall>g \<in> set pre. \<exists>e. load (snd g) = Err e"
      by auto
    with Inl show ?thesis
      by (intro exI [of _ "(n, bs) # pre"] exI [of _ n'] exI [of _ bs'] exI [of _ post]) simp
  qed
qed (auto split: if_splits)

lemma first_valid_None:
  "first_valid load gens ws = Ok None \<longleftrightarrow> gens = [] \<and> ws = []"
  by (induction load gens ws rule: first_valid.induct) (auto split: sum.splits if_splits)

lemma first_valid_Err:
  assumes "first_valid load gens ws = Err e"
  shows "(\<forall>g \<in> set gens. \<exists>e. load (snd g) = Err e) \<and> (gens \<noteq> [] \<or> ws \<noteq> [])"
  using assms by (induction load gens ws rule: first_valid.induct) (auto split: sum.splits if_splits)

text \<open>
  C20: the reader takes the newest usable generation: what \<open>load_latest\<close> returns is a generation
  file of the directory that passes every check, and every generation with a higher number was
  tried and rejected, with one warning each. It reports an empty database only when there is no
  generation file, and fails only when there are some and none is usable.
\<close>

theorem load_latest_newest_valid:
  fixes crc to_vec from_slice exists_seg d
  defines "load \<equiv> manifest_load_file crc to_vec from_slice exists_seg"
  shows "case load_latest crc to_vec from_slice exists_seg (Some d) of
      Ok (Some (m, warnings)) \<Rightarrow>
        \<exists>n bs. (n, bs) \<in> set (list_generations d) \<and> load bs = Ok m \<and> (\<forall>w \<in> set warnings. n \<le> w) \<and>
          (\<forall>(n', bs') \<in> set (list_generations d). n < n' \<longrightarrow> (\<exists>e. load bs' = Err e) \<and> n' \<in> set warnings)
    | Ok None \<Rightarrow> list_generations d = []
    | Err _ \<Rightarrow> list_generations d \<noteq> [] \<and> (\<forall>(n, bs) \<in> set (list_generations d). \<exists>e. load bs = Err e)"
proof -
  define gens where "gens = sort_key (\<lambda>g. - int (fst g)) (list_generations d)"
  have gens: "set gens = set (list_generations d)" "gens = [] \<longleftrightarrow> list_generations d = []"
    by (simp_all add: gens_def) (metis length_0_conv length_sort)
  have desc: "sorted (map (\<lambda>g. - int (fst g)) gens)"
    by (simp add: gens_def)
  have ll: "load_latest crc to_vec from_slice exists_seg (Some d) = first_valid load gens []"
    by (simp add: load_latest_def gens_def load_def)
  show ?thesis
  proof (cases "first_valid load gens []")
    case (Inl e)
    then show ?thesis
      using first_valid_Err [OF Inl] gens ll by auto
  next
    case (Inr r)
    show ?thesis
    proof (cases r)
      case None
      then show ?thesis
        using Inr ll gens by (simp add: first_valid_None)
    next
      case (Some mw)
      obtain m ws where mw: "mw = (m, ws)" by (cases mw)
      with Inr Some have "first_valid load gens [] = Ok (Some (m, ws))"
        by simp
      from first_valid_Some [OF this] obtain pre n bs post where
        split: "gens = pre @ (n, bs) # post" "load bs = Ok m" "ws = map fst pre"
          "\<forall>g \<in> set pre. \<exists>e. load (snd g) = Err e"
        by auto
      have order: "\<forall>g \<in> set pre. n \<le> fst g" "\<forall>g \<in> set post. fst g \<le> n"
        using desc by (auto simp: split(1) sorted_append)
      have "(\<exists>e. load bs' = Err e) \<and> n' \<in> set ws" if "(n', bs') \<in> set (list_generations d)" "n < n'" for n' bs'
      proof -
        have "(n', bs') \<in> set pre"
          using that order(2) gens(1) split(1) by fastforce
        then show ?thesis
          using split by force
      qed
      then show ?thesis
        using Inr Some mw ll split gens(1) order(1)
        by (auto intro!: exI [of _ n] exI [of _ bs])
    qed
  qed
qed

section \<open>Writing a generation\<close>

lemma list_generations_simps:
  "list_generations [] = []"
  "list_generations ((name, bs) # d) =
    (case generation_of name of Some n \<Rightarrow> (n, bs) # list_generations d | None \<Rightarrow> list_generations d)"
  "list_generations (d @ d') = list_generations d @ list_generations d'"
  by (simp_all add: list_generations_def List.map_filter_def split: option.splits)

lemma list_generations_filter:
  "\<forall>e \<in> set d. \<not> P e \<longrightarrow> generation_of (fst e) = None \<Longrightarrow> list_generations (filter P d) = list_generations d"
  by (induction d) (auto simp: list_generations_simps split: option.splits)

lemma list_generations_set_other:
  assumes "generation_of name = None"
  shows "list_generations (dir_set d name bs) = list_generations d"
proof -
  have "list_generations (map (\<lambda>(k, v). if k = name then (k, bs) else (k, v)) d) = list_generations d"
    using assms by (induction d) (auto simp: list_generations_simps split: option.splits)
  then show ?thesis
    using assms by (simp add: dir_set_def list_generations_simps)
qed

lemma list_generations_member:
  "(n, bs) \<in> set (list_generations d) \<longleftrightarrow> (\<exists>name. (name, bs) \<in> set d \<and> generation_of name = Some n)"
  by (induction d) (auto simp: list_generations_simps split: option.splits)

lemma generation_member:
  "name \<in> fst ` set d \<Longrightarrow> generation_of name = Some n \<Longrightarrow> n \<in> fst ` set (list_generations d)"
proof -
  assume name: "name \<in> fst ` set d" "generation_of name = Some n"
  then obtain bs where "(name, bs) \<in> set d"
    by auto
  with name have "(n, bs) \<in> set (list_generations d)"
    by (auto simp: list_generations_member)
  then show ?thesis
    by force
qed

lemma prune_subset: "set (list_generations (prune_generations rmfail g d)) \<subseteq> set (list_generations d)"
  by (auto simp: prune_generations_def list_generations_member split: if_splits)

lemma prune_member:
  "(g, bs) \<in> set (list_generations d) \<Longrightarrow> (g, bs) \<in> set (list_generations (prune_generations rmfail g d))"
  by (force simp: prune_generations_def list_generations_member)

lemma load_latest_greatest:
  assumes "(g, bs) \<in> set (list_generations d)"
    and "\<forall>x \<in> set (list_generations d). x = (g, bs) \<or> fst x < g"
    and "manifest_load_file crc to_vec from_slice exists_seg bs = Ok m"
  shows "load_latest crc to_vec from_slice exists_seg (Some d) = Ok (Some (m, []))"
proof -
  define gens where "gens = sort_key (\<lambda>g. - int (fst g)) (list_generations d)"
  have mem: "set gens = set (list_generations d)"
    by (simp add: gens_def)
  then obtain y ys where y: "gens = y # ys"
    using assms(1) by (cases gens) auto
  have "sorted (map (\<lambda>g. - int (fst g)) (y # ys))"
    unfolding y [symmetric] by (simp add: gens_def)
  moreover have "(g, bs) = y \<or> (g, bs) \<in> set ys"
    using assms(1) mem y by auto
  ultimately have "g \<le> fst y"
    by auto
  moreover have "y = (g, bs) \<or> fst y < g"
    using assms(2) mem y by auto
  ultimately have "y = (g, bs)"
    by auto
  then show ?thesis
    using assms(3) y by (simp add: load_latest_def gens_def [symmetric])
qed

text \<open>
  A directory in which generation \<open>n\<close> is stored under its own name if at all, and all others are
  older.
\<close>

definition gens_upto :: "nat \<Rightarrow> dir \<Rightarrow> bool" where
  "gens_upto n d \<longleftrightarrow>
     (\<forall>e \<in> set d. \<forall>g. generation_of (fst e) = Some g \<longrightarrow> g < n \<or> fst e = manifest_file_name n)"

lemma gens_upto_below: "\<forall>x \<in> set (list_generations d). fst x < n \<Longrightarrow> gens_upto n d"
  unfolding gens_upto_def using generation_member [of _ d] by fastforce

lemma gens_upto_Suc: "gens_upto n d \<Longrightarrow> n < 2 ^ 64 \<Longrightarrow> gens_upto (Suc n) d"
  unfolding gens_upto_def using generation_of_file_name by fastforce

lemma gens_upto_subset: "gens_upto n d \<Longrightarrow> set d' \<subseteq> set d \<Longrightarrow> gens_upto n d'"
  by (auto simp: gens_upto_def)

lemma set_dir_set: "set (dir_set d name bs) = {e \<in> set d. fst e \<noteq> name} \<union> {(name, bs)}"
  by (auto simp: dir_set_def image_iff split: if_splits) force+

lemma gens_upto_set: "gens_upto n d \<Longrightarrow> gens_upto n (dir_set d (manifest_file_name n) bs)"
  by (auto simp: gens_upto_def set_dir_set)

lemma gens_upto_set_tmp: "gens_upto n d \<Longrightarrow> gens_upto n (dir_set d (name @ ''.tmp'') bs)"
  by (auto simp: gens_upto_def set_dir_set generation_of_tmp)

lemma prune_set: "set (prune_generations rmfail g d) \<subseteq> set d"
  by (auto simp: prune_generations_def)

text \<open>What the newest generation is after its file was set.\<close>

lemma newest_after_set:
  assumes "gens_upto n d" and "n < 2 ^ 64" and "d1 = dir_set d (manifest_file_name n) bs"
    and "d' = d1 \<or> d' = prune_generations rmfail n d1"
  shows "(n, bs) \<in> set (list_generations d')"
    and "\<forall>x \<in> set (list_generations d'). x = (n, bs) \<or> fst x < n"
    and "gens_upto n d'"
proof -
  have "(n, bs) \<in> set (list_generations d1)"
    using generation_of_file_name [OF assms(2)] by (auto simp: assms(3) list_generations_member set_dir_set)
  then show "(n, bs) \<in> set (list_generations d')"
    using assms(4) prune_member by blast
  have "\<forall>x \<in> set (list_generations d1). x = (n, bs) \<or> fst x < n"
    using assms(1) generation_of_file_name [OF assms(2)]
    by (fastforce simp: assms(3) list_generations_member set_dir_set gens_upto_def)
  then show "\<forall>x \<in> set (list_generations d'). x = (n, bs) \<or> fst x < n"
    using assms(4) prune_subset by blast
  show "gens_upto n d'"
    using assms(4) gens_upto_set [OF assms(1), of bs] gens_upto_subset [OF _ prune_set] by (auto simp: assms(3))
qed

text \<open>
  Writing a generation over older ones, or over a generation of the same number: either the list of
  generations is as it was, or the new manifest is the only one with the highest number; and success
  means the latter.
\<close>

lemma write_effect:
  assumes "Manifest_write crc to_vec to_vec_pretty io rmfail m d = (res, d')"
    and "\<forall>bs m'. to_vec_pretty m' = Inr bs \<longrightarrow> from_slice bs = Inr m'"
    and "gens_upto (mf_generation m) d" and "mf_generation m < 2 ^ 64"
    and "mf_format_version m = MANIFEST_FORMAT_VERSION"
  shows "gens_upto (mf_generation m) d' \<and>
    ((\<exists>e. res = Err e) \<and> list_generations d' = list_generations d \<and> (\<forall>n. gens_upto n d \<longrightarrow> gens_upto n d') \<or>
    (\<exists>m' bs. m'\<lparr>mf_checksum := None\<rparr> = m\<lparr>mf_checksum := None\<rparr> \<and> mf_checksum m' \<noteq> None \<and>
       ((\<exists>e. res = Err e) \<or> res = Ok m') \<and>
       (mf_generation m, bs) \<in> set (list_generations d') \<and>
       (\<forall>x \<in> set (list_generations d'). x = (mf_generation m, bs) \<or> fst x < mf_generation m) \<and>
       (\<forall>exists_seg. (\<forall>s \<in> set (mf_segments m). exists_seg (sm_file s)) \<longrightarrow>
          manifest_load_file crc to_vec from_slice exists_seg bs = Ok m')))"
proof (cases "compute_checksum crc to_vec m")
  case (Inl e)
  then show ?thesis
    using assms(1,3) by (auto simp: Manifest_write_def)
next
  case (Inr ck)
  define m' where "m' = m\<lparr>mf_checksum := Some ck\<rparr>"
  have same: "m'\<lparr>mf_checksum := None\<rparr> = m\<lparr>mf_checksum := None\<rparr>" "mf_checksum m' = Some ck"
    by (simp_all add: m'_def)
  have ck: "compute_checksum crc to_vec m' = Ok ck"
    using Inr same by (simp add: compute_checksum_def canonical_bytes_def)
  show ?thesis
  proof (cases "to_vec_pretty m'")
    case (Inl u)
    then show ?thesis
      using assms(1,3) Inr by (auto simp: Manifest_write_def m'_def)
  next
    case (Inr bytes)
    let ?path = "manifest_file_name (mf_generation m)"
    let ?tmp = "?path @ ''.tmp''"
    let ?d0 = "filter (\<lambda>e. fst e \<noteq> ?tmp) d"
    define d1 where "d1 = dir_set ?d0 ?path bytes"
    have load: "\<forall>exists_seg. (\<forall>s \<in> set (mf_segments m). exists_seg (sm_file s)) \<longrightarrow>
        manifest_load_file crc to_vec from_slice exists_seg bytes = Ok m'"
      using assms(2,5) Inr ck same(2)
      by (auto simp: manifest_load_file_def m'_def list_ex_iff)
    have upto: "gens_upto (mf_generation m) ?d0"
      by (rule gens_upto_subset [OF assms(3)]) auto
    note w = assms(1) [unfolded Manifest_write_def \<open>compute_checksum crc to_vec m = Ok ck\<close> sum.case
        m'_def [symmetric] Let_def Inr]
    have err: "list_generations (dir_set d ?tmp bs) = list_generations d" for bs
      by (simp add: list_generations_set_other generation_of_tmp)
    consider "(\<exists>e. res = Err e) \<and> (\<exists>bs. d' = dir_set d ?tmp bs)"
      | "((\<exists>e. res = Err e) \<or> res = Ok m') \<and>
         (d' = d1 \<or> d' = prune_generations rmfail (mf_generation m) d1)"
      using w by (cases io) (auto simp: d1_def)
    then show ?thesis
    proof cases
      case 1
      then show ?thesis
        using err gens_upto_set_tmp assms(3) by auto
    next
      case 2
      note new = newest_after_set [OF upto assms(4) d1_def conjunct2 [OF 2]]
      show ?thesis
        using conjunct1 [OF 2] new load same
        by (intro conjI) (assumption, rule disjI2, intro exI [of _ m'] exI [of _ bytes], simp)
    qed
  qed
qed

text \<open>
  C11: publishing a generation is atomic. When a manifest with a new highest generation number is
  written over a directory of older ones, then whatever goes wrong (the temporary file is only
  partly written, the rename fails, the directory sync fails), a reader afterwards either sees
  exactly what it saw before or sees the new manifest; and when the write succeeds it sees the new
  manifest, also after the old generations are pruned.
\<close>

theorem Manifest_write_atomic:
  assumes "Manifest_write crc to_vec to_vec_pretty io rmfail m d = (res, d')"
    and "\<forall>bs m'. to_vec_pretty m' = Inr bs \<longrightarrow> from_slice bs = Inr m'"
    and "\<forall>x \<in> set (list_generations d). fst x < mf_generation m" and "mf_generation m < 2 ^ 64"
    and "mf_format_version m = MANIFEST_FORMAT_VERSION" and "\<forall>s \<in> set (mf_segments m). exists_seg (sm_file s)"
  shows "case res of
      Ok m' \<Rightarrow> mf_checksum m' \<noteq> None \<and> m'\<lparr>mf_checksum := None\<rparr> = m\<lparr>mf_checksum := None\<rparr> \<and>
        load_latest crc to_vec from_slice exists_seg (Some d') = Ok (Some (m', []))
    | Err _ \<Rightarrow>
        load_latest crc to_vec from_slice exists_seg (Some d') = load_latest crc to_vec from_slice exists_seg (Some d) \<or>
        (\<exists>m'. m'\<lparr>mf_checksum := None\<rparr> = m\<lparr>mf_checksum := None\<rparr> \<and>
          load_latest crc to_vec from_slice exists_seg (Some d') = Ok (Some (m', [])))"
  using write_effect [OF assms(1,2) gens_upto_below [OF assms(3)] assms(4,5)]
proof (elim disjE exE conjE)
  fix e
  assume "res = Err e" "list_generations d' = list_generations d"
  then show ?thesis
    by (simp add: load_latest_def)
next
  fix m' bs e
  assume "m'\<lparr>mf_checksum := None\<rparr> = m\<lparr>mf_checksum := None\<rparr>" "res = Err e"
    "(mf_generation m, bs) \<in> set (list_generations d')"
    "\<forall>x \<in> set (list_generations d'). x = (mf_generation m, bs) \<or> fst x < mf_generation m"
    "\<forall>exists_seg. (\<forall>s \<in> set (mf_segments m). exists_seg (sm_file s)) \<longrightarrow>
       manifest_load_file crc to_vec from_slice exists_seg bs = Ok m'"
  then show ?thesis
    using load_latest_greatest [of "mf_generation m" bs d' crc to_vec from_slice exists_seg m'] assms(6) by auto
next
  fix m' bs
  assume "m'\<lparr>mf_checksum := None\<rparr> = m\<lparr>mf_checksum := None\<rparr>" "mf_checksum m' \<noteq> None" "res = Ok m'"
    "(mf_generation m, bs) \<in> set (list_generations d')"
    "\<forall>x \<in> set (list_generations d'). x = (mf_generation m, bs) \<or> fst x < mf_generation m"
    "\<forall>exists_seg. (\<forall>s \<in> set (mf_segments m). exists_seg (sm_file s)) \<longrightarrow>
       manifest_load_file crc to_vec from_slice exists_seg bs = Ok m'"
  then show ?thesis
    using load_latest_greatest [of "mf_generation m" bs d' crc to_vec from_slice exists_seg m'] assms(6) by simp
qed

text \<open>A codec that knows one manifest.\<close>

definition sample_manifest :: Manifest where
  "sample_manifest = (Manifest_initial 1 2 1700000000000000)\<lparr>mf_generation := 1\<rparr>"

definition sample_manifest_to_vec :: "Manifest \<Rightarrow> unit + u8 list" where
  "sample_manifest_to_vec m =
     (if m = sample_manifest then Inr [1]
      else if m = sample_manifest\<lparr>mf_checksum := Some 5\<rparr> then Inr [2] else Inl ())"

definition sample_manifest_from_slice :: "u8 list \<Rightarrow> unit + Manifest" where
  "sample_manifest_from_slice bs =
     (if bs = [1] then Inr sample_manifest
      else if bs = [2] then Inr (sample_manifest\<lparr>mf_checksum := Some 5\<rparr>) else Inl ())"

lemma sample_checksum: "sample_manifest\<lparr>mf_checksum := None\<rparr> = sample_manifest"
  "sample_manifest\<lparr>mf_checksum := Some 5\<rparr> \<noteq> sample_manifest" "mf_generation sample_manifest = 1"
  "mf_format_version sample_manifest = MANIFEST_FORMAT_VERSION" "mf_segments sample_manifest = []"
  by (simp_all add: sample_manifest_def Manifest_initial_def)

theorem Manifest_write_atomic_witness:
  "\<exists>m' d'. Manifest_write (\<lambda>_. 5) sample_manifest_to_vec sample_manifest_to_vec MfAll (\<lambda>_. False) sample_manifest [] = (Ok m', d') \<and>
    load_latest (\<lambda>_. 5) sample_manifest_to_vec sample_manifest_from_slice (\<lambda>_. False) (Some d') = Ok (Some (m', []))"
proof -
  obtain d' where w: "Manifest_write (\<lambda>_. 5) sample_manifest_to_vec sample_manifest_to_vec MfAll (\<lambda>_. False) sample_manifest [] =
      (Ok (sample_manifest\<lparr>mf_checksum := Some 5\<rparr>), d')"
    using sample_checksum(1,2)
    by (simp add: Manifest_write_def compute_checksum_def canonical_bytes_def sample_manifest_to_vec_def)
  have "\<forall>bs m'. sample_manifest_to_vec m' = Inr bs \<longrightarrow> sample_manifest_from_slice bs = Inr m'"
    by (simp add: sample_manifest_to_vec_def sample_manifest_from_slice_def)
  from Manifest_write_atomic [OF w this, of "\<lambda>_. False"] show ?thesis
    using w sample_checksum by (auto simp: list_generations_simps)
qed

theorem load_latest_newest_valid_witness:
  "\<exists>m ws. load_latest (\<lambda>_. 5) sample_manifest_to_vec sample_manifest_from_slice (\<lambda>_. False)
      (Some [(manifest_file_name 1, [2])]) = Ok (Some (m, ws)) \<and> (\<forall>w \<in> set ws. 1 \<le> w)"
proof -
  let ?d = "[(manifest_file_name 1, [2])]"
  have gens: "list_generations ?d = [(1, [2])]"
    using generation_of_file_name [of 1] by (simp add: list_generations_simps)
  have "manifest_load_file (\<lambda>_. 5) sample_manifest_to_vec sample_manifest_from_slice (\<lambda>_. False) [2] =
      Ok (sample_manifest\<lparr>mf_checksum := Some 5\<rparr>)"
    using sample_checksum
    by (simp add: manifest_load_file_def sample_manifest_from_slice_def sample_manifest_to_vec_def
        compute_checksum_def canonical_bytes_def)
  then have "\<exists>m ws. load_latest (\<lambda>_. 5) sample_manifest_to_vec sample_manifest_from_slice (\<lambda>_. False) (Some ?d) = Ok (Some (m, ws))"
    using load_latest_greatest [of 1 "[2]" ?d] gens by auto
  then show ?thesis
    using load_latest_newest_valid [where crc = "\<lambda>_. 5" and to_vec = sample_manifest_to_vec and
        from_slice = sample_manifest_from_slice and exists_seg = "\<lambda>_. False" and d = ?d] gens
    by auto
qed

text \<open>
  Pruning keeps the fallbacks: the generations that remain after writing number \<open>g\<close> include
  every one of the eight before it, and every generation it drops is older than those.
\<close>

theorem prune_generations_keeps:
  "(n, bs) \<in> set (list_generations (prune_generations (\<lambda>_. False) g d)) \<longleftrightarrow>
   (n, bs) \<in> set (list_generations d) \<and> (g < 8 \<or> g - 8 \<le> n)"
  by (auto simp: prune_generations_def list_generations_member KEEP_GENERATIONS_def)

end
