(* ===== verification/Compaction.thy ===== *)
theory Compaction
  imports Manifest
begin

text \<open>
  The compaction planner (\<open>attemptdb-storage/src/compaction.rs\<close>): which runs of consecutive small
  segments are merged. The loops of \<open>plan\<close> are recursions over the positions of the segment list;
  \<open>u64\<close> sums of rows and bytes are naturals. Notes keep their numbers, not their texts.
\<close>

section \<open>Definitions\<close>

record CompactionPolicy =
  cp_max_segments :: nat
  cp_small_segment_bytes :: nat
  cp_min_inputs :: nat
  cp_max_run_rows :: nat

definition CompactionPolicy_default :: CompactionPolicy where
  "CompactionPolicy_default =
     \<lparr>cp_max_segments = 32, cp_small_segment_bytes = 8 * 1024 * 1024, cp_min_inputs = 4,
      cp_max_run_rows = 65536\<rparr>"

record PlannedRun =
  pr_first_index :: nat
  pr_inputs :: "SegmentMeta list"
  pr_rows :: nat
  pr_bytes :: nat
  pr_format_version :: u16

definition PlannedRun_min_source_seq :: "PlannedRun \<Rightarrow> nat" where
  "PlannedRun_min_source_seq r =
     (if pr_inputs r = [] then 0 else Min (set (map sm_min_source_seq (pr_inputs r))))"

definition PlannedRun_max_source_seq :: "PlannedRun \<Rightarrow> nat" where
  "PlannedRun_max_source_seq r =
     (if pr_inputs r = [] then 0 else Max (set (map sm_max_source_seq (pr_inputs r))))"

datatype plan_note =
    WithinLimit nat
  | RunLeftAlone nat nat
  | NoEligibleRun nat nat
  | StillAboveLimit nat

record CompactionPlan =
  pl_policy :: CompactionPolicy
  pl_segments_before :: nat
  pl_segments_after :: nat
  pl_runs :: "PlannedRun list"
  pl_notes :: "plan_note list"

definition SEGMENT_FORMAT_VERSION :: u16 where
  "SEGMENT_FORMAT_VERSION = 2"

definition small :: "CompactionPolicy \<Rightarrow> SegmentMeta \<Rightarrow> bool" where
  "small policy s \<longleftrightarrow> sm_bytes s < cp_small_segment_bytes policy"

text \<open>The inner \<open>while\<close>: the end of the run of small segments that starts at \<open>start\<close>.\<close>

function run_end :: "SegmentMeta list \<Rightarrow> u16 list \<Rightarrow> CompactionPolicy \<Rightarrow> bool \<Rightarrow> nat \<Rightarrow> nat \<Rightarrow> nat" where
  "run_end segments formats policy encryption_active start i =
     (if i < length segments \<and> small policy (segments ! i) \<and>
         (encryption_active \<or> formats ! i = formats ! start)
      then run_end segments formats policy encryption_active start (i + 1) else i)"
  by pat_completeness auto
termination by (relation "measure (\<lambda>(segments, _, _, _, _, i). length segments - i)") auto

text \<open>
  The \<open>for\<close> loop that cuts a run at the row cap, from position \<open>k\<close> to \<open>stop\<close>, with the check of
  the trailing piece: the runs kept and how many pieces were too short.
\<close>

function split_pieces ::
  "SegmentMeta list \<Rightarrow> CompactionPolicy \<Rightarrow> nat \<Rightarrow> nat \<Rightarrow> nat \<Rightarrow> nat \<Rightarrow> nat \<Rightarrow> (nat \<times> nat) list \<times> nat"
where
  "split_pieces segments policy min_inputs stop k piece rows =
     (if stop \<le> k then
        (if min_inputs \<le> stop - piece then ([(piece, stop)], 0) else ([], 1))
      else
        let r = sm_rows (segments ! k) in
        if piece < k \<and> cp_max_run_rows policy < rows + r then
          (let (runs, short) = split_pieces segments policy min_inputs stop (k + 1) k r
           in if min_inputs \<le> k - piece then ((piece, k) # runs, short) else (runs, short + 1))
        else split_pieces segments policy min_inputs stop (k + 1) piece (rows + r))"
  by pat_completeness auto
termination by (relation "measure (\<lambda>(_, _, _, stop, k, _, _). stop - k)") auto

declare run_end.simps [simp del] split_pieces.simps [simp del]

lemma run_endsge: "i \<le> run_end segments formats policy enc start i"
proof (induction segments formats policy enc start i rule: run_end.induct)
  case (1 segments formats policy enc start i)
  then show ?case
    by (subst run_end.simps) (auto intro: Suc_leD)
qed

text \<open>The outer loop: the runs, the number of large segments, the number of runs too short.\<close>

function collect_runs ::
  "SegmentMeta list \<Rightarrow> u16 list \<Rightarrow> CompactionPolicy \<Rightarrow> bool \<Rightarrow> nat \<Rightarrow> nat \<Rightarrow> (nat \<times> nat) list \<times> nat \<times> nat"
where
  "collect_runs segments formats policy encryption_active min_inputs i =
     (if length segments \<le> i then ([], 0, 0)
      else if \<not> small policy (segments ! i) then
        (let (runs, large, short) = collect_runs segments formats policy encryption_active min_inputs (i + 1)
         in (runs, large + 1, short))
      else
        (let stop = run_end segments formats policy encryption_active i (i + 1);
             (pieces, sh) = split_pieces segments policy min_inputs stop i i 0;
             (runs, large, short) = collect_runs segments formats policy encryption_active min_inputs stop
         in (pieces @ runs, large, sh + short)))"
  by pat_completeness auto
termination
  by (relation "measure (\<lambda>(segments, _, _, _, _, i). length segments - i)")
    (auto intro!: diff_less_mono2 less_le_trans [OF _ run_endsge])

declare collect_runs.simps [simp del]

text \<open>The loop that takes runs, oldest first, until the cnt is within the limit.\<close>

fun select_runs ::
  "SegmentMeta list \<Rightarrow> u16 list \<Rightarrow> CompactionPolicy \<Rightarrow> bool \<Rightarrow> nat \<Rightarrow> (nat \<times> nat) list \<Rightarrow>
   PlannedRun list \<times> plan_note list \<times> nat"
where
  "select_runs segments formats policy encryption_active cnt [] = ([], [], cnt)"
| "select_runs segments formats policy encryption_active cnt ((start, stop) # runs) =
     (if cnt \<le> cp_max_segments policy then
        (let (rs, ns, c) = select_runs segments formats policy encryption_active cnt runs
         in (rs, RunLeftAlone (stop - start) start # ns, c))
      else
        let inputs = slice start stop segments;
            run = \<lparr>pr_first_index = start, pr_inputs = inputs,
                   pr_rows = sum_list (map sm_rows inputs), pr_bytes = sum_list (map sm_bytes inputs),
                   pr_format_version =
                     (if encryption_active then SEGMENT_FORMAT_VERSION else formats ! start)\<rparr>;
            (rs, ns, c) =
              select_runs segments formats policy encryption_active (cnt - ((stop - start) - 1)) runs
        in (run # rs, ns, c))"

definition compaction_plan :: "SegmentMeta list \<Rightarrow> u16 list \<Rightarrow> CompactionPolicy \<Rightarrow> bool \<Rightarrow> CompactionPlan" where
  "compaction_plan segments formats policy encryption_active =
     (let n = length segments;
          min_inputs = max (cp_min_inputs policy) 2
      in if n \<le> cp_max_segments policy then
           \<lparr>pl_policy = policy, pl_segments_before = n, pl_segments_after = n, pl_runs = [],
            pl_notes = [WithinLimit n]\<rparr>
         else
           let (runs, large, short) = collect_runs segments formats policy encryption_active min_inputs 0;
               (planned, notes, cnt) = select_runs segments formats policy encryption_active n runs;
               notes' =
                 (if planned = [] then notes @ [NoEligibleRun large short]
                  else if cp_max_segments policy < cnt then notes @ [StillAboveLimit cnt]
                  else notes)
           in \<lparr>pl_policy = policy, pl_segments_before = n, pl_segments_after = cnt,
               pl_runs = planned, pl_notes = notes'\<rparr>)"

section \<open>Runs\<close>

text \<open>What a run of positions must satisfy to be merged.\<close>

definition run_ok ::
  "SegmentMeta list \<Rightarrow> u16 list \<Rightarrow> CompactionPolicy \<Rightarrow> bool \<Rightarrow> nat \<Rightarrow> nat \<times> nat \<Rightarrow> bool"
where
  "run_ok segments formats policy enc min_inputs ab \<longleftrightarrow>
     fst ab + min_inputs \<le> snd ab \<and> snd ab \<le> length segments \<and>
     (\<forall>i \<in> {fst ab ..< snd ab}. small policy (segments ! i) \<and> (enc \<or> formats ! i = formats ! fst ab)) \<and>
     (\<Sum>i \<in> {fst ab ..< snd ab}. sm_rows (segments ! i)) \<le> cp_max_run_rows policy"

text \<open>Runs in increasing order without overlap, between two positions.\<close>

fun chain :: "nat \<Rightarrow> (nat \<times> nat) list \<Rightarrow> nat \<Rightarrow> bool" where
  "chain lo [] hi \<longleftrightarrow> lo \<le> hi"
| "chain lo ((a, b) # rs) hi \<longleftrightarrow> lo \<le> a \<and> a < b \<and> chain b rs hi"

lemma chain_mono: "chain lo rs hi \<Longrightarrow> lo' \<le> lo \<Longrightarrow> hi \<le> hi' \<Longrightarrow> chain lo' rs hi'"
  by (induction lo rs hi arbitrary: lo' rule: chain.induct) auto

lemma chain_append: "chain lo rs mid \<Longrightarrow> chain mid ss hi \<Longrightarrow> chain lo (rs @ ss) hi"
  by (induction lo rs mid rule: chain.induct) (auto intro: chain_mono)

lemma split_pieces_ok:
  assumes "split_pieces segments policy m stop k piece rows = (runs, short)"
    and "piece \<le> k" "k \<le> stop" "stop \<le> length segments" "2 \<le> m" "piece < stop"
    and "rows = (\<Sum>i \<in> {piece ..< k}. sm_rows (segments ! i))"
    and "piece + 1 < k \<longrightarrow> rows \<le> cp_max_run_rows policy"
    and "\<forall>i \<in> {piece ..< stop}. small policy (segments ! i) \<and> (enc \<or> formats ! i = fmt)"
  shows "chain piece runs stop \<and> (\<forall>ab \<in> set runs. run_ok segments formats policy enc m ab)"
  using assms
proof (induction segments policy m stop k piece rows arbitrary: runs short rule: split_pieces.induct)
  case (1 segments policy m stop k piece rows)
  let ?r = "sm_rows (segments ! k)"
  have piece_ok: "run_ok segments formats policy enc m (piece, j)"
    if "m \<le> j - piece" "j \<le> k" for j
  proof -
    have "piece + 1 < k"
      using that "1.prems" by linarith
    moreover have "(\<Sum>i \<in> {piece ..< j}. sm_rows (segments ! i)) \<le> rows"
      using that "1.prems"(7) by (auto intro!: sum_mono2)
    ultimately show ?thesis
      using that "1.prems" by (auto simp: run_ok_def)
  qed
  show ?case
  proof (cases "stop \<le> k")
    case True
    then show ?thesis
      using "1.prems" piece_ok [of stop]
      by (subst (asm) split_pieces.simps) (auto split: if_splits)
  next
    case False
    have rows': "rows + ?r = (\<Sum>i \<in> {piece ..< k + 1}. sm_rows (segments ! i))"
      using "1.prems" by simp
    show ?thesis
    proof (cases "piece < k \<and> cp_max_run_rows policy < rows + ?r")
      case cut: True
      obtain runs' short' where rec: "split_pieces segments policy m stop (k + 1) k ?r = (runs', short')"
        by (cases "split_pieces segments policy m stop (k + 1) k ?r")
      have "chain k runs' stop \<and> (\<forall>ab \<in> set runs'. run_ok segments formats policy enc m ab)"
        using "1.prems" False cut by (intro "1.IH"(1) [OF _ _ _ rec]) auto
      moreover have "runs = (if m \<le> k - piece then (piece, k) # runs' else runs')"
        using "1.prems"(1) False cut rec
        by (subst (asm) split_pieces.simps) (auto simp: Let_def split: if_splits)
      ultimately show ?thesis
        using piece_ok [of k] cut "1.prems"(2) by (auto intro: chain_mono)
    next
      case go: False
      have "split_pieces segments policy m stop (k + 1) piece (rows + ?r) = (runs, short)"
        using "1.prems"(1) False go by (subst (asm) split_pieces.simps) (auto simp: Let_def)
      then show ?thesis
        using "1.prems" False go rows'
        by (intro "1.IH"(2)) auto
    qed
  qed
qed

lemma run_endsfacts:
  assumes "i \<le> length segments"
  shows "run_end segments formats policy enc start i \<le> length segments \<and>
    (\<forall>j \<in> {i ..< run_end segments formats policy enc start i}.
      small policy (segments ! j) \<and> (enc \<or> formats ! j = formats ! start))"
  using assms
proof (induction segments formats policy enc start i rule: run_end.induct)
  case (1 segments formats policy enc start i)
  show ?case
  proof (cases "i < length segments \<and> small policy (segments ! i) \<and> (enc \<or> formats ! i = formats ! start)")
    case True
    then have "run_end segments formats policy enc start i = run_end segments formats policy enc start (i + 1)"
      by (subst run_end.simps) simp
    moreover have "j = i \<or> j \<in> {i + 1 ..< b}" if "j \<in> {i ..< b}" for j b
      using that by auto
    ultimately show ?thesis
      using 1 True by (metis Suc_eq_plus1 Suc_leI)
  next
    case False
    then have "run_end segments formats policy enc start i = i"
      by (subst run_end.simps) auto
    then show ?thesis
      using "1.prems" by simp
  qed
qed

lemma collect_runs_ok:
  assumes "collect_runs segments formats policy enc m i = (runs, large, short)" and "i \<le> length segments" and "2 \<le> m"
  shows "chain i runs (length segments) \<and> (\<forall>ab \<in> set runs. run_ok segments formats policy enc m ab)"
  using assms
proof (induction segments formats policy enc m i arbitrary: runs large short rule: collect_runs.induct)
  case (1 segments formats policy enc m i)
  show ?case
  proof (cases "length segments \<le> i")
    case True
    then show ?thesis
      using "1.prems" by (subst (asm) collect_runs.simps) auto
  next
    case False
    show ?thesis
    proof (cases "small policy (segments ! i)")
      case large: False
      obtain runs' l' s' where rec: "collect_runs segments formats policy enc m (i + 1) = (runs', l', s')"
        by (cases "collect_runs segments formats policy enc m (i + 1)")
      then have "runs = runs'"
        using "1.prems"(1) False large by (subst (asm) collect_runs.simps) auto
      then show ?thesis
        using "1.IH"(1) [OF False large rec] "1.prems" False by (auto intro: chain_mono)
    next
      case small: True
      define stop where "stop = run_end segments formats policy enc i (i + 1)"
      obtain pieces sh where pieces: "split_pieces segments policy m stop i i 0 = (pieces, sh)"
        by (cases "split_pieces segments policy m stop i i 0")
      obtain runs' l' s' where rec: "collect_runs segments formats policy enc m stop = (runs', l', s')"
        by (cases "collect_runs segments formats policy enc m stop")
      have stop: "i < stop" "stop \<le> length segments"
        using run_endsge [of "i + 1" segments formats policy enc i]
          run_endsfacts [of "i + 1" segments formats policy enc i] False
        by (simp_all add: stop_def)
      have all: "\<forall>j \<in> {i ..< stop}. small policy (segments ! j) \<and> (enc \<or> formats ! j = formats ! i)"
        using run_endsfacts [of "i + 1" segments formats policy enc i] False small
        by (force simp: stop_def dest!: le_neq_implies_less)
      have "chain i pieces stop \<and> (\<forall>ab \<in> set pieces. run_ok segments formats policy enc m ab)"
        using stop "1.prems"(3) all by (intro split_pieces_ok [OF pieces]) auto
      moreover have "chain stop runs' (length segments) \<and> (\<forall>ab \<in> set runs'. run_ok segments formats policy enc m ab)"
        using "1.IH"(2) [OF False _ stop_def pieces [symmetric] refl, unfolded stop_def] rec stop "1.prems"(3) small
        by (auto simp: stop_def)
      moreover have "runs = pieces @ runs'"
        using "1.prems"(1) False small pieces rec
        by (subst (asm) collect_runs.simps) (auto simp: stop_def Let_def)
      ultimately show ?thesis
        by (auto intro: chain_append)
    qed
  qed
qed

lemma chain_total: "chain lo runs hi \<Longrightarrow> lo + sum_list (map (\<lambda>(a, b). b - a) runs) \<le> hi"
  by (induction lo runs hi rule: chain.induct) auto

lemma chain_bounds: "chain lo runs hi \<Longrightarrow> (a, b) \<in> set runs \<Longrightarrow> lo \<le> a \<and> b \<le> hi \<and> a < b"
proof (induction lo runs hi rule: chain.induct)
  case (2 lo a' b' rs hi)
  have "chain b' rs hi \<Longrightarrow> b' \<le> hi"
    by (induction b' rs hi rule: chain.induct) auto
  with 2 show ?case by auto
qed simp

text \<open>A planned run and the positions it was made from.\<close>

definition run_at :: "SegmentMeta list \<Rightarrow> u16 list \<Rightarrow> bool \<Rightarrow> PlannedRun \<Rightarrow> nat \<times> nat \<Rightarrow> bool" where
  "run_at segments formats enc r ab \<longleftrightarrow>
     pr_first_index r = fst ab \<and> pr_inputs r = slice (fst ab) (snd ab) segments \<and>
     pr_rows r = sum_list (map sm_rows (pr_inputs r)) \<and> pr_bytes r = sum_list (map sm_bytes (pr_inputs r)) \<and>
     pr_format_version r = (if enc then SEGMENT_FORMAT_VERSION else formats ! fst ab)"

definition before :: "PlannedRun \<Rightarrow> PlannedRun \<Rightarrow> bool" where
  "before r r' \<longleftrightarrow> pr_first_index r + length (pr_inputs r) \<le> pr_first_index r'"

definition saved :: "PlannedRun list \<Rightarrow> nat" where
  "saved rs = sum_list (map (\<lambda>r. length (pr_inputs r) - 1) rs)"

lemma select_runs_none:
  "cnt \<le> cp_max_segments policy \<Longrightarrow>
   \<exists>ns. select_runs segments formats policy enc cnt runs = ([], ns, cnt)"
  by (induction runs) (auto simp: Let_def split: prod.splits)

lemma select_runs_ok:
  assumes "select_runs segments formats policy enc cnt runs = (rs, ns, c)"
    and "chain lo runs hi" and "hi \<le> length segments" and "sum_list (map (\<lambda>(a, b). b - a) runs) \<le> cnt"
  shows "(\<forall>r \<in> set rs. \<exists>ab \<in> set runs. run_at segments formats enc r ab) \<and> sorted_wrt before rs \<and>
    c + saved rs = cnt \<and>
    (rs \<noteq> [] \<longrightarrow> cp_max_segments policy < c + (length (pr_inputs (last rs)) - 1))"
  using assms
proof (induction runs arbitrary: cnt lo rs ns c)
  case Nil
  then show ?case by (simp add: saved_def)
next
  case (Cons ab runs)
  obtain a b where ab: "ab = (a, b)"
    by (cases ab)
  show ?case
  proof (cases "cnt \<le> cp_max_segments policy")
    case True
    then have "rs = []" "c = cnt"
      using Cons.prems(1) select_runs_none [OF True, of segments formats enc "ab # runs"] by auto
    then show ?thesis by (simp add: saved_def)
  next
    case False
    let ?cnt = "cnt - ((b - a) - 1)"
    define run where "run = \<lparr>pr_first_index = a, pr_inputs = slice a b segments,
        pr_rows = sum_list (map sm_rows (slice a b segments)),
        pr_bytes = sum_list (map sm_bytes (slice a b segments)),
        pr_format_version = (if enc then SEGMENT_FORMAT_VERSION else formats ! a)\<rparr>"
    obtain rs' ns' c' where rec: "select_runs segments formats policy enc ?cnt runs = (rs', ns', c')"
      by (cases "select_runs segments formats policy enc ?cnt runs")
    have rs: "rs = run # rs'" "c = c'"
      using Cons.prems(1) False rec by (auto simp: ab run_def Let_def)
    have ch: "chain b runs hi" "a < b" "b \<le> hi"
      using Cons.prems(2) chain_bounds [OF Cons.prems(2), of a b] by (auto simp: ab)
    then have len: "length (pr_inputs run) = b - a"
      using Cons.prems(3) by (simp add: run_def slice_length)
    have ih: "(\<forall>r \<in> set rs'. \<exists>ab \<in> set runs. run_at segments formats enc r ab) \<and> sorted_wrt before rs' \<and>
        c' + saved rs' = ?cnt \<and>
        (rs' \<noteq> [] \<longrightarrow> cp_max_segments policy < c' + (length (pr_inputs (last rs')) - 1))"
      using Cons.prems ch by (intro Cons.IH [OF rec ch(1)]) (auto simp: ab)
    have at: "run_at segments formats enc run (a, b)"
      by (simp add: run_at_def run_def)
    have "before run r" if r: "r \<in> set rs'" for r
    proof -
      obtain x y where xy: "(x, y) \<in> set runs" "run_at segments formats enc r (x, y)"
        using ih r by auto
      then have "b \<le> x"
        using chain_bounds [OF ch(1) xy(1)] by simp
      then show ?thesis
        using xy(2) len ch(2) by (simp add: before_def run_at_def run_def)
    qed
    moreover have "c' + saved rs = cnt"
      using ih rs len Cons.prems(4) ch(2) by (auto simp: saved_def ab)
    moreover have "cp_max_segments policy < c' + (length (pr_inputs (last rs)) - 1)"
      using ih rs len False Cons.prems(4) ch(2) by (cases "rs' = []") (auto simp: saved_def ab)
    ultimately show ?thesis
      using ih at rs ab by auto
  qed
qed

section \<open>Theorem\<close>

lemma slice_nth: "b \<le> length xs \<Longrightarrow> slice a b xs = map ((!) xs) [a ..< b]"
  by (auto simp: slice_def intro!: nth_equalityI)

lemma sum_list_slice:
  "b \<le> length xs \<Longrightarrow> sum_list (map f (slice a b xs)) = (\<Sum>i \<in> {a ..< b}. f (xs ! i))"
  by (simp add: slice_nth sum_list_distinct_conv_sum_set comp_def)

text \<open>The plan, with all that is known of its runs.\<close>

lemma plan_ok:
  assumes "p = compaction_plan segments formats policy enc"
  shows "(\<forall>r \<in> set (pl_runs p).
      pr_inputs r = slice (pr_first_index r) (pr_first_index r + length (pr_inputs r)) segments \<and>
      max (cp_min_inputs policy) 2 \<le> length (pr_inputs r) \<and>
      (\<forall>s \<in> set (pr_inputs r). small policy s) \<and>
      pr_rows r = sum_list (map sm_rows (pr_inputs r)) \<and> pr_rows r \<le> cp_max_run_rows policy \<and>
      (enc \<or> (\<forall>i < length (pr_inputs r). formats ! (pr_first_index r + i) = pr_format_version r))) \<and>
    sorted_wrt before (pl_runs p) \<and>
    pl_segments_after p + saved (pl_runs p) = length segments \<and>
    (pl_runs p \<noteq> [] \<longrightarrow> cp_max_segments policy < length segments \<and>
      cp_max_segments policy < pl_segments_after p + (length (pr_inputs (last (pl_runs p))) - 1))"
proof (cases "length segments \<le> cp_max_segments policy")
  case True
  then show ?thesis
    using assms by (simp add: compaction_plan_def saved_def Let_def)
next
  case False
  define m where "m = max (cp_min_inputs policy) 2"
  obtain runs large short where col: "collect_runs segments formats policy enc m 0 = (runs, large, short)"
    by (cases "collect_runs segments formats policy enc m 0")
  obtain rs ns c where sel: "select_runs segments formats policy enc (length segments) runs = (rs, ns, c)"
    by (cases "select_runs segments formats policy enc (length segments) runs")
  have p: "pl_runs p = rs" "pl_segments_after p = c"
    using assms False col sel by (auto simp: compaction_plan_def m_def Let_def)
  have runs: "chain 0 runs (length segments)" "\<forall>ab \<in> set runs. run_ok segments formats policy enc m ab"
    using collect_runs_ok [OF col] by (auto simp: m_def)
  note ok = select_runs_ok [OF sel runs(1) order_refl] chain_total [OF runs(1)]
  have each: "pr_inputs r = slice (pr_first_index r) (pr_first_index r + length (pr_inputs r)) segments \<and>
      m \<le> length (pr_inputs r) \<and> (\<forall>s \<in> set (pr_inputs r). small policy s) \<and>
      pr_rows r = sum_list (map sm_rows (pr_inputs r)) \<and> pr_rows r \<le> cp_max_run_rows policy \<and>
      (enc \<or> (\<forall>i < length (pr_inputs r). formats ! (pr_first_index r + i) = pr_format_version r))"
    if r: "r \<in> set rs" for r
  proof -
    obtain a b where ab: "(a, b) \<in> set runs" "run_at segments formats enc r (a, b)"
      using ok r by auto
    have "run_ok segments formats policy enc m (a, b)"
      using runs(2) ab(1) by blast
    then have rok: "a + m \<le> b" "b \<le> length segments"
      "\<forall>i \<in> {a ..< b}. small policy (segments ! i) \<and> (enc \<or> formats ! i = formats ! a)"
      "(\<Sum>i \<in> {a ..< b}. sm_rows (segments ! i)) \<le> cp_max_run_rows policy"
      by (simp_all add: run_ok_def)
    have inputs: "pr_inputs r = slice a b segments" "pr_first_index r = a" "length (pr_inputs r) = b - a"
      using ab(2) rok(2) by (simp_all add: run_at_def slice_length)
    have ends: "a + (b - a) = b" "m \<le> b - a"
      using rok(1) by auto
    have "set (pr_inputs r) = (!) segments ` {a ..< b}"
      using inputs(1) rok(2) by (simp add: slice_nth)
    then have sm: "\<forall>s \<in> set (pr_inputs r). small policy s"
      using rok(3) by (metis (no_types, lifting) imageE)
    have rows: "pr_rows r = sum_list (map sm_rows (pr_inputs r))"
      using ab(2) unfolding run_at_def by blast
    have cap: "pr_rows r \<le> cp_max_run_rows policy"
      unfolding rows inputs(1) sum_list_slice [OF rok(2)] by (rule rok(4))
    have "formats ! (a + i) = pr_format_version r" if "\<not> enc" "i < b - a" for i
    proof -
      have "a + i \<in> {a ..< b}"
        using that(2) by simp
      then have "formats ! (a + i) = formats ! a"
        using rok(3) that(1) by blast
      then show ?thesis
        using ab(2) that(1) by (simp add: run_at_def)
    qed
    then show ?thesis
      unfolding inputs(2,3) ends(1) using inputs(1) ends(2) sm rows cap by blast
  qed
  have "cp_max_segments policy < length segments"
    using False by simp
  then show ?thesis
    unfolding p m_def [symmetric] using each ok(1) ok(2) by (metis add_0)
qed

text \<open>
  C15: a compaction plan is safe. Every planned run is a block of consecutive segments of the
  manifest, of at least two (and at least the policy's minimum) inputs, all of them small, with at
  most the policy's number of rows together, and without an encryption key all of one format,
  which is the output's. The runs are in manifest order and share no segment; the reported count
  afterwards is exact; nothing is planned within the limit, and no run is merged once the count is
  within it.
\<close>

theorem compaction_plan_sound:
  assumes "p = compaction_plan segments formats policy enc"
  shows "(\<forall>r \<in> set (pl_runs p).
      pr_inputs r = slice (pr_first_index r) (pr_first_index r + length (pr_inputs r)) segments \<and>
      max (cp_min_inputs policy) 2 \<le> length (pr_inputs r) \<and>
      (\<forall>s \<in> set (pr_inputs r). small policy s) \<and>
      pr_rows r = sum_list (map sm_rows (pr_inputs r)) \<and> pr_rows r \<le> cp_max_run_rows policy \<and>
      (enc \<or> (\<forall>i < length (pr_inputs r). formats ! (pr_first_index r + i) = pr_format_version r))) \<and>
    sorted_wrt before (pl_runs p) \<and>
    pl_segments_after p + saved (pl_runs p) = length segments \<and>
    (pl_runs p \<noteq> [] \<longrightarrow> cp_max_segments policy < length segments \<and>
      cp_max_segments policy < pl_segments_after p + (length (pr_inputs (last (pl_runs p))) - 1))"
  by (rule plan_ok [OF assms])

definition sample_segment :: "nat \<Rightarrow> SegmentMeta" where
  "sample_segment i =
     \<lparr>sm_segment_id = of_nat i, sm_file = pad6 i, sm_rows = 10, sm_bytes = 10, sm_min_observed_at = 0,
      sm_max_observed_at = 0, sm_min_hlc = 0, sm_max_hlc = 0, sm_min_source_seq = 10 * i + 1,
      sm_max_source_seq = 10 * i + 10, sm_min_event_id = 0, sm_max_event_id = 9, sm_providers = [],
      sm_project_ids = [], sm_session_count = 1, sm_sha256 = []\<rparr>"

definition sample_policy :: CompactionPolicy where
  "sample_policy = \<lparr>cp_max_segments = 1, cp_small_segment_bytes = 100, cp_min_inputs = 2, cp_max_run_rows = 25\<rparr>"

theorem compaction_plan_sound_witness:
  "map pr_first_index (pl_runs (compaction_plan (map sample_segment [0 ..< 4]) [1, 1, 1, 1] sample_policy False)) = [0, 2] \<and>
   pl_segments_after (compaction_plan (map sample_segment [0 ..< 4]) [1, 1, 1, 1] sample_policy False) + 2 = 4"
proof -
  let ?p = "compaction_plan (map sample_segment [0 ..< 4]) [1, 1, 1, 1] sample_policy False"
  have runs: "map pr_first_index (pl_runs ?p) = [0, 2]" "saved (pl_runs ?p) = 2"
    by code_simp+
  then show ?thesis
    using compaction_plan_sound [OF refl, of "map sample_segment [0 ..< 4]" "[1, 1, 1, 1]" sample_policy False] by simp
qed

end
