(* ===== verification/Segment.thy ===== *)
theory Segment
  imports Compaction "HOL-Library.List_Lexorder" "HOL-Library.Char_ord"
begin

text \<open>
  Segment files (\<open>attemptdb-storage/src/segment.rs\<close>): the columnar schema of an event, how an
  event is written as one row of cells and read back, how stored rows are copied between files
  without touching their content, the metadata the manifest keeps of a segment, and the segment
  directory.

  A row of an Arrow batch is a list of cells in the order of the schema; the Arrow container
  itself (dictionaries, compression, batching by 4,096 rows) is not modelled. The JSON texts of
  \<open>serde_json\<close> are a parameter, so are the encrypted blobs: a sink stores a text and returns its
  hexadecimal id, a reader gives the text of an id back when it has the key.
\<close>

section \<open>Schema\<close>

datatype DataType = FixedSizeBinary16 | UInt16 | UInt64 | Int32 | TimestampUs | Utf8 | Dict

datatype Layout = Inline | Refs

record Field =
  fd_name :: string
  fd_type :: DataType
  fd_nullable :: bool
  fd_id :: nat
  fd_derivation :: "string option"

definition field :: "string \<Rightarrow> DataType \<Rightarrow> bool \<Rightarrow> nat \<Rightarrow> Field" where
  "field name dt nullable fid =
     \<lparr>fd_name = name, fd_type = dt, fd_nullable = nullable, fd_id = fid, fd_derivation = None\<rparr>"

definition field_derived :: "string \<Rightarrow> DataType \<Rightarrow> bool \<Rightarrow> nat \<Rightarrow> string \<Rightarrow> Field" where
  "field_derived name dt nullable fid derivation =
     (field name dt nullable fid)\<lparr>fd_derivation := Some derivation\<rparr>"

definition SEGMENT_FORMAT_VERSION_INLINE :: u16 where
  "SEGMENT_FORMAT_VERSION_INLINE = 1"

definition MIN_SEGMENT_FORMAT_VERSION :: u16 where
  "MIN_SEGMENT_FORMAT_VERSION = 1"

text \<open>The columns up to the attributes, which both layouts share.\<close>

definition common_fields :: "Field list" where
  "common_fields =
    [field ''event_id'' FixedSizeBinary16 False 1,
     field ''schema_version'' UInt16 False 2,
     field ''device_id'' FixedSizeBinary16 False 3,
     field ''source_seq'' UInt64 False 4,
     field ''hlc'' UInt64 False 5,
     field ''observed_at'' TimestampUs False 6,
     field ''captured_at'' TimestampUs False 7,
     field ''ingested_at'' TimestampUs True 8,
     field ''provider'' Dict False 20,
     field ''provider_version'' Utf8 True 21,
     field ''adapter_version'' Utf8 False 22,
     field ''hook_version'' Utf8 True 23,
     field ''capture_mode'' Dict False 24,
     field ''provider_event_name'' Dict False 25,
     field ''kind'' Dict False 40,
     field ''project_id'' FixedSizeBinary16 False 41,
     field ''project_root'' Dict False 42,
     field ''project_name'' Dict False 43,
     field ''repo_remote'' Utf8 True 44,
     field ''branch'' Utf8 True 45,
     field ''head'' Utf8 True 46,
     field ''session_id'' FixedSizeBinary16 False 60,
     field ''provider_session_id'' Utf8 False 61,
     field ''provider_turn_id'' Utf8 True 62,
     field ''span_id'' FixedSizeBinary16 True 63,
     field ''parent_span_id'' FixedSizeBinary16 True 64,
     field ''agent_id'' FixedSizeBinary16 False 80,
     field ''agent_type'' Utf8 True 81,
     field ''parent_agent_id'' FixedSizeBinary16 True 82,
     field ''model'' Utf8 True 83,
     field ''provider_agent_id'' Utf8 True 84,
     field ''tool_name'' Dict True 100,
     field ''tool_category'' Dict True 101,
     field ''tool_call_id'' Utf8 True 102,
     field ''path_logical'' Utf8 True 121,
     field ''path_relative'' Utf8 True 122,
     field ''paths_json'' Utf8 True 120,
     field ''outcome_status'' Dict True 130,
     field ''outcome_class'' Utf8 True 131,
     field ''exit_code'' Int32 True 132,
     field ''duration_ms'' UInt64 True 140,
     field ''attrs_json'' Utf8 False 200]"

definition build_schema :: "Layout \<Rightarrow> Field list \<times> u16" where
  "build_schema layout =
     (case layout of
        Inline \<Rightarrow>
          (common_fields @
           [field ''content_json'' Utf8 True 210, field ''raw_json'' Utf8 True 211] @
           [field ''unknown_json'' Utf8 True 250], SEGMENT_FORMAT_VERSION_INLINE)
      | Refs \<Rightarrow>
          (common_fields @
           [field_derived ''content_json'' Utf8 True 210 ''inline'',
            field_derived ''raw_json'' Utf8 True 211 ''inline'',
            field_derived ''content_ref'' Utf8 True 210 ''ref'',
            field_derived ''raw_ref'' Utf8 True 211 ''ref''] @
           [field ''unknown_json'' Utf8 True 250], SEGMENT_FORMAT_VERSION))"

definition events_schema :: "Field list" where
  "events_schema = fst (build_schema Refs)"

section \<open>Writing a row\<close>

datatype cell = CNull | CBytes uuid | CU16 u16 | CU64 nat | CI32 int | CTs Timestamp | CStr string

text \<open>The texts of \<open>serde_json\<close>: writers may fail, readers reject what is not of their type.\<close>

record Serde =
  sd_paths :: "PortablePath list \<Rightarrow> string option"
  sd_paths_of :: "string \<Rightarrow> PortablePath list option"
  sd_map :: "json_map \<Rightarrow> string option"
  sd_map_of :: "string \<Rightarrow> json_map option"
  sd_content :: "EventContent \<Rightarrow> string option"
  sd_content_of :: "string \<Rightarrow> EventContent option"
  sd_value :: "Value \<Rightarrow> string option"
  sd_value_of :: "string \<Rightarrow> Value option"

type_synonym blob_sink = "string \<Rightarrow> storage_error + string"
type_synonym blob_reader = "string \<Rightarrow> string option"

record StoredRow =
  st_event :: Event
  st_content_json :: "string option"
  st_raw_json :: "string option"
  st_content_ref :: "string option"
  st_raw_ref :: "string option"

text \<open>\<open>RowRef::from(&Event)\<close>: a fresh event carries nothing as stored.\<close>

definition RowRef_from_event :: "Event \<Rightarrow> StoredRow" where
  "RowRef_from_event ev =
     \<lparr>st_event = ev, st_content_json = None, st_raw_json = None, st_content_ref = None, st_raw_ref = None\<rparr>"

definition has_inline_content :: "StoredRow \<Rightarrow> bool" where
  "has_inline_content r \<longleftrightarrow>
     st_content_json r \<noteq> None \<or> st_raw_json r \<noteq> None \<or>
     (st_content_ref r = None \<and>
      (case ev_content (st_event r) of Some c \<Rightarrow> \<not> EventContent_is_empty c | None \<Rightarrow> False)) \<or>
     (st_raw_ref r = None \<and> ev_raw (st_event r) \<noteq> None)"

definition opt_str :: "string option \<Rightarrow> cell" where
  "opt_str v = (case v of Some s \<Rightarrow> CStr s | None \<Rightarrow> CNull)"

definition append_opt_fsb :: "uuid option \<Rightarrow> cell" where
  "append_opt_fsb v = (case v of Some b \<Rightarrow> CBytes b | None \<Rightarrow> CNull)"

definition opt_u64 :: "nat option \<Rightarrow> cell" where
  "opt_u64 v = (case v of Some n \<Rightarrow> CU64 n | None \<Rightarrow> CNull)"

definition opt_i32 :: "int option \<Rightarrow> cell" where
  "opt_i32 v = (case v of Some n \<Rightarrow> CI32 n | None \<Rightarrow> CNull)"

definition opt_ts :: "Timestamp option \<Rightarrow> cell" where
  "opt_ts v = (case v of Some t \<Rightarrow> CTs t | None \<Rightarrow> CNull)"

text \<open>
  How a text goes into the inline and the reference column: as it is without a sink, through the
  sink with one.
\<close>

definition put_text :: "blob_sink option \<Rightarrow> string \<Rightarrow> storage_error + cell \<times> cell" where
  "put_text sink t =
     (case sink of
        Some put \<Rightarrow> (case put t of Err e \<Rightarrow> Err e | Ok h \<Rightarrow> Ok (CNull, CStr h))
      | None \<Rightarrow> Ok (CStr t, CNull))"

text \<open>
  The two content columns of a row: a stored reference is copied, a stored text is moved, and a
  value of a fresh event is serialised.
\<close>

definition push_content ::
  "('a \<Rightarrow> string option) \<Rightarrow> blob_sink option \<Rightarrow> string option \<Rightarrow> string option \<Rightarrow> 'a option \<Rightarrow>
   storage_error + cell \<times> cell"
where
  "push_content to_string sink stored_ref stored_json val =
     (case stored_ref of
        Some r \<Rightarrow> Ok (CNull, CStr r)
      | None \<Rightarrow>
          (case stored_json of
             Some json \<Rightarrow> put_text sink json
           | None \<Rightarrow>
               (case val of
                  None \<Rightarrow> Ok (CNull, CNull)
                | Some c \<Rightarrow> (case to_string c of None \<Rightarrow> Err Json | Some t \<Rightarrow> put_text sink t))))"

text \<open>One row of the builders, before the layout decides which columns are kept.\<close>

record BuilderRow =
  br_common :: "cell list"
  br_content_json :: cell
  br_content_ref :: cell
  br_raw_json :: cell
  br_raw_ref :: cell
  br_unknown_json :: cell

definition common_cells :: "Event \<Rightarrow> string option \<Rightarrow> string \<Rightarrow> cell list" where
  "common_cells ev paths_text attrs_text =
    [CBytes (ev_event_id ev),
     CU16 (ev_schema_version ev),
     CBytes (ev_device_id ev),
     CU64 (ev_source_seq ev),
     CU64 (unat (ev_hlc ev)),
     CTs (ev_observed_at ev),
     CTs (ev_captured_at ev),
     opt_ts (ev_ingested_at ev),
     CStr (Provider_as_str (ev_provider ev)),
     opt_str (ev_provider_version ev),
     CStr (ev_adapter_version ev),
     opt_str (ev_hook_version ev),
     CStr (CaptureMode_as_str (ev_capture_mode ev)),
     CStr (ev_provider_event_name ev),
     CStr (EventKind_as_str (ev_kind ev)),
     CBytes (project_id (ev_project ev)),
     CStr (project_root (ev_project ev)),
     CStr (project_name (ev_project ev)),
     opt_str (project_repo_remote (ev_project ev)),
     opt_str (project_branch (ev_project ev)),
     opt_str (project_head (ev_project ev)),
     CBytes (ev_session_id ev),
     CStr (ev_provider_session_id ev),
     opt_str (ev_provider_turn_id ev),
     append_opt_fsb (ev_span_id ev),
     append_opt_fsb (ev_parent_span_id ev),
     CBytes (agent_id (ev_agent ev)),
     opt_str (agent_type (ev_agent ev)),
     append_opt_fsb (agent_parent_agent_id (ev_agent ev)),
     opt_str (agent_model (ev_agent ev)),
     opt_str (agent_provider_agent_id (ev_agent ev)),
     opt_str (map_option tool_name (ev_tool ev)),
     opt_str (map_option (\<lambda>t. ToolCategory_as_str (tool_category t)) (ev_tool ev)),
     opt_str (Option.bind (ev_tool ev) tool_call_id),
     opt_str (case ev_paths ev of p # _ \<Rightarrow> Some (pp_logical p) | [] \<Rightarrow> None),
     opt_str (case ev_paths ev of p # _ \<Rightarrow> pp_repo_relative p | [] \<Rightarrow> None),
     opt_str paths_text,
     opt_str (map_option (\<lambda>o1. OutcomeStatus_as_str (oc_status o1)) (ev_outcome ev)),
     opt_str (Option.bind (ev_outcome ev) oc_class),
     opt_i32 (Option.bind (ev_outcome ev) oc_exit_code),
     opt_u64 (ev_duration_ms ev),
     CStr attrs_text]"

text \<open>A serialiser applied where the value is present: the text, or a JSON error.\<close>

definition to_text :: "('a \<Rightarrow> string option) \<Rightarrow> 'a option \<Rightarrow> storage_error + string option" where
  "to_text f v =
     (case v of
        None \<Rightarrow> Ok None
      | Some x \<Rightarrow> (case f x of None \<Rightarrow> Err Json | Some t \<Rightarrow> Ok (Some t)))"

definition nonempty_content :: "Event \<Rightarrow> EventContent option" where
  "nonempty_content ev =
     (case ev_content ev of
        Some c \<Rightarrow> if EventContent_is_empty c then None else Some c
      | None \<Rightarrow> None)"

definition Builders_push :: "Serde \<Rightarrow> blob_sink option \<Rightarrow> StoredRow \<Rightarrow> storage_error + BuilderRow" where
  "Builders_push sd sink row =
     (let ev = st_event row in
      case to_text (sd_paths sd) (if ev_paths ev = [] then None else Some (ev_paths ev)) of
        Err e \<Rightarrow> Err e
      | Ok paths_text \<Rightarrow>
      case sd_map sd (ev_attrs ev) of
        None \<Rightarrow> Err Json
      | Some attrs_text \<Rightarrow>
      case push_content (sd_content sd) sink (st_content_ref row) (st_content_json row) (nonempty_content ev) of
        Err e \<Rightarrow> Err e
      | Ok (content_json, content_ref) \<Rightarrow>
      case push_content (sd_value sd) sink (st_raw_ref row) (st_raw_json row) (ev_raw ev) of
        Err e \<Rightarrow> Err e
      | Ok (raw_json, raw_ref) \<Rightarrow>
      case to_text (sd_map sd) (if ev_unknown ev = [] then None else Some (ev_unknown ev)) of
        Err e \<Rightarrow> Err e
      | Ok unknown_text \<Rightarrow>
          Ok \<lparr>br_common = common_cells ev paths_text attrs_text,
              br_content_json = content_json, br_content_ref = content_ref,
              br_raw_json = raw_json, br_raw_ref = raw_ref,
              br_unknown_json = opt_str unknown_text\<rparr>)"

definition Builders_finish :: "Layout \<Rightarrow> BuilderRow \<Rightarrow> cell list" where
  "Builders_finish layout b =
     br_common b @ [br_content_json b, br_raw_json b] @
     (case layout of Inline \<Rightarrow> [] | Refs \<Rightarrow> [br_content_ref b, br_raw_ref b]) @
     [br_unknown_json b]"

text \<open>A row of a batch, by column name.\<close>

type_synonym row = "(string \<times> cell) list"

definition batch_row :: "Layout \<Rightarrow> cell list \<Rightarrow> row" where
  "batch_row layout cells = zip (map fd_name (fst (build_schema layout))) cells"

text \<open>\<open>build_batch_with\<close> on one row.\<close>

definition build_row :: "Serde \<Rightarrow> blob_sink option \<Rightarrow> Layout \<Rightarrow> StoredRow \<Rightarrow> storage_error + row" where
  "build_row sd sink layout row =
     (case Builders_push sd sink row of
        Err e \<Rightarrow> Err e
      | Ok b \<Rightarrow> Ok (batch_row layout (Builders_finish layout b)))"

text \<open>
  \<open>normalize_batch\<close> on one row: the columns of the canonical schema by name, null where the file
  lacks a nullable one.
\<close>

definition normalize_row :: "row \<Rightarrow> storage_error + row" where
  "normalize_row r =
     (if map fst r = map fd_name events_schema then Ok r
      else if list_all (\<lambda>f. map_of r (fd_name f) \<noteq> None \<or> fd_nullable f) events_schema
      then Ok (map (\<lambda>f. (fd_name f, case map_of r (fd_name f) of Some c \<Rightarrow> c | None \<Rightarrow> CNull)) events_schema)
      else Err Arrow)"

section \<open>Reading a row\<close>

definition c_s :: "row \<Rightarrow> string \<Rightarrow> string option" where
  "c_s r name = (case map_of r name of Some (CStr s) \<Rightarrow> Some s | _ \<Rightarrow> None)"

definition c_fsb :: "row \<Rightarrow> string \<Rightarrow> uuid option" where
  "c_fsb r name = (case map_of r name of Some (CBytes b) \<Rightarrow> Some b | _ \<Rightarrow> None)"

definition c_u64 :: "row \<Rightarrow> string \<Rightarrow> nat option" where
  "c_u64 r name = (case map_of r name of Some (CU64 n) \<Rightarrow> Some n | _ \<Rightarrow> None)"

definition c_u16 :: "row \<Rightarrow> string \<Rightarrow> u16 option" where
  "c_u16 r name = (case map_of r name of Some (CU16 n) \<Rightarrow> Some n | _ \<Rightarrow> None)"

definition c_i32 :: "row \<Rightarrow> string \<Rightarrow> int option" where
  "c_i32 r name = (case map_of r name of Some (CI32 n) \<Rightarrow> Some n | _ \<Rightarrow> None)"

definition c_ts :: "row \<Rightarrow> string \<Rightarrow> Timestamp option" where
  "c_ts r name = (case map_of r name of Some (CTs t) \<Rightarrow> Some t | _ \<Rightarrow> None)"

definition c_json :: "(string \<Rightarrow> 'a option) \<Rightarrow> row \<Rightarrow> string \<Rightarrow> 'a option" where
  "c_json from_str r name = Option.bind (c_s r name) from_str"

definition unwrap_or :: "'a \<Rightarrow> 'a option \<Rightarrow> 'a" where
  "unwrap_or d v = (case v of Some x \<Rightarrow> x | None \<Rightarrow> d)"

definition parse_category :: "string \<Rightarrow> ToolCategory option" where
  "parse_category s =
     (if s = ''shell'' then Some Shell
      else if s = ''file_read'' then Some FileRead
      else if s = ''file_write'' then Some FileWrite
      else if s = ''file_edit'' then Some FileEdit
      else if s = ''search'' then Some Search
      else if s = ''web'' then Some Web
      else if s = ''mcp'' then Some Mcp
      else if s = ''subagent'' then Some Subagent
      else if s = ''plan'' then Some Plan
      else if s = ''notebook'' then Some Notebook
      else if s = ''other'' then Some OtherTool
      else None)"

definition parse_status :: "string \<Rightarrow> OutcomeStatus" where
  "parse_status s =
     (if s = ''success'' then Success
      else if s = ''failure'' then Failure
      else if s = ''denied'' then Denied
      else if s = ''cancelled'' then Cancelled
      else UnknownStatus)"

definition resolve_ref :: "blob_reader option \<Rightarrow> string \<Rightarrow> string option" where
  "resolve_ref reader hex = Option.bind reader (\<lambda>rd. rd hex)"

definition read_content ::
  "(string \<Rightarrow> 'a option) \<Rightarrow> blob_reader option \<Rightarrow> row \<Rightarrow> string \<Rightarrow> string \<Rightarrow> 'a option"
where
  "read_content from_str reader r json_col ref_col =
     (case c_s r json_col of
        Some inl \<Rightarrow> from_str inl
      | None \<Rightarrow> Option.bind (Option.bind (c_s r ref_col) (resolve_ref reader)) from_str)"

text \<open>\<open>batch_to_events_where\<close> on one row.\<close>

definition row_to_event :: "Serde \<Rightarrow> blob_reader option \<Rightarrow> (EventKind \<Rightarrow> bool) \<Rightarrow> row \<Rightarrow> Event" where
  "row_to_event sd reader0 wants_content r =
     (let kind = unwrap_or UnknownKind (Option.bind (c_s r ''kind'') EventKind_parse);
          reader = (if wants_content kind then reader0 else None)
      in \<lparr>ev_event_id = unwrap_or 0 (c_fsb r ''event_id''),
          ev_schema_version = unwrap_or CANONICAL_SCHEMA_VERSION (c_u16 r ''schema_version''),
          ev_device_id = unwrap_or 0 (c_fsb r ''device_id''),
          ev_source_seq = unwrap_or 0 (c_u64 r ''source_seq''),
          ev_hlc = of_nat (unwrap_or 0 (c_u64 r ''hlc'')),
          ev_observed_at = unwrap_or 0 (c_ts r ''observed_at''),
          ev_captured_at = unwrap_or 0 (c_ts r ''captured_at''),
          ev_ingested_at = c_ts r ''ingested_at'',
          ev_provider = Provider_from_str (unwrap_or [] (c_s r ''provider'')),
          ev_provider_version = c_s r ''provider_version'',
          ev_adapter_version = unwrap_or [] (c_s r ''adapter_version''),
          ev_hook_version = c_s r ''hook_version'',
          ev_capture_mode = unwrap_or MetadataOnly (map_option CaptureMode_from_stored (c_s r ''capture_mode'')),
          ev_provider_event_name = unwrap_or [] (c_s r ''provider_event_name''),
          ev_kind = kind,
          ev_project =
            \<lparr>project_id = unwrap_or 0 (c_fsb r ''project_id''),
             project_root = unwrap_or [] (c_s r ''project_root''),
             project_name = unwrap_or [] (c_s r ''project_name''),
             project_repo_remote = c_s r ''repo_remote'',
             project_branch = c_s r ''branch'',
             project_head = c_s r ''head''\<rparr>,
          ev_session_id = unwrap_or 0 (c_fsb r ''session_id''),
          ev_provider_session_id = unwrap_or [] (c_s r ''provider_session_id''),
          ev_provider_turn_id = c_s r ''provider_turn_id'',
          ev_span_id = c_fsb r ''span_id'',
          ev_parent_span_id = c_fsb r ''parent_span_id'',
          ev_agent =
            \<lparr>agent_id = unwrap_or 0 (c_fsb r ''agent_id''),
             agent_provider_agent_id = c_s r ''provider_agent_id'',
             agent_type = c_s r ''agent_type'',
             agent_parent_agent_id = c_fsb r ''parent_agent_id'',
             agent_model = c_s r ''model''\<rparr>,
          ev_tool = map_option (\<lambda>name.
             \<lparr>tool_name = name,
              tool_category = unwrap_or OtherTool (Option.bind (c_s r ''tool_category'') parse_category),
              tool_call_id = c_s r ''tool_call_id''\<rparr>) (c_s r ''tool_name''),
          ev_paths = unwrap_or [] (c_json (sd_paths_of sd) r ''paths_json''),
          ev_outcome = map_option (\<lambda>s.
             \<lparr>oc_status = parse_status s, oc_class = c_s r ''outcome_class'',
              oc_exit_code = c_i32 r ''exit_code''\<rparr>) (c_s r ''outcome_status''),
          ev_duration_ms = c_u64 r ''duration_ms'',
          ev_attrs = unwrap_or [] (c_json (sd_map_of sd) r ''attrs_json''),
          ev_content = read_content (sd_content_of sd) reader r ''content_json'' ''content_ref'',
          ev_raw = read_content (sd_value_of sd) reader r ''raw_json'' ''raw_ref'',
          ev_unknown = unwrap_or [] (c_json (sd_map_of sd) r ''unknown_json'')\<rparr>)"

text \<open>\<open>batch_to_stored_rows\<close> on one row: the event without its blobs, and the content columns as they are.\<close>

definition row_to_stored :: "Serde \<Rightarrow> row \<Rightarrow> StoredRow" where
  "row_to_stored sd r =
     \<lparr>st_event = row_to_event sd None (\<lambda>_. True) r,
      st_content_json = c_s r ''content_json'', st_raw_json = c_s r ''raw_json'',
      st_content_ref = c_s r ''content_ref'', st_raw_ref = c_s r ''raw_ref''\<rparr>"


section \<open>Schema lemmas\<close>

lemmas schema_defs = build_schema_def common_fields_def events_schema_def field_def field_derived_def

text \<open>A cell of the declared type, null only where the column is nullable.\<close>

fun cell_fits :: "Field \<Rightarrow> cell \<Rightarrow> bool" where
  "cell_fits f CNull \<longleftrightarrow> fd_nullable f"
| "cell_fits f (CBytes _) \<longleftrightarrow> fd_type f = FixedSizeBinary16"
| "cell_fits f (CU16 _) \<longleftrightarrow> fd_type f = UInt16"
| "cell_fits f (CU64 _) \<longleftrightarrow> fd_type f = UInt64"
| "cell_fits f (CI32 _) \<longleftrightarrow> fd_type f = Int32"
| "cell_fits f (CTs _) \<longleftrightarrow> fd_type f = TimestampUs"
| "cell_fits f (CStr _) \<longleftrightarrow> fd_type f = Utf8 \<or> fd_type f = Dict"

lemma cell_fits_opt:
  "fd_nullable f \<Longrightarrow> fd_type f = Utf8 \<or> fd_type f = Dict \<Longrightarrow> cell_fits f (opt_str s)"
  "fd_nullable f \<Longrightarrow> fd_type f = FixedSizeBinary16 \<Longrightarrow> cell_fits f (append_opt_fsb b)"
  "fd_nullable f \<Longrightarrow> fd_type f = UInt64 \<Longrightarrow> cell_fits f (opt_u64 n)"
  "fd_nullable f \<Longrightarrow> fd_type f = Int32 \<Longrightarrow> cell_fits f (opt_i32 i)"
  "fd_nullable f \<Longrightarrow> fd_type f = TimestampUs \<Longrightarrow> cell_fits f (opt_ts t)"
  by (auto simp: opt_str_def append_opt_fsb_def opt_u64_def opt_i32_def opt_ts_def split: option.splits)

lemma common_cells_fit: "list_all2 cell_fits common_fields (common_cells ev pt at)"
  by (simp add: common_fields_def common_cells_def field_def cell_fits_opt)

lemma push_content_text:
  "push_content f sink r j v = Ok (a, b) \<Longrightarrow>
   (a = CNull \<or> (\<exists>t. a = CStr t)) \<and> (b = CNull \<or> (\<exists>t. b = CStr t))"
  by (auto simp: push_content_def put_text_def split: option.splits sum.splits)

lemma Builders_push_Ok:
  assumes "Builders_push sd sink row = Ok b"
  obtains pt at cj cr rj rr ut where
    "to_text (sd_paths sd) (if ev_paths (st_event row) = [] then None else Some (ev_paths (st_event row))) = Ok pt"
    "sd_map sd (ev_attrs (st_event row)) = Some at"
    "push_content (sd_content sd) sink (st_content_ref row) (st_content_json row)
       (nonempty_content (st_event row)) = Ok (cj, cr)"
    "push_content (sd_value sd) sink (st_raw_ref row) (st_raw_json row) (ev_raw (st_event row)) = Ok (rj, rr)"
    "to_text (sd_map sd) (if ev_unknown (st_event row) = [] then None else Some (ev_unknown (st_event row))) = Ok ut"
    "b = \<lparr>br_common = common_cells (st_event row) pt at, br_content_json = cj, br_content_ref = cr,
          br_raw_json = rj, br_raw_ref = rr, br_unknown_json = opt_str ut\<rparr>"
  using assms by (auto simp: Builders_push_def Let_def split: sum.splits option.splits prod.splits)

text \<open>The cells of a row, looked up by column name.\<close>

lemma case_opt_cells:
  "(case opt_str s of CStr t \<Rightarrow> Some t | _ \<Rightarrow> None) = s"
  "(case append_opt_fsb b of CBytes t \<Rightarrow> Some t | _ \<Rightarrow> None) = b"
  "(case opt_u64 n of CU64 t \<Rightarrow> Some t | _ \<Rightarrow> None) = n"
  "(case opt_i32 i of CI32 t \<Rightarrow> Some t | _ \<Rightarrow> None) = i"
  "(case opt_ts w of CTs t \<Rightarrow> Some t | _ \<Rightarrow> None) = w"
  by (simp_all add: opt_str_def append_opt_fsb_def opt_u64_def opt_i32_def opt_ts_def split: option.splits)

lemma common_lookup:
  assumes "r = zip (map fd_name common_fields) (common_cells ev pt at) @ rest"
  shows "c_fsb r ''event_id'' = Some (ev_event_id ev)"
    "c_u16 r ''schema_version'' = Some (ev_schema_version ev)"
    "c_fsb r ''device_id'' = Some (ev_device_id ev)"
    "c_u64 r ''source_seq'' = Some (ev_source_seq ev)"
    "c_u64 r ''hlc'' = Some (unat (ev_hlc ev))"
    "c_ts r ''observed_at'' = Some (ev_observed_at ev)"
    "c_ts r ''captured_at'' = Some (ev_captured_at ev)"
    "c_ts r ''ingested_at'' = ev_ingested_at ev"
    "c_s r ''provider'' = Some (Provider_as_str (ev_provider ev))"
    "c_s r ''provider_version'' = ev_provider_version ev"
    "c_s r ''adapter_version'' = Some (ev_adapter_version ev)"
    "c_s r ''hook_version'' = ev_hook_version ev"
    "c_s r ''capture_mode'' = Some (CaptureMode_as_str (ev_capture_mode ev))"
    "c_s r ''provider_event_name'' = Some (ev_provider_event_name ev)"
    "c_s r ''kind'' = Some (EventKind_as_str (ev_kind ev))"
    "c_fsb r ''project_id'' = Some (project_id (ev_project ev))"
    "c_s r ''project_root'' = Some (project_root (ev_project ev))"
    "c_s r ''project_name'' = Some (project_name (ev_project ev))"
    "c_s r ''repo_remote'' = project_repo_remote (ev_project ev)"
    "c_s r ''branch'' = project_branch (ev_project ev)"
    "c_s r ''head'' = project_head (ev_project ev)"
    "c_fsb r ''session_id'' = Some (ev_session_id ev)"
    "c_s r ''provider_session_id'' = Some (ev_provider_session_id ev)"
    "c_s r ''provider_turn_id'' = ev_provider_turn_id ev"
    "c_fsb r ''span_id'' = ev_span_id ev"
    "c_fsb r ''parent_span_id'' = ev_parent_span_id ev"
    "c_fsb r ''agent_id'' = Some (agent_id (ev_agent ev))"
    "c_s r ''agent_type'' = agent_type (ev_agent ev)"
    "c_fsb r ''parent_agent_id'' = agent_parent_agent_id (ev_agent ev)"
    "c_s r ''model'' = agent_model (ev_agent ev)"
    "c_s r ''provider_agent_id'' = agent_provider_agent_id (ev_agent ev)"
    "c_s r ''tool_name'' = map_option tool_name (ev_tool ev)"
    "c_s r ''tool_category'' = map_option (\<lambda>t. ToolCategory_as_str (tool_category t)) (ev_tool ev)"
    "c_s r ''tool_call_id'' = Option.bind (ev_tool ev) tool_call_id"
    "c_s r ''paths_json'' = pt"
    "c_s r ''outcome_status'' = map_option (\<lambda>o1. OutcomeStatus_as_str (oc_status o1)) (ev_outcome ev)"
    "c_s r ''outcome_class'' = Option.bind (ev_outcome ev) oc_class"
    "c_i32 r ''exit_code'' = Option.bind (ev_outcome ev) oc_exit_code"
    "c_u64 r ''duration_ms'' = ev_duration_ms ev"
    "c_s r ''attrs_json'' = Some at"
  unfolding assms [unfolded common_fields_def field_def common_cells_def list.map
      Field.select_convs zip_Cons_Cons zip.simps(1) append_Cons append_Nil]
  by (simp_all add: c_s_def c_fsb_def c_u64_def c_u16_def c_i32_def c_ts_def case_opt_cells)


section \<open>Rows\<close>

lemma map_of_zip_skip: "name \<notin> set ns \<Longrightarrow> map_of (zip ns cs @ rest) name = map_of rest name"
  by (induction ns arbitrary: cs) (auto simp: zip_Cons1 map_add_def split: list.splits option.splits)

lemma map_lookup_zip:
  "distinct ns \<Longrightarrow> length cs = length ns \<Longrightarrow>
   map (\<lambda>n. (n, case map_of (zip ns cs @ rest) n of Some c \<Rightarrow> c | None \<Rightarrow> d)) ns = zip ns cs"
proof (induction ns arbitrary: cs)
  case (Cons n ns)
  then obtain c cs' where cs: "cs = c # cs'"
    by (cases cs) auto
  have "map (\<lambda>m. (m, case map_of (zip (n # ns) cs @ rest) m of Some c \<Rightarrow> c | None \<Rightarrow> d)) ns =
      map (\<lambda>m. (m, case map_of (zip ns cs' @ rest) m of Some c \<Rightarrow> c | None \<Rightarrow> d)) ns"
    using Cons.prems(1) by (intro map_cong) (auto simp: cs)
  with Cons show ?case
    by (simp add: cs)
qed simp

lemma common_names:
  "distinct (map fd_name common_fields)" "length common_fields = 42"
  "''content_json'' \<notin> fd_name ` set common_fields" "''raw_json'' \<notin> fd_name ` set common_fields"
  "''content_ref'' \<notin> fd_name ` set common_fields" "''raw_ref'' \<notin> fd_name ` set common_fields"
  "''unknown_json'' \<notin> fd_name ` set common_fields"
  by (simp_all add: common_fields_def field_def)

lemma length_common_cells [simp]: "length (common_cells ev pt at) = 42"
  by (simp add: common_cells_def)

text \<open>The row a reader sees, given the common cells and the five cells of the content columns.\<close>

definition canonical_row :: "cell list \<Rightarrow> cell \<Rightarrow> cell \<Rightarrow> cell \<Rightarrow> cell \<Rightarrow> cell \<Rightarrow> row" where
  "canonical_row cs cj rj cr rr u =
     zip (map fd_name common_fields) cs @
     [(''content_json'', cj), (''raw_json'', rj), (''content_ref'', cr), (''raw_ref'', rr), (''unknown_json'', u)]"

lemma batch_row_Refs:
  "length (br_common b) = 42 \<Longrightarrow>
   batch_row Refs (Builders_finish Refs b) =
     canonical_row (br_common b) (br_content_json b) (br_raw_json b) (br_content_ref b) (br_raw_ref b)
       (br_unknown_json b)"
  by (simp add: batch_row_def Builders_finish_def canonical_row_def build_schema_def field_def
      field_derived_def common_names(2) zip_append)

lemma names_canonical_row:
  "length cs = 42 \<Longrightarrow> map fst (canonical_row cs cj rj cr rr u) = map fd_name events_schema"
  by (simp add: canonical_row_def events_schema_def build_schema_def field_def field_derived_def common_names(2))

lemma normalize_Refs:
  "length cs = 42 \<Longrightarrow> normalize_row (canonical_row cs cj rj cr rr u) = Ok (canonical_row cs cj rj cr rr u)"
  by (simp add: normalize_row_def names_canonical_row)

lemma normalize_Inline:
  assumes "length (br_common b) = 42"
  shows "normalize_row (batch_row Inline (Builders_finish Inline b)) =
    Ok (canonical_row (br_common b) (br_content_json b) (br_raw_json b) CNull CNull (br_unknown_json b))"
proof -
  let ?rest = "[(''content_json'', br_content_json b), (''raw_json'', br_raw_json b), (''unknown_json'', br_unknown_json b)]"
  have row: "batch_row Inline (Builders_finish Inline b) = zip (map fd_name common_fields) (br_common b) @ ?rest"
    using assms by (simp add: batch_row_def Builders_finish_def build_schema_def field_def common_names(2) zip_append)
  have len: "length (br_common b) = length (map fd_name common_fields)"
    using assms by (simp add: common_names(2))
  have names: "map fst (batch_row Inline (Builders_finish Inline b)) \<noteq> map fd_name events_schema"
    using assms by (simp add: row events_schema_def build_schema_def field_derived_def field_def common_names(2))
  have lk: "map_of (batch_row Inline (Builders_finish Inline b)) n = map_of ?rest n"
    if "n \<notin> fd_name ` set common_fields" for n
    using that unfolding row by (intro map_of_zip_skip) simp
  have dom: "map_of (batch_row Inline (Builders_finish Inline b)) (fd_name f) \<noteq> None" if "f \<in> set common_fields" for f
    using that len by (simp add: row map_add_def domIff [symmetric] split: option.splits)
  have "list_all (\<lambda>f. map_of (batch_row Inline (Builders_finish Inline b)) (fd_name f) \<noteq> None \<or> fd_nullable f) events_schema"
    using dom by (auto simp: events_schema_def build_schema_def field_def field_derived_def list_all_iff)
  moreover have "map (\<lambda>f. (fd_name f, case map_of (batch_row Inline (Builders_finish Inline b)) (fd_name f) of
      Some c \<Rightarrow> c | None \<Rightarrow> CNull)) common_fields = zip (map fd_name common_fields) (br_common b)"
    using map_lookup_zip [OF common_names(1) len, where rest = ?rest and d = CNull] by (simp add: row o_def)
  ultimately show ?thesis
    using names
    by (simp add: normalize_row_def canonical_row_def events_schema_def build_schema_def field_def
        field_derived_def lk common_names)
qed

lemma content_lookup:
  assumes "r = canonical_row cs cj rj cr rr u"
  shows "map_of r ''content_json'' = Some cj" "map_of r ''raw_json'' = Some rj"
    "map_of r ''content_ref'' = Some cr" "map_of r ''raw_ref'' = Some rr" "map_of r ''unknown_json'' = Some u"
  unfolding assms canonical_row_def
  by (subst map_of_zip_skip; simp add: common_names)+

lemmas canonical_lookup = common_lookup [OF canonical_row_def [of "common_cells ev pt at" for ev pt at]]


section \<open>Round trips\<close>

text \<open>\<open>serde_json\<close> reads back what it wrote.\<close>

definition serde_ok :: "Serde \<Rightarrow> bool" where
  "serde_ok sd \<longleftrightarrow>
     (\<forall>x t. sd_paths sd x = Some t \<longrightarrow> sd_paths_of sd t = Some x) \<and>
     (\<forall>x t. sd_map sd x = Some t \<longrightarrow> sd_map_of sd t = Some x) \<and>
     (\<forall>x t. sd_content sd x = Some t \<longrightarrow> sd_content_of sd t = Some x) \<and>
     (\<forall>x t. sd_value sd x = Some t \<longrightarrow> sd_value_of sd t = Some x)"

text \<open>The reader holds the key of what the sink stored.\<close>

definition blobs_ok :: "blob_sink option \<Rightarrow> blob_reader \<Rightarrow> bool" where
  "blobs_ok sink rd \<longleftrightarrow> (\<forall>put t h. sink = Some put \<and> put t = Ok h \<longrightarrow> rd h = Some t)"

text \<open>A provider as every parser produces it.\<close>

definition canonical_event :: "Event \<Rightarrow> bool" where
  "canonical_event ev \<longleftrightarrow> Provider_from_str (Provider_as_str (ev_provider ev)) = ev_provider ev"

text \<open>What a segment keeps of an event: an empty content object reads back as none.\<close>

definition stored_form :: "Event \<Rightarrow> Event" where
  "stored_form ev = ev\<lparr>ev_content := nonempty_content ev\<rparr>"

lemma parse_as_str [simp]:
  "parse_category (ToolCategory_as_str c) = Some c"
  "parse_status (OutcomeStatus_as_str st) = st"
  "CaptureMode_from_stored (CaptureMode_as_str m) = m"
  by (cases c; simp add: parse_category_def)
    (cases st; cases m; simp add: parse_status_def CaptureMode_from_stored_def)+

lemma EventKind_parse_as_str [simp]: "EventKind_parse (EventKind_as_str k) = Some k"
  by (cases k) (simp_all add: EventKind_parse_def EventKind_ALL_def)

definition cell_text :: "cell \<Rightarrow> string option" where
  "cell_text c = (case c of CStr s \<Rightarrow> Some s | _ \<Rightarrow> None)"

lemma c_s_cell: "map_of r name = Some c \<Longrightarrow> c_s r name = cell_text c"
  by (simp add: c_s_def cell_text_def)

lemma cell_text_simps [simp]: "cell_text CNull = None" "cell_text (CStr s) = Some s" "cell_text (opt_str v) = v"
  by (simp_all add: cell_text_def opt_str_def split: option.split)

lemma content_cells:
  "c_s (canonical_row cs cj rj cr rr u) ''content_json'' = cell_text cj"
  "c_s (canonical_row cs cj rj cr rr u) ''raw_json'' = cell_text rj"
  "c_s (canonical_row cs cj rj cr rr u) ''content_ref'' = cell_text cr"
  "c_s (canonical_row cs cj rj cr rr u) ''raw_ref'' = cell_text rr"
  "c_s (canonical_row cs cj rj cr rr u) ''unknown_json'' = cell_text u"
  by (rule c_s_cell, rule content_lookup, rule refl)+

lemma unwrap_or_simps [simp]: "unwrap_or d (Some x) = x" "unwrap_or d None = d"
  by (simp_all add: unwrap_or_def)

lemma ref_eta:
  "\<lparr>project_id = project_id p, project_root = project_root p, project_name = project_name p,
    project_repo_remote = project_repo_remote p, project_branch = project_branch p,
    project_head = project_head p\<rparr> = (p :: ProjectRef)"
  "\<lparr>agent_id = agent_id a, agent_provider_agent_id = agent_provider_agent_id a, agent_type = agent_type a,
    agent_parent_agent_id = agent_parent_agent_id a, agent_model = agent_model a\<rparr> = (a :: AgentRef)"
  by simp_all

text \<open>Everything but the serialised columns of a canonical row reads back as it was written.\<close>

lemma row_to_event_canonical:
  assumes "canonical_event ev"
  shows "row_to_event sd reader w (canonical_row (common_cells ev pt at) cj rj cr rr u) =
    ev\<lparr>ev_paths := unwrap_or [] (Option.bind pt (sd_paths_of sd)),
       ev_attrs := unwrap_or [] (sd_map_of sd at),
       ev_content :=
         (case cell_text cj of Some inl \<Rightarrow> sd_content_of sd inl
          | None \<Rightarrow> Option.bind (Option.bind (cell_text cr) (resolve_ref (if w (ev_kind ev) then reader else None)))
              (sd_content_of sd)),
       ev_raw :=
         (case cell_text rj of Some inl \<Rightarrow> sd_value_of sd inl
          | None \<Rightarrow> Option.bind (Option.bind (cell_text rr) (resolve_ref (if w (ev_kind ev) then reader else None)))
              (sd_value_of sd)),
       ev_unknown := unwrap_or [] (Option.bind (cell_text u) (sd_map_of sd))\<rparr>"
proof -
  note lk = canonical_lookup [of ev pt at cj rj cr rr u]
    content_cells
  have tool: "map_option (\<lambda>name. \<lparr>tool_name = name,
        tool_category = unwrap_or OtherTool (Option.bind (map_option (\<lambda>t. ToolCategory_as_str (tool_category t)) (ev_tool ev)) parse_category),
        tool_call_id = Option.bind (ev_tool ev) tool_call_id\<rparr>) (map_option tool_name (ev_tool ev)) = ev_tool ev"
    by (cases "ev_tool ev") (simp_all add: unwrap_or_def)
  have outcome: "map_option (\<lambda>s. \<lparr>oc_status = parse_status s, oc_class = Option.bind (ev_outcome ev) oc_class,
        oc_exit_code = Option.bind (ev_outcome ev) oc_exit_code\<rparr>)
      (map_option (\<lambda>o1. OutcomeStatus_as_str (oc_status o1)) (ev_outcome ev)) = ev_outcome ev"
    by (cases "ev_outcome ev") simp_all
  show ?thesis
    using assms
    by (intro Event.equality)
      (simp_all add: row_to_event_def Let_def lk c_json_def read_content_def tool outcome
        canonical_event_def ref_eta split: option.split)
qed


text \<open>
  The two content cells of a row hold a value: its text inline, or the id of a blob with its text
  that the reader can open.
\<close>

definition cells_hold :: "('a \<Rightarrow> string option) \<Rightarrow> blob_reader \<Rightarrow> cell \<Rightarrow> cell \<Rightarrow> 'a option \<Rightarrow> bool" where
  "cells_hold f rd j r v \<longleftrightarrow>
     v = None \<and> j = CNull \<and> r = CNull \<or>
     (\<exists>x t. v = Some x \<and> f x = Some t \<and>
        (j = CStr t \<and> r = CNull \<or> (\<exists>h. j = CNull \<and> r = CStr h \<and> rd h = Some t)))"

text \<open>A canonical row that stores an event.\<close>

definition row_ok :: "Serde \<Rightarrow> blob_reader \<Rightarrow> Event \<Rightarrow> row \<Rightarrow> bool" where
  "row_ok sd rd ev r \<longleftrightarrow>
     (\<exists>pt at cj rj cr rr ut.
        r = canonical_row (common_cells ev pt at) cj rj cr rr (opt_str ut) \<and>
        to_text (sd_paths sd) (if ev_paths ev = [] then None else Some (ev_paths ev)) = Ok pt \<and>
        sd_map sd (ev_attrs ev) = Some at \<and>
        to_text (sd_map sd) (if ev_unknown ev = [] then None else Some (ev_unknown ev)) = Ok ut \<and>
        cells_hold (sd_content sd) rd cj cr (nonempty_content ev) \<and>
        cells_hold (sd_value sd) rd rj rr (ev_raw ev))"

definition builder_canonical :: "BuilderRow \<Rightarrow> row" where
  "builder_canonical b =
     canonical_row (br_common b) (br_content_json b) (br_raw_json b) (br_content_ref b) (br_raw_ref b)
       (br_unknown_json b)"

lemma cells_hold_push:
  "push_content f sink None None v = Ok (j, r) \<Longrightarrow> blobs_ok sink rd \<Longrightarrow> cells_hold f rd j r v"
  by (auto simp: push_content_def put_text_def blobs_ok_def cells_hold_def split: option.splits sum.splits)

lemma cells_hold_copy:
  assumes "cells_hold f rd j r v" and "push_content f sink (cell_text r) (cell_text j) w = Ok (j', r')"
    and "v = None \<longrightarrow> w = None" and "blobs_ok sink rd"
  shows "cells_hold f rd j' r' v"
  using assms
  by (auto simp: push_content_def put_text_def blobs_ok_def cells_hold_def split: option.splits sum.splits)

lemma cells_hold_read:
  assumes "cells_hold f rd j r v" and "\<And>x t. f x = Some t \<Longrightarrow> g t = Some x"
  shows "(case cell_text j of Some inl \<Rightarrow> g inl
      | None \<Rightarrow> Option.bind (Option.bind (cell_text r) (resolve_ref (Some rd))) g) = v"
  using assms by (auto simp: cells_hold_def resolve_ref_def)

lemma to_text_back:
  assumes "to_text f (if v = [] then None else Some v) = Ok t" and "\<And>x t. f x = Some t \<Longrightarrow> g t = Some x"
  shows "unwrap_or [] (Option.bind t g) = v"
proof (cases "v = []")
  case False
  then obtain a where "f v = Some a" "t = Some a"
    using assms(1) by (auto simp: to_text_def split: option.splits)
  then show ?thesis
    using assms(2) by simp
qed (use assms(1) in \<open>simp add: to_text_def\<close>)

lemma serde_okD:
  assumes "serde_ok sd"
  shows "sd_paths sd p = Some t \<Longrightarrow> sd_paths_of sd t = Some p" "sd_map sd m = Some t \<Longrightarrow> sd_map_of sd t = Some m"
    "sd_content sd c = Some t \<Longrightarrow> sd_content_of sd t = Some c" "sd_value sd v = Some t \<Longrightarrow> sd_value_of sd t = Some v"
  using assms by (auto simp: serde_ok_def)

lemma row_ok_push:
  assumes "blobs_ok sink rd" and "Builders_push sd sink (RowRef_from_event ev) = Ok b"
  shows "row_ok sd rd ev (builder_canonical b)" "length (br_common b) = 42"
proof -
  obtain pt at cj cr rj rr ut where
    a: "to_text (sd_paths sd) (if ev_paths ev = [] then None else Some (ev_paths ev)) = Ok pt"
    "sd_map sd (ev_attrs ev) = Some at"
    "push_content (sd_content sd) sink None None (nonempty_content ev) = Ok (cj, cr)"
    "push_content (sd_value sd) sink None None (ev_raw ev) = Ok (rj, rr)"
    "to_text (sd_map sd) (if ev_unknown ev = [] then None else Some (ev_unknown ev)) = Ok ut"
    "b = \<lparr>br_common = common_cells ev pt at, br_content_json = cj, br_content_ref = cr,
          br_raw_json = rj, br_raw_ref = rr, br_unknown_json = opt_str ut\<rparr>"
    by (rule Builders_push_Ok [OF assms(2), unfolded RowRef_from_event_def StoredRow.select_convs])
  show "length (br_common b) = 42"
    by (simp add: a(6))
  show "row_ok sd rd ev (builder_canonical b)"
    unfolding row_ok_def builder_canonical_def a(6) BuilderRow.select_convs
    using a(1,2,5) cells_hold_push [OF a(3) assms(1)] cells_hold_push [OF a(4) assms(1)] by blast
qed

lemma row_ok_event:
  assumes "serde_ok sd" and "canonical_event ev" and "row_ok sd rd ev r"
  shows "row_to_event sd (Some rd) (\<lambda>_. True) r = stored_form ev"
proof -
  from assms(3) obtain pt at cj rj cr rr ut where
    r: "r = canonical_row (common_cells ev pt at) cj rj cr rr (opt_str ut)"
    and a: "to_text (sd_paths sd) (if ev_paths ev = [] then None else Some (ev_paths ev)) = Ok pt"
      "sd_map sd (ev_attrs ev) = Some at"
      "to_text (sd_map sd) (if ev_unknown ev = [] then None else Some (ev_unknown ev)) = Ok ut"
      "cells_hold (sd_content sd) rd cj cr (nonempty_content ev)" "cells_hold (sd_value sd) rd rj rr (ev_raw ev)"
    unfolding row_ok_def by blast
  note sd = serde_okD [OF assms(1)]
  show ?thesis
    using cells_hold_read [OF a(4) sd(3)] cells_hold_read [OF a(5) sd(4)]
      to_text_back [OF a(1) sd(1)] to_text_back [OF a(3) sd(2)] sd(2) [OF a(2)]
    by (simp add: r row_to_event_canonical [OF assms(2)] stored_form_def)
qed


lemma no_reader: "Option.bind (Option.bind x (resolve_ref None)) g = None"
  by (cases x) (simp_all add: resolve_ref_def)

text \<open>Copying a stored row keeps the event it stores, whatever happens to the place of its content.\<close>

lemma row_ok_copy:
  assumes "serde_ok sd" and "canonical_event ev" and "row_ok sd rd ev r" and "blobs_ok sink rd"
    and "Builders_push sd sink (row_to_stored sd r) = Ok b"
  shows "row_ok sd rd ev (builder_canonical b)" "length (br_common b) = 42"
proof -
  from assms(3) obtain pt at cj rj cr rr ut where
    r: "r = canonical_row (common_cells ev pt at) cj rj cr rr (opt_str ut)"
    and a: "to_text (sd_paths sd) (if ev_paths ev = [] then None else Some (ev_paths ev)) = Ok pt"
      "sd_map sd (ev_attrs ev) = Some at"
      "to_text (sd_map sd) (if ev_unknown ev = [] then None else Some (ev_unknown ev)) = Ok ut"
      "cells_hold (sd_content sd) rd cj cr (nonempty_content ev)" "cells_hold (sd_value sd) rd rj rr (ev_raw ev)"
    unfolding row_ok_def by blast
  note sd = serde_okD [OF assms(1)]
  define ev' where "ev' = st_event (row_to_stored sd r)"
  have ev': "ev' = ev\<lparr>ev_content := (case cell_text cj of Some inl \<Rightarrow> sd_content_of sd inl | None \<Rightarrow> None),
      ev_raw := (case cell_text rj of Some inl \<Rightarrow> sd_value_of sd inl | None \<Rightarrow> None)\<rparr>"
    unfolding ev'_def row_to_stored_def r StoredRow.select_convs row_to_event_canonical [OF assms(2)]
    by (simp only: no_reader cell_text_simps if_cancel to_text_back [OF a(1) sd(1)]
        to_text_back [OF a(3) sd(2)] sd(2) [OF a(2)] unwrap_or_simps) simp
  have fields: "common_cells ev' = common_cells ev" "ev_paths ev' = ev_paths ev" "ev_attrs ev' = ev_attrs ev"
    "ev_unknown ev' = ev_unknown ev"
    by (auto simp: ev' common_cells_def fun_eq_iff)
  have none: "nonempty_content ev = None \<longrightarrow> nonempty_content ev' = None" "ev_raw ev = None \<longrightarrow> ev_raw ev' = None"
    using a(4,5) by (auto simp: cells_hold_def ev' nonempty_content_def)
  have st: "st_content_ref (row_to_stored sd r) = cell_text cr" "st_content_json (row_to_stored sd r) = cell_text cj"
    "st_raw_ref (row_to_stored sd r) = cell_text rr" "st_raw_json (row_to_stored sd r) = cell_text rj"
    by (simp_all add: row_to_stored_def r content_cells)
  obtain cj' cr' rj' rr' where p: "push_content (sd_content sd) sink (cell_text cr) (cell_text cj) (nonempty_content ev') = Ok (cj', cr')"
    "push_content (sd_value sd) sink (cell_text rr) (cell_text rj) (ev_raw ev') = Ok (rj', rr')"
    "b = \<lparr>br_common = common_cells ev pt at, br_content_json = cj', br_content_ref = cr',
          br_raw_json = rj', br_raw_ref = rr', br_unknown_json = opt_str ut\<rparr>"
    by (rule Builders_push_Ok [OF assms(5), folded ev'_def, unfolded fields st a sum.inject option.inject])
      blast
  show "length (br_common b) = 42"
    by (simp add: p(3))
  show "row_ok sd rd ev (builder_canonical b)"
    unfolding row_ok_def builder_canonical_def p(3) BuilderRow.select_convs
    using a(1-3) cells_hold_copy [OF a(4) p(1) none(1) assms(4)] cells_hold_copy [OF a(5) p(2) none(2) assms(4)]
    by blast
qed

lemma normalize_built:
  assumes "length (br_common b) = 42" and "layout = Refs \<or> br_content_ref b = CNull \<and> br_raw_ref b = CNull"
  shows "normalize_row (batch_row layout (Builders_finish layout b)) = Ok (builder_canonical b)"
  using assms
  by (cases layout) (auto simp: builder_canonical_def normalize_Inline batch_row_Refs normalize_Refs)


lemma push_no_sink_refs:
  assumes "Builders_push sd None row = Ok b" and "st_content_ref row = None" and "st_raw_ref row = None"
  shows "br_content_ref b = CNull \<and> br_raw_ref b = CNull"
  by (rule Builders_push_Ok [OF assms(1)])
    (auto simp: assms(2,3) push_content_def put_text_def split: option.splits)

section \<open>Theorems\<close>


text \<open>
  Copying a row between segment files (compaction, purge) never changes what is read. A row
  that stores an event is copied with its references as they are and its inline texts verbatim, or
  moved into blobs when a key exists; the copy in the current layout reads back as the same event.
\<close>

theorem row_copy_reads_same:
  assumes "serde_ok sd" and "canonical_event ev" and "row_ok sd rd ev r" and "blobs_ok sink rd"
    and "build_row sd sink Refs (row_to_stored sd r) = Ok r'"
  shows "normalize_row r' = Ok r' \<and> row_ok sd rd ev r' \<and>
    row_to_event sd (Some rd) (\<lambda>_. True) r' = row_to_event sd (Some rd) (\<lambda>_. True) r"
proof -
  from assms(5) obtain b where b: "Builders_push sd sink (row_to_stored sd r) = Ok b"
    "r' = batch_row Refs (Builders_finish Refs b)"
    by (auto simp: build_row_def split: sum.splits)
  note copy = row_ok_copy [OF assms(1-4) b(1)]
  have "r' = builder_canonical b"
    using copy(2) by (simp add: b(2) batch_row_Refs builder_canonical_def)
  then show ?thesis
    using row_ok_event [OF assms(1,2,3)] row_ok_event [OF assms(1,2) copy(1)] copy normalize_built [of b Refs]
    by (simp add: b(2))
qed

text \<open>
  C26: every row fits its schema. Whatever is pushed, the cells of the finished row have, column by
  column, the declared type and are null only where the column is nullable; and within a layout no
  two columns share a name, nor a field id together with its derivation.
\<close>

theorem row_fits_schema:
  assumes "Builders_push sd sink row = Ok b"
  shows "list_all2 cell_fits (fst (build_schema layout)) (Builders_finish layout b) \<and>
    distinct (map fd_name (fst (build_schema layout))) \<and>
    distinct (map (\<lambda>f. (fd_id f, fd_derivation f)) (fst (build_schema layout)))"
proof -
  obtain pt at cj cr rj rr ut where
    a: "push_content (sd_content sd) sink (st_content_ref row) (st_content_json row)
       (nonempty_content (st_event row)) = Ok (cj, cr)"
    "push_content (sd_value sd) sink (st_raw_ref row) (st_raw_json row) (ev_raw (st_event row)) = Ok (rj, rr)"
    "b = \<lparr>br_common = common_cells (st_event row) pt at, br_content_json = cj, br_content_ref = cr,
          br_raw_json = rj, br_raw_ref = rr, br_unknown_json = opt_str ut\<rparr>"
    by (rule Builders_push_Ok [OF assms])
  have "list_all2 cell_fits (fst (build_schema layout)) (Builders_finish layout b)"
    using push_content_text [OF a(1)] push_content_text [OF a(2)]
    by (cases layout)
      (auto simp: build_schema_def Builders_finish_def a(3) field_def field_derived_def cell_fits_opt
        intro!: list_all2_appendI common_cells_fit)
  moreover have "distinct (map fd_name (fst (build_schema layout)))"
    using common_names by (cases layout) (simp_all add: build_schema_def field_def field_derived_def)
  moreover have "distinct (map (\<lambda>f. (fd_id f, fd_derivation f)) (fst (build_schema layout)))"
    by (cases layout) (simp_all add: schema_defs)
  ultimately show ?thesis
    by blast
qed

section \<open>Witnesses\<close>

definition sample_content :: EventContent where
  "sample_content = \<lparr>ct_prompt = Some ''hi'', ct_command = None, ct_message = None, ct_error = None,
     ct_tool_input = None, ct_tool_output = None, ct_extra = []\<rparr>"

definition sample_serde :: Serde where
  "sample_serde =
     \<lparr>sd_paths = \<lambda>_. None, sd_paths_of = \<lambda>_. None,
      sd_map = \<lambda>m. if m = [] then Some ''{}'' else None, sd_map_of = \<lambda>t. if t = ''{}'' then Some [] else None,
      sd_content = \<lambda>c. if c = sample_content then Some ''c'' else None,
      sd_content_of = \<lambda>t. if t = ''c'' then Some sample_content else None,
      sd_value = \<lambda>_. None, sd_value_of = \<lambda>_. None\<rparr>"

definition sample_stored_event :: Event where
  "sample_stored_event = sample_event\<lparr>ev_content := Some sample_content\<rparr>"

lemma sample_serde_ok: "serde_ok sample_serde"
  by (auto simp: serde_ok_def sample_serde_def split: if_splits)

lemma sample_stored_canonical: "canonical_event sample_stored_event"
  by (simp add: canonical_event_def sample_stored_event_def sample_event_def Event_new_def
      Provider_from_str_names)

definition sample_sink :: blob_sink where
  "sample_sink t = Ok (CHR ''b'' # t)"

definition sample_reader :: blob_reader where
  "sample_reader h = Some (tl h)"

lemma sample_blobs_ok: "blobs_ok (Some sample_sink) sample_reader"
  by (simp add: blobs_ok_def sample_sink_def sample_reader_def)


definition sample_builder_row :: BuilderRow where
  "sample_builder_row =
     \<lparr>br_common = common_cells sample_stored_event None ''{}'', br_content_json = CNull,
      br_content_ref = CStr ''bc'', br_raw_json = CNull, br_raw_ref = CNull, br_unknown_json = CNull\<rparr>"

lemma sample_event_fields:
  "ev_paths sample_stored_event = []" "ev_attrs sample_stored_event = []" "ev_unknown sample_stored_event = []"
  "ev_raw sample_stored_event = None" "nonempty_content sample_stored_event = Some sample_content"
  by (simp_all add: sample_stored_event_def sample_event_def Event_new_def nonempty_content_def
      sample_content_def EventContent_is_empty_def)

lemma sample_push:
  "Builders_push sample_serde (Some sample_sink) (RowRef_from_event sample_stored_event) = Ok sample_builder_row"
  by (simp add: Builders_push_def RowRef_from_event_def sample_event_fields to_text_def push_content_def
      put_text_def sample_serde_def sample_sink_def sample_builder_row_def opt_str_def)


definition sample_row :: row where
  "sample_row = batch_row Refs (Builders_finish Refs sample_builder_row)"

lemma sample_row_ok: "row_ok sample_serde sample_reader sample_stored_event sample_row"
  using row_ok_push [OF sample_blobs_ok sample_push]
  by (simp add: sample_row_def batch_row_Refs builder_canonical_def)

lemma sample_copy: "build_row sample_serde None Refs (row_to_stored sample_serde sample_row) = Ok sample_row"
proof -
  have row: "sample_row = canonical_row (common_cells sample_stored_event None ''{}'') CNull CNull (CStr ''bc'') CNull CNull"
    by (simp add: sample_row_def batch_row_Refs sample_builder_row_def)
  define ev where "ev = sample_stored_event\<lparr>ev_content := None\<rparr>"
  have cells: "common_cells ev = common_cells sample_stored_event"
    by (simp add: ev_def common_cells_def fun_eq_iff)
  have "row_to_stored sample_serde sample_row =
      \<lparr>st_event = ev, st_content_json = None, st_raw_json = None, st_content_ref = Some ''bc'', st_raw_ref = None\<rparr>"
    unfolding row_to_stored_def row row_to_event_canonical [OF sample_stored_canonical] content_cells ev_def
    using sample_event_fields
    by (intro StoredRow.equality Event.equality) (simp_all add: resolve_ref_def sample_serde_def)
  moreover have "ev_paths ev = []" "ev_attrs ev = []" "ev_unknown ev = []" "ev_raw ev = None"
    using sample_event_fields by (simp_all add: ev_def)
  ultimately show ?thesis
    by (simp add: build_row_def Builders_push_def to_text_def push_content_def cells sample_serde_def opt_str_def
        batch_row_Refs row)
qed

theorem row_copy_reads_same_witness:
  "build_row sample_serde None Refs (row_to_stored sample_serde sample_row) = Ok sample_row \<and>
   row_ok sample_serde sample_reader sample_stored_event sample_row"
  using row_copy_reads_same [OF sample_serde_ok sample_stored_canonical sample_row_ok _ sample_copy] sample_copy
  by (simp add: blobs_ok_def)

theorem row_fits_schema_witness:
  "list_all2 cell_fits events_schema (Builders_finish Refs sample_builder_row)"
  using row_fits_schema [OF sample_push, of Refs] by (simp add: events_schema_def)

end
