(* ===== verification/SegFile.thy ===== *)
theory SegFile
  imports Segment
begin

text \<open>
  The segment directory (\<open>attemptdb-storage/src/segment.rs\<close>, files): writing a segment with its
  metadata, and the readers the engine uses. A file is what the Arrow reader finds in it: a format
  version and rows, or nothing it accepts. The size and the SHA-256 of a file and the hexadecimal
  form of an id are functions of the environment. An argument says which step of publishing a file
  fails, another which files cannot be read at the moment.
\<close>

section \<open>Definitions\<close>

datatype seg_file = ArrowFile u16 "row list" | NotArrow

type_synonym seg_dir = "(string \<times> seg_file) list"

record SegEnv =
  se_serde :: Serde
  se_simple :: "uuid \<Rightarrow> string"
  se_len :: "seg_file \<Rightarrow> nat"
  se_sha256 :: "seg_file \<Rightarrow> string"

datatype publish_io = PubAll | PubBlobSyncFails | PubTmpFails | PubRenameFails | PubDirSyncFails

definition segment_file_name :: "SegEnv \<Rightarrow> uuid \<Rightarrow> string" where
  "segment_file_name env sid = ''seg-'' @ se_simple env sid @ ''.arrow''"

text \<open>The order-insensitive collections (\<open>BTreeSet\<close>) as sorted lists without repetition.\<close>

definition btree_set :: "'a::linorder list \<Rightarrow> 'a list" where
  "btree_set xs = remdups_adj (sort xs)"

text \<open>The loop over the rows that computes the ranges of the metadata.\<close>

definition segment_meta :: "uuid \<Rightarrow> string \<Rightarrow> nat \<Rightarrow> string \<Rightarrow> Event list \<Rightarrow> SegmentMeta" where
  "segment_meta sid file_name bytes sha evs =
     \<lparr>sm_segment_id = sid, sm_file = file_name, sm_rows = length evs, sm_bytes = bytes,
      sm_min_observed_at = fold (\<lambda>ev m. min m (ev_observed_at ev)) evs (2 ^ 63 - 1),
      sm_max_observed_at = fold (\<lambda>ev m. max m (ev_observed_at ev)) evs (- (2 ^ 63)),
      sm_min_hlc = fold (\<lambda>ev m. min m (ev_hlc ev)) evs (- 1),
      sm_max_hlc = fold (\<lambda>ev m. max m (ev_hlc ev)) evs 0,
      sm_min_source_seq = fold (\<lambda>ev m. min m (ev_source_seq ev)) evs (2 ^ 64 - 1),
      sm_max_source_seq = fold (\<lambda>ev m. max m (ev_source_seq ev)) evs 0,
      sm_min_event_id = fold (\<lambda>ev m. min m (ev_event_id ev)) evs (ev_event_id (hd evs)),
      sm_max_event_id = fold (\<lambda>ev m. max m (ev_event_id ev)) evs (ev_event_id (hd evs)),
      sm_providers = btree_set (map (\<lambda>ev. Provider_as_str (ev_provider ev)) evs),
      sm_project_ids = btree_set (map (\<lambda>ev. project_id (ev_project ev)) evs),
      sm_session_count = length (btree_set (map ev_session_id evs)),
      sm_sha256 = sha\<rparr>"

fun build_rows :: "Serde \<Rightarrow> blob_sink option \<Rightarrow> Layout \<Rightarrow> StoredRow list \<Rightarrow> storage_error + row list" where
  "build_rows sd sink layout [] = Ok []"
| "build_rows sd sink layout (r # rs) =
     (case build_row sd sink layout r of
        Err e \<Rightarrow> Err e
      | Ok c \<Rightarrow> (case build_rows sd sink layout rs of Err e \<Rightarrow> Err e | Ok cs \<Rightarrow> Ok (c # cs)))"

definition write_segment_impl ::
  "SegEnv \<Rightarrow> publish_io \<Rightarrow> uuid \<Rightarrow> StoredRow list \<Rightarrow> blob_sink option \<Rightarrow> Layout \<Rightarrow> seg_dir \<Rightarrow>
   (storage_error + SegmentMeta) \<times> seg_dir"
where
  "write_segment_impl env io sid rows sink layout d =
     (if rows = [] then (Err (Other ''refusing to write an empty segment''), d)
      else case build_rows (se_serde env) sink layout rows of
        Err e \<Rightarrow> (Err e, d)
      | Ok cells \<Rightarrow>
          (let path = segment_file_name env sid;
               tmp = path @ ''.tmp'';
               f = ArrowFile (snd (build_schema layout)) cells
           in case io of
                PubBlobSyncFails \<Rightarrow> (Err (Io OtherIo), d)
              | PubTmpFails \<Rightarrow> (Err (Io OtherIo), dir_set d tmp NotArrow)
              | PubRenameFails \<Rightarrow> (Err (Io OtherIo), dir_set d tmp f)
              | PubDirSyncFails \<Rightarrow> (Err (Io OtherIo), dir_set (filter (\<lambda>e. fst e \<noteq> tmp) d) path f)
              | PubAll \<Rightarrow>
                  (Ok (segment_meta sid path (se_len env f) (se_sha256 env f) (map st_event rows)),
                   dir_set (filter (\<lambda>e. fst e \<noteq> tmp) d) path f)))"

definition write_segment_with ::
  "SegEnv \<Rightarrow> publish_io \<Rightarrow> uuid \<Rightarrow> Event list \<Rightarrow> blob_sink option \<Rightarrow> seg_dir \<Rightarrow>
   (storage_error + SegmentMeta) \<times> seg_dir"
where
  "write_segment_with env io sid events sink d =
     write_segment_impl env io sid (map RowRef_from_event events) sink
       (if sink \<noteq> None then Refs else Inline) d"

definition write_segment_rows ::
  "SegEnv \<Rightarrow> publish_io \<Rightarrow> uuid \<Rightarrow> StoredRow list \<Rightarrow> blob_sink option \<Rightarrow> seg_dir \<Rightarrow>
   (storage_error + SegmentMeta) \<times> seg_dir"
where
  "write_segment_rows env io sid rows sink d =
     (let has_refs = list_ex (\<lambda>r. st_content_ref r \<noteq> None \<or> st_raw_ref r \<noteq> None) rows;
          layout = (if sink \<noteq> None \<or> has_refs then Refs else Inline)
      in if layout = Refs \<and> sink = None \<and> list_ex has_inline_content rows
         then (Err (Other ''cannot write inline content into a format 2 segment without an encryption key''), d)
         else write_segment_impl env io sid rows sink layout d)"

definition open_reader :: "(string \<Rightarrow> bool) \<Rightarrow> seg_dir \<Rightarrow> string \<Rightarrow> storage_error + row list \<times> u16" where
  "open_reader flt d name =
     (if flt name then Err (Io OtherIo)
      else case map_of d name of
        None \<Rightarrow> Err (Io NotFound)
      | Some NotArrow \<Rightarrow> Err (Corrupt ''segment'' [])
      | Some (ArrowFile v rows) \<Rightarrow>
          if MIN_SEGMENT_FORMAT_VERSION \<le> v \<and> v \<le> SEGMENT_FORMAT_VERSION then Ok (rows, v)
          else Err (UnsupportedFormat ''segment'' v SEGMENT_FORMAT_VERSION))"

definition segment_format_version :: "(string \<Rightarrow> bool) \<Rightarrow> seg_dir \<Rightarrow> string \<Rightarrow> storage_error + u16" where
  "segment_format_version flt d name = map_sum id snd (open_reader flt d name)"

fun normalize_rows :: "row list \<Rightarrow> storage_error + row list" where
  "normalize_rows [] = Ok []"
| "normalize_rows (r # rs) =
     (case normalize_row r of
        Err e \<Rightarrow> Err e
      | Ok r' \<Rightarrow> (case normalize_rows rs of Err e \<Rightarrow> Err e | Ok rs' \<Rightarrow> Ok (r' # rs')))"

definition read_segment_batches :: "(string \<Rightarrow> bool) \<Rightarrow> seg_dir \<Rightarrow> string \<Rightarrow> storage_error + row list" where
  "read_segment_batches flt d name =
     (case open_reader flt d name of Err e \<Rightarrow> Err e | Ok (rows, _) \<Rightarrow> normalize_rows rows)"

definition read_segment_events_with ::
  "SegEnv \<Rightarrow> (string \<Rightarrow> bool) \<Rightarrow> blob_reader option \<Rightarrow> seg_dir \<Rightarrow> string \<Rightarrow> storage_error + Event list"
where
  "read_segment_events_with env flt reader d name =
     map_sum id (map (row_to_event (se_serde env) reader (\<lambda>_. True))) (read_segment_batches flt d name)"

definition read_segment_rows ::
  "SegEnv \<Rightarrow> (string \<Rightarrow> bool) \<Rightarrow> seg_dir \<Rightarrow> string \<Rightarrow> storage_error + StoredRow list"
where
  "read_segment_rows env flt d name =
     map_sum id (map (row_to_stored (se_serde env))) (read_segment_batches flt d name)"

text \<open>The \<open>event_id\<close> column alone; a file without the column is corrupt.\<close>

definition read_segment_event_ids :: "(string \<Rightarrow> bool) \<Rightarrow> seg_dir \<Rightarrow> string \<Rightarrow> storage_error + EventId list" where
  "read_segment_event_ids flt d name =
     (case open_reader flt d name of
        Err e \<Rightarrow> Err e
      | Ok (rows, _) \<Rightarrow>
          if list_all (\<lambda>r. map_of r ''event_id'' \<noteq> None) rows
          then Ok (map (\<lambda>r. unwrap_or 0 (c_fsb r ''event_id'')) rows)
          else Err (Corrupt ''segment'' ''no event_id column''))"

definition verify_segment :: "SegEnv \<Rightarrow> (string \<Rightarrow> bool) \<Rightarrow> seg_dir \<Rightarrow> SegmentMeta \<Rightarrow> storage_error + unit" where
  "verify_segment env flt d meta =
     (if flt (sm_file meta) then Err (Io OtherIo)
      else case map_of d (sm_file meta) of
        None \<Rightarrow> Err (Io NotFound)
      | Some f \<Rightarrow>
          if se_sha256 env f \<noteq> sm_sha256 meta then Err (Corrupt ''segment'' ''sha256 mismatch'')
          else (case read_segment_batches flt d (sm_file meta) of
                  Err e \<Rightarrow> Err e
                | Ok rows \<Rightarrow>
                    if length rows \<noteq> sm_rows meta then Err (Corrupt ''segment'' ''row count'')
                    else Ok ()))"

text \<open>The first and last sequence number of a batch.\<close>

definition batch_source_seq_range :: "row list \<Rightarrow> (nat \<times> nat) option" where
  "batch_source_seq_range rows =
     (if rows = [] \<or> map_of (hd rows) ''source_seq'' = None then None
      else Some (unwrap_or 0 (c_u64 (hd rows) ''source_seq''), unwrap_or 0 (c_u64 (last rows) ''source_seq'')))"

section \<open>Metadata\<close>

lemma fold_min_le:
  fixes f :: "'a \<Rightarrow> 'b::linorder"
  shows "x \<in> set xs \<Longrightarrow> fold (\<lambda>x m. min m (f x)) xs a \<le> f x" "fold (\<lambda>x m. min m (f x)) xs a \<le> a"
  by (induction xs arbitrary: a) (auto, (metis min.boundedE)+)

lemma fold_max_ge:
  fixes f :: "'a \<Rightarrow> 'b::linorder"
  shows "x \<in> set xs \<Longrightarrow> f x \<le> fold (\<lambda>x m. max m (f x)) xs a" "a \<le> fold (\<lambda>x m. max m (f x)) xs a"
  by (induction xs arbitrary: a) (auto, (metis max.boundedE)+)

lemma set_btree_set [simp]: "set (btree_set xs) = set xs"
  by (simp add: btree_set_def)

text \<open>The ranges of the metadata contain every row.\<close>

lemma segment_meta_covers:
  assumes "ev \<in> set evs" and "m = segment_meta sid name n sha evs"
  shows "sm_min_observed_at m \<le> ev_observed_at ev" "ev_observed_at ev \<le> sm_max_observed_at m"
    "sm_min_hlc m \<le> ev_hlc ev" "ev_hlc ev \<le> sm_max_hlc m"
    "sm_min_source_seq m \<le> ev_source_seq ev" "ev_source_seq ev \<le> sm_max_source_seq m"
    "sm_min_event_id m \<le> ev_event_id ev" "ev_event_id ev \<le> sm_max_event_id m"
    "Provider_as_str (ev_provider ev) \<in> set (sm_providers m)"
    "project_id (ev_project ev) \<in> set (sm_project_ids m)"
  using assms(1) by (auto simp: assms(2) segment_meta_def intro: fold_min_le fold_max_ge)

section \<open>What was written is read back\<close>



text \<open>
  A file that stores a list of events: an accepted version, and rows that store them one by one.
\<close>

definition file_ok :: "SegEnv \<Rightarrow> blob_reader \<Rightarrow> seg_file \<Rightarrow> Event list \<Rightarrow> bool" where
  "file_ok env rd f evs \<longleftrightarrow>
     (\<exists>v rows rows'. f = ArrowFile v rows \<and> MIN_SEGMENT_FORMAT_VERSION \<le> v \<and> v \<le> SEGMENT_FORMAT_VERSION \<and>
        normalize_rows rows = Ok rows' \<and> list_all2 (row_ok (se_serde env) rd) evs rows')"

lemma normalize_rows_all2:
  "normalize_rows rows = Ok rows' \<longleftrightarrow> list_all2 (\<lambda>r r'. normalize_row r = Ok r') rows rows'"
proof (induction rows arbitrary: rows')
  case (Cons r rs)
  show ?case
    by (cases "normalize_row r"; cases "normalize_rows rs"; cases rows') (auto simp flip: Cons.IH)
qed auto

lemma events_schema_event_id: "''event_id'' \<in> set (map fd_name events_schema)"
  by (simp add: events_schema_def build_schema_def common_fields_def field_def)

lemma normalize_event_id:
  assumes "normalize_row r = Ok r'"
  shows "map_of r ''event_id'' = map_of r' ''event_id'' \<and> map_of r ''event_id'' \<noteq> None"
proof (cases "map fst r = map fd_name events_schema")
  case True
  then have "''event_id'' \<in> fst ` set r"
    by (metis (no_types) image_set imageI events_schema_event_id)
  then show ?thesis
    using assms True by (simp add: normalize_row_def map_of_eq_None_iff)
next
  case False
  then have r': "r' = map (\<lambda>f. (fd_name f, case map_of r (fd_name f) of Some c \<Rightarrow> c | None \<Rightarrow> CNull)) events_schema"
    and all: "list_all (\<lambda>f. map_of r (fd_name f) \<noteq> None \<or> fd_nullable f) events_schema"
    using assms by (auto simp: normalize_row_def split: if_splits)
  obtain fs where fs: "events_schema = field ''event_id'' FixedSizeBinary16 False 1 # fs"
    by (simp add: events_schema_def build_schema_def common_fields_def)
  show ?thesis
    using all by (auto simp: r' fs field_def)
qed


lemma row_ok_event_id: "row_ok sd rd ev r \<Longrightarrow> c_fsb r ''event_id'' = Some (ev_event_id ev)"
  by (auto simp: row_ok_def canonical_lookup)

text \<open>The readers on a file that stores events.\<close>

lemma file_ok_read:
  assumes "file_ok env rd f evs" and "map_of d name = Some f" and "serde_ok (se_serde env)"
    and "\<forall>ev \<in> set evs. canonical_event ev"
  shows "read_segment_events_with env (\<lambda>_. False) (Some rd) d name = Ok (map stored_form evs)"
    and "read_segment_event_ids (\<lambda>_. False) d name = Ok (map ev_event_id evs)"
    and "\<exists>srs. read_segment_rows env (\<lambda>_. False) d name = Ok srs \<and> length srs = length evs \<and>
      list_all2 (\<lambda>ev sr. \<exists>r. sr = row_to_stored (se_serde env) r \<and> row_ok (se_serde env) rd ev r) evs srs"
    and "\<exists>v. segment_format_version (\<lambda>_. False) d name = Ok v"
proof -
  from assms(1) obtain v rows rows' where f: "f = ArrowFile v rows" "MIN_SEGMENT_FORMAT_VERSION \<le> v"
    "v \<le> SEGMENT_FORMAT_VERSION" "normalize_rows rows = Ok rows'" "list_all2 (row_ok (se_serde env) rd) evs rows'"
    by (auto simp: file_ok_def)
  have op: "open_reader (\<lambda>_. False) d name = Ok (rows, v)"
    using f assms(2) by (simp add: open_reader_def)
  have rd: "read_segment_batches (\<lambda>_. False) d name = Ok rows'"
    using f by (simp add: read_segment_batches_def op)
  have "map (row_to_event (se_serde env) (Some rd) (\<lambda>_. True)) rows' = map stored_form evs"
    using f(5) assms(4)
    by (induction rule: list_all2_induct) (auto simp: row_ok_event [OF assms(3)])
  then show "read_segment_events_with env (\<lambda>_. False) (Some rd) d name = Ok (map stored_form evs)"
    by (simp add: read_segment_events_with_def rd)
  have nr: "list_all2 (\<lambda>r r'. normalize_row r = Ok r') rows rows'"
    using f(4) by (simp add: normalize_rows_all2)
  have "list_all (\<lambda>r. map_of r ''event_id'' \<noteq> None) rows \<and>
      map (\<lambda>r. unwrap_or 0 (c_fsb r ''event_id'')) rows = map (\<lambda>r. unwrap_or 0 (c_fsb r ''event_id'')) rows'"
    using nr by (induction rule: list_all2_induct) (auto simp: c_fsb_def dest!: normalize_event_id)
  moreover have "map (\<lambda>r. unwrap_or 0 (c_fsb r ''event_id'')) rows' = map ev_event_id evs"
    using f(5) by (induction rule: list_all2_induct) (auto simp: row_ok_event_id)
  ultimately show "read_segment_event_ids (\<lambda>_. False) d name = Ok (map ev_event_id evs)"
    by (simp add: read_segment_event_ids_def op)
  show "\<exists>srs. read_segment_rows env (\<lambda>_. False) d name = Ok srs \<and> length srs = length evs \<and>
      list_all2 (\<lambda>ev sr. \<exists>r. sr = row_to_stored (se_serde env) r \<and> row_ok (se_serde env) rd ev r) evs srs"
    using f(5) list_all2_lengthD [OF f(5)]
    by (auto simp: read_segment_rows_def rd list_all2_map2 elim: list_all2_mono)
  show "\<exists>v. segment_format_version (\<lambda>_. False) d name = Ok v"
    by (simp add: segment_format_version_def op)
qed

text \<open>
  A row handed to the writer together with the event it stores: a fresh event, or a stored row read
  from another segment.
\<close>

definition source_row :: "Serde \<Rightarrow> blob_reader \<Rightarrow> Event \<Rightarrow> StoredRow \<Rightarrow> bool" where
  "source_row sd rd ev sr \<longleftrightarrow>
     sr = RowRef_from_event ev \<or> (\<exists>r. sr = row_to_stored sd r \<and> row_ok sd rd ev r)"

lemma source_row_push:
  assumes "serde_ok sd" and "canonical_event ev" and "source_row sd rd ev sr" and "blobs_ok sink rd"
    and "Builders_push sd sink sr = Ok b"
  shows "row_ok sd rd ev (builder_canonical b) \<and> length (br_common b) = 42"
  using assms(3) row_ok_push [OF assms(4)] row_ok_copy [OF assms(1,2) _ assms(4)] assms(5)
  by (auto simp: source_row_def)

lemma build_rows_ok:
  assumes "build_rows sd sink layout srs = Ok rows" and "list_all2 (source_row sd rd) evs srs"
    and "serde_ok sd" and "\<forall>ev \<in> set evs. canonical_event ev" and "blobs_ok sink rd"
    and "layout = Refs \<or> sink = None \<and> (\<forall>sr \<in> set srs. st_content_ref sr = None \<and> st_raw_ref sr = None)"
  shows "\<exists>rows'. normalize_rows rows = Ok rows' \<and> list_all2 (row_ok sd rd) evs rows'"
  using assms(2,1,4,6)
proof (induction arbitrary: rows rule: list_all2_induct)
  case (Cons ev evs sr srs)
  then obtain c cs where c: "build_row sd sink layout sr = Ok c" "build_rows sd sink layout srs = Ok cs"
    "rows = c # cs"
    by (auto split: sum.splits)
  then obtain b where b: "Builders_push sd sink sr = Ok b" "c = batch_row layout (Builders_finish layout b)"
    by (auto simp: build_row_def split: sum.splits)
  have ok: "row_ok sd rd ev (builder_canonical b)" "length (br_common b) = 42"
    using source_row_push [OF assms(3) _ Cons.hyps(1) assms(5) b(1)] Cons.prems(2) by auto
  have "layout = Refs \<or> br_content_ref b = CNull \<and> br_raw_ref b = CNull"
    using Cons.prems(3) push_no_sink_refs [of sd sr b] b(1) by auto
  then have "normalize_row c = Ok (builder_canonical b)"
    unfolding b(2) by (rule normalize_built [OF ok(2)])
  moreover obtain rows' where "normalize_rows cs = Ok rows'" "list_all2 (row_ok sd rd) evs rows'"
    using Cons.IH [OF c(2)] Cons.prems by auto
  ultimately show ?case
    using ok by (auto simp: c(3))
qed simp


text \<open>The metadata looks at nothing but the identifiers, the times and the provider.\<close>

definition same_meta :: "Event \<Rightarrow> Event \<Rightarrow> bool" where
  "same_meta a b \<longleftrightarrow>
     ev_event_id a = ev_event_id b \<and> ev_source_seq a = ev_source_seq b \<and> ev_hlc a = ev_hlc b \<and>
     ev_observed_at a = ev_observed_at b \<and> ev_provider a = ev_provider b \<and> ev_project a = ev_project b \<and>
     ev_session_id a = ev_session_id b \<and> ev_schema_version a = ev_schema_version b"

lemma source_row_meta:
  assumes "serde_ok sd" and "canonical_event ev" and "source_row sd rd ev sr"
  shows "same_meta ev (st_event sr)"
  using assms(3)
  by (auto simp: source_row_def same_meta_def RowRef_from_event_def row_ok_def row_to_stored_def
      row_to_event_canonical [OF assms(2)])

lemma segment_meta_same:
  assumes "list_all2 same_meta as bs"
  shows "segment_meta sid name n sha as = segment_meta sid name n sha bs"
proof -
  have proj: "map ev_event_id as = map ev_event_id bs" "map ev_source_seq as = map ev_source_seq bs"
    "map ev_hlc as = map ev_hlc bs" "map ev_observed_at as = map ev_observed_at bs"
    "map (\<lambda>ev. Provider_as_str (ev_provider ev)) as = map (\<lambda>ev. Provider_as_str (ev_provider ev)) bs"
    "map (\<lambda>ev. project_id (ev_project ev)) as = map (\<lambda>ev. project_id (ev_project ev)) bs"
    "map ev_session_id as = map ev_session_id bs" "length as = length bs"
    using assms by (induction rule: list_all2_induct) (auto simp: same_meta_def)
  have min: "fold (\<lambda>ev m. min m (f ev)) as a = fold (\<lambda>ev m. min m (f ev)) bs a"
    if "map f as = map f bs" for f :: "Event \<Rightarrow> 'b::linorder" and a
    using fold_map [of "\<lambda>x m. min m x" f as] fold_map [of "\<lambda>x m. min m x" f bs] that by (simp add: o_def)
  have max: "fold (\<lambda>ev m. max m (f ev)) as a = fold (\<lambda>ev m. max m (f ev)) bs a"
    if "map f as = map f bs" for f :: "Event \<Rightarrow> 'b::linorder" and a
    using fold_map [of "\<lambda>x m. max m x" f as] fold_map [of "\<lambda>x m. max m x" f bs] that by (simp add: o_def)
  have hd: "ev_event_id (hd as) = ev_event_id (hd bs)"
    using proj(1,8) by (cases as; cases bs) auto
  show ?thesis
    unfolding segment_meta_def min [OF proj(1)] min [OF proj(2)] min [OF proj(3)] min [OF proj(4)]
      max [OF proj(1)] max [OF proj(2)] max [OF proj(3)] max [OF proj(4)] proj hd ..
qed

text \<open>
  Writing a segment: on success the file stores the events and the metadata is theirs; in every
  case no other file of the directory changes.
\<close>

lemma write_segment_impl_Ok:
  assumes "write_segment_impl env io sid srs sink layout d = (Ok m, d')" and "list_all2 (source_row (se_serde env) rd) evs srs"
    and "serde_ok (se_serde env)" and "\<forall>ev \<in> set evs. canonical_event ev" and "blobs_ok sink rd"
    and "layout = Refs \<or> sink = None \<and> (\<forall>sr \<in> set srs. st_content_ref sr = None \<and> st_raw_ref sr = None)"
  shows "\<exists>f. file_ok env rd f evs \<and> evs \<noteq> [] \<and> map_of d' (segment_file_name env sid) = Some f \<and>
    m = segment_meta sid (segment_file_name env sid) (se_len env f) (se_sha256 env f) evs"
proof -
  from assms(1) obtain rows where rows: "build_rows (se_serde env) sink layout srs = Ok rows" and ne: "srs \<noteq> []"
    by (auto simp: write_segment_impl_def split: if_splits sum.splits)
  let ?f = "ArrowFile (snd (build_schema layout)) rows"
  have v: "MIN_SEGMENT_FORMAT_VERSION \<le> snd (build_schema layout) \<and> snd (build_schema layout) \<le> SEGMENT_FORMAT_VERSION"
    by (cases layout) (simp_all add: build_schema_def MIN_SEGMENT_FORMAT_VERSION_def SEGMENT_FORMAT_VERSION_def
        SEGMENT_FORMAT_VERSION_INLINE_def)
  have fok: "file_ok env rd ?f evs"
    using build_rows_ok [OF rows assms(2-6)] v by (auto simp: file_ok_def)
  have "list_all2 same_meta evs (map st_event srs)"
    using assms(2,4) by (induction rule: list_all2_induct) (auto intro: source_row_meta [OF assms(3)])
  then have meta: "segment_meta sid name n sha (map st_event srs) = segment_meta sid name n sha evs" for name n sha
    by (simp add: segment_meta_same)
  have "evs \<noteq> []"
    using ne assms(2) by (cases evs) auto
  then show ?thesis
    using assms(1) fok
    by (intro exI [of _ ?f]) (auto simp: write_segment_impl_def ne rows Let_def meta split: publish_io.splits)
qed

lemma write_segment_impl_frame:
  assumes "write_segment_impl env io sid srs sink layout d = (res, d')"
    and "name \<noteq> segment_file_name env sid" and "name \<noteq> segment_file_name env sid @ ''.tmp''"
  shows "map_of d' name = map_of d name"
proof -
  have "map_of (filter (\<lambda>e. fst e \<noteq> t) d) name = map_of d name" if "name \<noteq> t" for t
    using that by (induction d) auto
  then show ?thesis
    using assms by (auto simp: write_segment_impl_def Let_def split: if_splits sum.splits publish_io.splits)
qed

end
