(* ===== verification/Selection.thy ===== *)
theory Selection
  imports SegFile
begin

text \<open>
  What the engine keeps in memory and how it selects events: the memtable
  (\<open>attemptdb-storage/src/memtable.rs\<close>), the sorted id sets with their binary search, the scan
  filter, its column form and its use on segment metadata (\<open>attemptdb-storage/src/db.rs\<close>).
\<close>

section \<open>The memtable\<close>

record MemTable =
  mt_events :: "Event list"
  mt_ids :: "EventId set"
  mt_approx_bytes :: nat

definition MemTable_new :: MemTable where
  "MemTable_new = \<lparr>mt_events = [], mt_ids = {}, mt_approx_bytes = 0\<rparr>"

definition MemTable_push :: "Event \<Rightarrow> nat \<Rightarrow> MemTable \<Rightarrow> MemTable" where
  "MemTable_push ev len m =
     m\<lparr>mt_ids := insert (ev_event_id ev) (mt_ids m), mt_approx_bytes := mt_approx_bytes m + len,
       mt_events := mt_events m @ [ev]\<rparr>"

definition MemTable_contains :: "MemTable \<Rightarrow> EventId \<Rightarrow> bool" where
  "MemTable_contains m eid \<longleftrightarrow> eid \<in> mt_ids m"

definition MemTable_len :: "MemTable \<Rightarrow> nat" where
  "MemTable_len m = length (mt_events m)"

definition MemTable_is_empty :: "MemTable \<Rightarrow> bool" where
  "MemTable_is_empty m \<longleftrightarrow> mt_events m = []"

definition MemTable_drain :: "MemTable \<Rightarrow> Event list \<times> MemTable" where
  "MemTable_drain m = (mt_events m, \<lparr>mt_events = [], mt_ids = {}, mt_approx_bytes = 0\<rparr>)"

section \<open>Id sets\<close>

type_synonym IdSet = "EventId list"

definition IdSet_from_iter :: "EventId list \<Rightarrow> IdSet" where
  "IdSet_from_iter ids = remdups_adj (sort ids)"

text \<open>\<open>slice::binary_search\<close> on the half-open range \<open>lo\<close> to \<open>hi\<close>.\<close>

function binary_search :: "'a::linorder list \<Rightarrow> 'a \<Rightarrow> nat \<Rightarrow> nat \<Rightarrow> bool" where
  "binary_search xs x lo hi =
     (if hi \<le> lo then False
      else let mid = lo + (hi - lo) div 2 in
        if xs ! mid = x then True
        else if xs ! mid < x then binary_search xs x (mid + 1) hi
        else binary_search xs x lo mid)"
  by pat_completeness auto
termination
  by (relation "measure (\<lambda>(xs, x, lo, hi). hi - lo)") auto

declare binary_search.simps [simp del]

definition IdSet_contains :: "IdSet \<Rightarrow> EventId \<Rightarrow> bool" where
  "IdSet_contains s eid = binary_search s eid 0 (length s)"

section \<open>The scan filter\<close>

record ScanFilter =
  sf_project_id :: "ProjectId option"
  sf_session_id :: "SessionId option"
  sf_since :: "Timestamp option"
  sf_until :: "Timestamp option"
  sf_providers :: "string list"
  sf_kinds :: "EventKind list"
  sf_limit :: "nat option"
  sf_captured_only :: bool
  sf_exclude_sessions :: "SessionId list"
  sf_exclude_events :: "EventId list"

definition is_unfiltered :: "ScanFilter \<Rightarrow> bool" where
  "is_unfiltered f \<longleftrightarrow>
     sf_project_id f = None \<and> sf_session_id f = None \<and> sf_since f = None \<and> sf_until f = None \<and>
     sf_providers f = [] \<and> sf_kinds f = [] \<and> sf_limit f = None"

definition is_some_and :: "'a option \<Rightarrow> ('a \<Rightarrow> bool) \<Rightarrow> bool" where
  "is_some_and v p = (case v of Some x \<Rightarrow> p x | None \<Rightarrow> False)"

definition is_none_or :: "'a option \<Rightarrow> ('a \<Rightarrow> bool) \<Rightarrow> bool" where
  "is_none_or v p = (case v of Some x \<Rightarrow> p x | None \<Rightarrow> True)"

definition matches :: "ScanFilter \<Rightarrow> Event \<Rightarrow> bool" where
  "matches f ev =
     (if is_some_and (sf_project_id f) (\<lambda>p. project_id (ev_project ev) \<noteq> p) then False
      else if is_some_and (sf_session_id f) (\<lambda>s. ev_session_id ev \<noteq> s) then False
      else if is_some_and (sf_since f) (\<lambda>t. ev_observed_at ev < t) then False
      else if is_some_and (sf_until f) (\<lambda>t. ev_observed_at ev > t) then False
      else if sf_providers f \<noteq> [] \<and> \<not> list_ex (\<lambda>p. p = Provider_as_str (ev_provider ev)) (sf_providers f) then False
      else if sf_kinds f \<noteq> [] \<and> ev_kind ev \<notin> set (sf_kinds f) then False
      else if sf_captured_only f \<and>
        Option.bind (map_of (ev_attrs ev) ''reconstructed'') as_bool = Some True then False
      else if sf_exclude_sessions f \<noteq> [] \<and> ev_session_id ev \<in> set (sf_exclude_sessions f) then False
      else if sf_exclude_events f \<noteq> [] \<and> ev_event_id ev \<in> set (sf_exclude_events f) then False
      else True)"

definition mask_columns :: "ScanFilter \<Rightarrow> string list" where
  "mask_columns f =
     (if sf_project_id f \<noteq> None then [''project_id''] else []) @
     (if sf_session_id f \<noteq> None \<or> sf_exclude_sessions f \<noteq> [] then [''session_id''] else []) @
     (if sf_since f \<noteq> None \<or> sf_until f \<noteq> None then [''observed_at''] else []) @
     (if sf_providers f \<noteq> [] then [''provider''] else []) @
     (if sf_kinds f \<noteq> [] then [''kind''] else []) @
     (if sf_captured_only f then [''attrs_json''] else []) @
     (if sf_exclude_events f \<noteq> [] then [''event_id''] else [])"

text \<open>
  \<open>row_mask\<close> on one row, which may hold only the columns of \<open>mask_columns\<close>. \<open>obj_of\<close> is
  \<open>serde_json::from_str\<close> for a JSON object.
\<close>

definition row_mask :: "(string \<Rightarrow> json_map option) \<Rightarrow> ScanFilter \<Rightarrow> row \<Rightarrow> bool" where
  "row_mask obj_of f r \<longleftrightarrow>
     is_none_or (sf_project_id f) (\<lambda>p. c_fsb r ''project_id'' = Some p) \<and>
     is_none_or (sf_session_id f) (\<lambda>s. c_fsb r ''session_id'' = Some s) \<and>
     (let at = unwrap_or 0 (c_ts r ''observed_at'')
      in is_none_or (sf_since f) (\<lambda>t. t \<le> at) \<and> is_none_or (sf_until f) (\<lambda>t. at \<le> t)) \<and>
     (sf_providers f = [] \<or> is_some_and (c_s r ''provider'') (\<lambda>p. list_ex (\<lambda>q. q = p) (sf_providers f))) \<and>
     (sf_kinds f = [] \<or>
      is_some_and (Option.bind (c_s r ''kind'') EventKind_parse) (\<lambda>k. k \<in> set (sf_kinds f))) \<and>
     \<not> (sf_captured_only f \<and>
        is_some_and (c_s r ''attrs_json'')
          (\<lambda>a. contains ([CHR 0x22] @ ''reconstructed'' @ [CHR 0x22]) a \<and>
             Option.bind (Option.bind (obj_of a) (\<lambda>m. map_of m ''reconstructed'')) as_bool = Some True)) \<and>
     (sf_exclude_sessions f = [] \<or>
      \<not> is_some_and (c_fsb r ''session_id'') (\<lambda>b. b \<in> set (sf_exclude_sessions f))) \<and>
     (sf_exclude_events f = [] \<or>
      \<not> is_some_and (c_fsb r ''event_id'') (\<lambda>b. b \<in> set (sf_exclude_events f)))"

definition filter_batch :: "(string \<Rightarrow> json_map option) \<Rightarrow> ScanFilter \<Rightarrow> row list \<Rightarrow> row list option" where
  "filter_batch obj_of f rows =
     (if is_unfiltered f \<and> \<not> sf_captured_only f \<and> sf_exclude_sessions f = [] \<and> sf_exclude_events f = []
      then Some rows
      else if \<not> list_ex (row_mask obj_of f) rows then None
      else Some (filter (row_mask obj_of f) rows))"

definition segment_may_match :: "ScanFilter \<Rightarrow> SegmentMeta \<Rightarrow> bool" where
  "segment_may_match f seg =
     (if is_some_and (sf_since f) (\<lambda>t. sm_max_observed_at seg < t) then False
      else if is_some_and (sf_until f) (\<lambda>t. sm_min_observed_at seg > t) then False
      else if is_some_and (sf_project_id f) (\<lambda>p. sm_project_ids seg \<noteq> [] \<and> p \<notin> set (sm_project_ids seg)) then False
      else if sf_providers f \<noteq> [] \<and> sm_providers seg \<noteq> [] \<and>
        \<not> list_ex (\<lambda>p. p \<in> set (sf_providers f)) (sm_providers seg) then False
      else True)"

section \<open>Id sets are sets\<close>

lemma binary_search_iff:
  assumes "sorted xs" and "distinct xs" and "hi \<le> length xs"
  shows "binary_search xs x lo hi \<longleftrightarrow> (\<exists>i. lo \<le> i \<and> i < hi \<and> xs ! i = x)"
  using assms
proof (induction xs x lo hi rule: binary_search.induct)
  case (1 xs x lo hi)
  show ?case
  proof (cases "hi \<le> lo")
    case False
    define mid where "mid = lo + (hi - lo) div 2"
    have mid: "lo \<le> mid" "mid < hi"
      using False by (auto simp: mid_def)
    have less: "xs ! i < xs ! j" if "i < j" "j < length xs" for i j
      using that "1.prems" sorted_nth_mono [of xs i j] nth_eq_iff_index_eq [of xs i j] by fastforce
    have up: "i < mid \<or> i = mid \<or> mid < i" for i by auto
    consider "xs ! mid = x" | "xs ! mid < x" | "x < xs ! mid"
      by fastforce
    then show ?thesis
    proof cases
      case 1
      then show ?thesis
        using mid False by (subst binary_search.simps) (auto simp: Let_def simp flip: mid_def)
    next
      case 2
      have "binary_search xs x lo hi = binary_search xs x (mid + 1) hi"
        using 2 False by (subst binary_search.simps) (auto simp: Let_def mid_def)
      also have "\<dots> \<longleftrightarrow> (\<exists>i. mid + 1 \<le> i \<and> i < hi \<and> xs ! i = x)"
        using "1.IH"(1) [OF False refl] 2 "1.prems" by (auto simp: mid_def)
      also have "\<dots> \<longleftrightarrow> (\<exists>i. lo \<le> i \<and> i < hi \<and> xs ! i = x)"
        using 2 mid less "1.prems"(3)
        by (metis (no_types, opaque_lifting) Suc_eq_plus1 Suc_leI dual_order.strict_trans2 le_trans less_asym
            less_le_not_le linorder_neqE_nat mid(2))
      finally show ?thesis .
    next
      case 3
      have "binary_search xs x lo hi = binary_search xs x lo mid"
        using 3 False by (subst binary_search.simps) (auto simp: Let_def mid_def)
      also have "\<dots> \<longleftrightarrow> (\<exists>i. lo \<le> i \<and> i < mid \<and> xs ! i = x)"
        using "1.IH"(2) [OF False refl] 3 "1.prems" mid by (auto simp: mid_def)
      also have "\<dots> \<longleftrightarrow> (\<exists>i. lo \<le> i \<and> i < hi \<and> xs ! i = x)"
        using 3 mid less "1.prems"(3) by (metis less_asym less_le_trans less_trans linorder_neqE_nat)
      finally show ?thesis .
    qed
  qed (simp add: binary_search.simps)
qed

lemma sorted_distinct_remdups_adj: "sorted xs \<Longrightarrow> distinct (remdups_adj xs)"
  by (induction xs rule: remdups_adj.induct) auto

lemma IdSet_contains_iff [simp]: "IdSet_contains (IdSet_from_iter ids) eid \<longleftrightarrow> eid \<in> set ids"
proof -
  let ?s = "remdups_adj (sort ids)"
  have "sorted ?s" "distinct ?s"
    by (simp_all add: sorted_distinct_remdups_adj)
  then show ?thesis
    using binary_search_iff [of ?s "length ?s" eid 0] in_set_conv_nth [of eid ?s]
    by (simp add: IdSet_contains_def IdSet_from_iter_def)
qed


section \<open>The filter on columns and on metadata\<close>

lemma option_tests [simp]:
  "is_some_and None p \<longleftrightarrow> False" "is_some_and (Some x) p \<longleftrightarrow> p x"
  "is_none_or None p \<longleftrightarrow> True" "is_none_or (Some x) p \<longleftrightarrow> p x"
  by (simp_all add: is_some_and_def is_none_or_def)

lemma is_none_or_iff: "is_none_or v p \<longleftrightarrow> \<not> is_some_and v (\<lambda>x. \<not> p x)"
  by (cases v) simp_all

text \<open>A projected reader decodes only the named columns.\<close>

definition project_row :: "string list \<Rightarrow> row \<Rightarrow> row" where
  "project_row names r = filter (\<lambda>c. fst c \<in> set names) r"

lemma map_of_project: "map_of (project_row names r) n = (if n \<in> set names then map_of r n else None)"
  by (induction r) (auto simp: project_row_def)

lemma project_lookup:
  "c_s (project_row names r) n = (if n \<in> set names then c_s r n else None)"
  "c_fsb (project_row names r) n = (if n \<in> set names then c_fsb r n else None)"
  "c_ts (project_row names r) n = (if n \<in> set names then c_ts r n else None)"
  by (simp_all add: c_s_def c_fsb_def c_ts_def map_of_project)

lemma mask_columns_mem:
  "''project_id'' \<in> set (mask_columns f) \<longleftrightarrow> sf_project_id f \<noteq> None"
  "''session_id'' \<in> set (mask_columns f) \<longleftrightarrow> sf_session_id f \<noteq> None \<or> sf_exclude_sessions f \<noteq> []"
  "''observed_at'' \<in> set (mask_columns f) \<longleftrightarrow> sf_since f \<noteq> None \<or> sf_until f \<noteq> None"
  "''provider'' \<in> set (mask_columns f) \<longleftrightarrow> sf_providers f \<noteq> []"
  "''kind'' \<in> set (mask_columns f) \<longleftrightarrow> sf_kinds f \<noteq> []"
  "''attrs_json'' \<in> set (mask_columns f) \<longleftrightarrow> sf_captured_only f"
  "''event_id'' \<in> set (mask_columns f) \<longleftrightarrow> sf_exclude_events f \<noteq> []"
  by (simp_all add: mask_columns_def)

text \<open>The columns of \<open>mask_columns\<close> are all that \<open>row_mask\<close> looks at.\<close>

lemma row_mask_project: "row_mask obj_of f (project_row (mask_columns f) r) = row_mask obj_of f r"
  by (cases "sf_project_id f"; cases "sf_session_id f"; cases "sf_since f"; cases "sf_until f")
    (auto simp: row_mask_def project_lookup mask_columns_mem)

definition reconstructed_text :: "Serde \<Rightarrow> bool" where
  "reconstructed_text sd \<longleftrightarrow>
     (\<forall>m t. sd_map sd m = Some t \<and> map_of m ''reconstructed'' \<noteq> None \<longrightarrow>
        contains ([CHR 0x22] @ ''reconstructed'' @ [CHR 0x22]) t)"

lemma row_mask_event:
  assumes "serde_ok sd" and "reconstructed_text sd" and "row_ok sd rd ev r"
  shows "row_mask (sd_map_of sd) f r \<longleftrightarrow> matches f ev"
proof -
  from assms(3) obtain pt at cj rj cr rr ut where
    r: "r = canonical_row (common_cells ev pt at) cj rj cr rr (opt_str ut)" and at: "sd_map sd (ev_attrs ev) = Some at"
    unfolding row_ok_def by blast
  have rback: "sd_map_of sd at = Some (ev_attrs ev)"
    using assms(1) at by (rule serde_okD(2))
  have recon: "(contains ([CHR 0x22] @ ''reconstructed'' @ [CHR 0x22]) at \<and>
       Option.bind (Option.bind (sd_map_of sd at) (\<lambda>m. map_of m ''reconstructed'')) as_bool = Some True) =
     (Option.bind (map_of (ev_attrs ev) ''reconstructed'') as_bool = Some True)"
    using assms(2) at rback by (cases "map_of (ev_attrs ev) ''reconstructed''") (auto simp: reconstructed_text_def)
  have mask: "row_mask (sd_map_of sd) f r \<longleftrightarrow>
     is_none_or (sf_project_id f) (\<lambda>p. project_id (ev_project ev) = p) \<and>
     is_none_or (sf_session_id f) (\<lambda>s. ev_session_id ev = s) \<and>
     (is_none_or (sf_since f) (\<lambda>t. t \<le> ev_observed_at ev) \<and> is_none_or (sf_until f) (\<lambda>t. ev_observed_at ev \<le> t)) \<and>
     (sf_providers f = [] \<or> list_ex (\<lambda>q. q = Provider_as_str (ev_provider ev)) (sf_providers f)) \<and>
     (sf_kinds f = [] \<or> ev_kind ev \<in> set (sf_kinds f)) \<and>
     \<not> (sf_captured_only f \<and> Option.bind (map_of (ev_attrs ev) ''reconstructed'') as_bool = Some True) \<and>
     (sf_exclude_sessions f = [] \<or> ev_session_id ev \<notin> set (sf_exclude_sessions f)) \<and>
     (sf_exclude_events f = [] \<or> ev_event_id ev \<notin> set (sf_exclude_events f))"
    unfolding row_mask_def r canonical_lookup Let_def option_tests recon EventKind_parse_as_str option.inject
      unwrap_or_simps bind.simps ..
  show ?thesis
    unfolding mask matches_def is_none_or_iff by (auto simp: not_le)
qed

text \<open>
  C27: a reader that looks at columns selects exactly the events the filter selects. For every stored
  row, the decision taken from the columns \<open>mask_columns\<close> names (nothing else is decoded) is the
  decision \<open>matches\<close> takes on the event the row stores.
\<close>

theorem row_mask_matches:
  assumes "serde_ok sd" and "reconstructed_text sd" and "row_ok sd rd ev r"
  shows "row_mask (sd_map_of sd) f (project_row (mask_columns f) r) \<longleftrightarrow> matches f ev"
  using row_mask_event [OF assms] by (simp add: row_mask_project)

theorem row_mask_matches_witness:
  "row_mask (sd_map_of sample_serde)
     \<lparr>sf_project_id = Some 3, sf_session_id = None, sf_since = None, sf_until = None,
      sf_providers = [''codex''], sf_kinds = [], sf_limit = None, sf_captured_only = True,
      sf_exclude_sessions = [], sf_exclude_events = []\<rparr>
     (project_row [''project_id'', ''provider'', ''attrs_json''] sample_row)"
proof -
  let ?f = "\<lparr>sf_project_id = Some 3, sf_session_id = None, sf_since = None, sf_until = None,
      sf_providers = [''codex''], sf_kinds = [], sf_limit = None, sf_captured_only = True,
      sf_exclude_sessions = [], sf_exclude_events = []\<rparr>"
  have "reconstructed_text sample_serde"
    by (auto simp: reconstructed_text_def sample_serde_def split: if_splits)
  moreover have "matches ?f sample_stored_event"
    by (simp add: matches_def sample_stored_event_def sample_event_def Event_new_def)
  moreover have "mask_columns ?f = [''project_id'', ''provider'', ''attrs_json'']"
    by (simp add: mask_columns_def)
  ultimately show ?thesis
    using row_mask_matches [OF sample_serde_ok _ sample_row_ok, of ?f] by simp
qed

text \<open>Pruning by metadata never skips a segment with a matching event.\<close>

lemma segment_may_match_sound:
  assumes "ev \<in> set evs" and "m = segment_meta sid name n sha evs" and "matches f ev"
  shows "segment_may_match f m"
proof -
  note cov = segment_meta_covers [OF assms(1,2)]
  have "\<not> is_some_and (sf_since f) (\<lambda>t. sm_max_observed_at m < t)"
    using assms(3) cov(2) by (cases "sf_since f") (auto simp: matches_def split: if_splits)
  moreover have "\<not> is_some_and (sf_until f) (\<lambda>t. sm_min_observed_at m > t)"
    using assms(3) cov(1) by (cases "sf_until f") (auto simp: matches_def split: if_splits)
  moreover have "\<not> is_some_and (sf_project_id f) (\<lambda>p. sm_project_ids m \<noteq> [] \<and> p \<notin> set (sm_project_ids m))"
    using assms(3) cov(10) by (cases "sf_project_id f") (auto simp: matches_def split: if_splits)
  moreover have "sf_providers f = [] \<or> list_ex (\<lambda>p. p \<in> set (sf_providers f)) (sm_providers m)"
    using assms(3) cov(9) by (auto simp: matches_def list_ex_iff split: if_splits)
  ultimately show ?thesis
    by (auto simp: segment_may_match_def)
qed

end
