(* ===== verification/Attrs.thy ===== *)
theory Attrs
  imports Event
begin

text \<open>
  The contract on an event's metadata (\<open>attemptdb-core/src/attrs.rs\<close>): the allowlist of keys,
  the shape of values, and \<open>sanitise\<close>, which the single writer applies to every event. The secret
  detector of \<open>secrets.rs\<close> is an argument (\<open>contains_secret\<close>); every theorem holds whatever it
  answers. A JSON object keeps its entries in insertion order; removing a key moves the last entry
  into its place, as the map type the program builds with does.
\<close>

section \<open>Keys and values\<close>

definition REDACTIONS_KEY :: string where
  "REDACTIONS_KEY = ''redactions''"

definition ALLOWED_ATTR_KEYS :: "string list" where
  "ALLOWED_ATTR_KEYS =
     [''tool_input_bytes'', ''tool_output_bytes'', ''prompt_chars'', ''message_chars'',
      ''file_count'', ''line_count'', ''exit_code'', ''duration_ms'', ''permission_mode'',
      ''permission_decision'', ''notification_type'', ''stop_reason'', ''compaction_trigger'',
      ''task_status'', ''subagent_type'', ''model'', ''cwd_logical'', ''capture_gap'',
      ''consent_version'', ''coverage_grade'', ''git_dirty'', ''path_extensions'', ''matcher'',
      ''hook_event_name'', ''source'', ''reason'', ''trigger'', ''stop_hook_active'', ''cwd'',
      ''transcript_present'', ''prompt_lines'', ''prompt_has_code_fence'',
      ''prompt_has_question'', ''prompt_kind'', ''prompt_source'', ''command_bytes'',
      ''command_category'', ''command_subcategory'', ''git_subcommand'', ''file_ext'',
      ''file_is_test'', ''file_is_config'', ''file_is_doc'', ''lines_added'', ''lines_removed'',
      ''tests_passed'', ''tests_failed'', ''tests_skipped'', ''edit_count'',
      ''attachment_count'', ''image_count'', ''error_class'', ''error_bytes'', ''is_subagent'',
      ''agent_type'', ''task_id'', ''previous_cwd'', ''worktree_path'', ''config_source'',
      ''tool_output_truncated'', ''entrypoint'', ''pre_tokens'', ''post_tokens'',
      ''output_tokens'', ''provider'', ''adapter_error'', ''reconstructed'',
      ''reconstructed_from'', ''transcript_entry_type'', ''is_sidechain'', ''turn_index_hint'',
      ''correction_type'', ''target'', ''target_type'', ''outcome'', ''failure_class'',
      ''note_chars'', ''hook_us'', ''device_seq'', REDACTIONS_KEY]"

definition MAX_ATTR_STRING :: nat where
  "MAX_ATTR_STRING = 256"

definition is_provider_extension :: "string \<Rightarrow> bool" where
  "is_provider_extension key =
     (case strip_prefix ''x_'' key of
        None \<Rightarrow> False
      | Some rest \<Rightarrow>
          list_all (\<lambda>b. is_ascii_lowercase b \<or> is_ascii_digit b \<or> b = CHR ''_'') rest \<and>
          (case split_once ''_'' rest of
             Some (prov, name) \<Rightarrow> prov \<noteq> [] \<and> name \<noteq> []
           | None \<Rightarrow> False))"

definition key_allowed :: "string \<Rightarrow> bool" where
  "key_allowed key \<longleftrightarrow> key \<in> set ALLOWED_ATTR_KEYS \<or> is_provider_extension key"

definition looks_like_email :: "string \<Rightarrow> bool" where
  "looks_like_email s =
     (case split_once ''@'' s of
        None \<Rightarrow> False
      | Some (local, domain) \<Rightarrow>
          local \<noteq> [] \<and> list_all (\<lambda>b. is_ascii_alphanumeric b \<or> b \<in> set ''._%+-'') local \<and>
          contains ''.'' domain \<and> \<not> starts_with ''.'' domain \<and> \<not> ends_with ''.'' domain \<and>
          list_all (\<lambda>b. is_ascii_alphanumeric b \<or> b = CHR ''.'' \<or> b = CHR ''-'') domain)"

text \<open>\<open>C:\Users\\<close> at position \<open>i\<close> of the bytes.\<close>

definition windows_home_at :: "string \<Rightarrow> nat \<Rightarrow> bool" where
  "windows_home_at s i \<longleftrightarrow>
     is_ascii_alphabetic (s ! i) \<and> s ! (i + 1) = CHR '':'' \<and> is_sep (s ! (i + 2)) \<and>
     starts_with ''Users'' (drop (i + 3) s) \<and> i + 8 < length s \<and> is_sep (s ! (i + 8))"

definition has_home_directory :: "string \<Rightarrow> bool" where
  "has_home_directory s \<longleftrightarrow>
     contains ''/Users/'' s \<or> contains ''/home/'' s \<or>
     list_ex (windows_home_at s) [0 ..< length s - 8]"

definition value_allowed :: "(string \<Rightarrow> bool) \<Rightarrow> string \<Rightarrow> bool" where
  "value_allowed contains_secret s \<longleftrightarrow>
     length s \<le> MAX_ATTR_STRING \<and>
     list_all (\<lambda>c. c \<noteq> CHR 0x0A \<and> c \<noteq> CHR 0x0D) s \<and>
     \<not> looks_like_email s \<and> \<not> has_home_directory s \<and> \<not> contains_secret s"

section \<open>Sanitising\<close>

fun position :: "'k \<Rightarrow> ('k \<times> 'v) list \<Rightarrow> nat option" where
  "position k [] = None"
| "position k ((k', v) # m) = (if k = k' then Some 0 else map_option Suc (position k m))"

text \<open>\<open>Map::remove\<close> with insertion order kept: \<open>swap_remove\<close>.\<close>

definition map_remove :: "'k \<Rightarrow> ('k \<times> 'v) list \<Rightarrow> ('k \<times> 'v) list" where
  "map_remove k m =
     (case position k m of
        None \<Rightarrow> m
      | Some i \<Rightarrow> if i + 1 = length m then butlast m else butlast (m[i := last m]))"

text \<open>\<open>Map::insert\<close>: an existing key keeps its place.\<close>

fun map_insert :: "'k \<Rightarrow> 'v \<Rightarrow> ('k \<times> 'v) list \<Rightarrow> ('k \<times> 'v) list" where
  "map_insert k v [] = [(k, v)]"
| "map_insert k v ((k', v') # m) = (if k = k' then (k, v) # m else (k', v') # map_insert k v m)"

definition bad_provider_value :: "(string \<Rightarrow> bool) \<Rightarrow> Value \<Rightarrow> bool" where
  "bad_provider_value contains_secret v =
     (case v of
        String s \<Rightarrow> \<not> value_allowed contains_secret s
      | Array _ \<Rightarrow> True
      | Object _ \<Rightarrow> True
      | _ \<Rightarrow> False)"

definition sanitise_provider :: "(string \<Rightarrow> bool) \<Rightarrow> json_map \<Rightarrow> nat \<times> json_map" where
  "sanitise_provider contains_secret inner =
     (let bad = map fst (filter (\<lambda>(k, v). bad_provider_value contains_secret v) inner)
      in (length bad, fold map_remove bad inner))"

definition bad_item :: "(string \<Rightarrow> bool) \<Rightarrow> Value \<Rightarrow> bool" where
  "bad_item contains_secret v =
     (case v of
        String s \<Rightarrow> \<not> value_allowed contains_secret s
      | Object _ \<Rightarrow> True
      | _ \<Rightarrow> False)"

text \<open>One key of the loop: the entries dropped and the map after it.\<close>

definition sanitise_key :: "(string \<Rightarrow> bool) \<Rightarrow> string \<Rightarrow> nat \<times> json_map \<Rightarrow> nat \<times> json_map" where
  "sanitise_key contains_secret key st =
     (let (dropped, attrs) = st in
      if \<not> key_allowed key then (dropped + 1, map_remove key attrs)
      else case map_of attrs key of
          Some (String s) \<Rightarrow>
            if value_allowed contains_secret s then (dropped, attrs) else (dropped + 1, map_remove key attrs)
        | Some (Array items) \<Rightarrow>
            if list_ex (bad_item contains_secret) items then (dropped + 1, map_remove key attrs)
            else (dropped, attrs)
        | Some (Object inner) \<Rightarrow>
            if key = ''provider'' then
              (let (n, inner') = sanitise_provider contains_secret inner
               in (dropped + n, map_insert key (Object inner') attrs))
            else (dropped + 1, map_remove key attrs)
        | _ \<Rightarrow> (dropped, attrs))"

definition sanitise :: "(string \<Rightarrow> bool) \<Rightarrow> json_map \<Rightarrow> nat \<times> json_map" where
  "sanitise contains_secret attrs =
     (let (dropped, out) = fold (sanitise_key contains_secret) (map fst attrs) (0, attrs) in
      if dropped > 0 then
        (let prior = (case Option.bind (map_of out REDACTIONS_KEY) as_u64 of Some n \<Rightarrow> n | None \<Rightarrow> 0)
         in (dropped, map_insert REDACTIONS_KEY (Number (PosInt ((prior + dropped) mod 2 ^ 64))) out))
      else (dropped, out))"

definition sanitise_attrs :: "(string \<Rightarrow> bool) \<Rightarrow> Event \<Rightarrow> nat \<times> Event" where
  "sanitise_attrs contains_secret ev =
     (let (n, attrs) = sanitise contains_secret (ev_attrs ev) in (n, ev\<lparr>ev_attrs := attrs\<rparr>))"

section \<open>The map operations\<close>

lemma position_None: "position k m = None \<longleftrightarrow> k \<notin> fst ` set m"
  by (induction k m rule: position.induct) auto

lemma position_Some:
  "position k m = Some i \<Longrightarrow> \<exists>pre v post. m = pre @ (k, v) # post \<and> length pre = i"
proof (induction k m arbitrary: i rule: position.induct)
  case (2 k k' v m)
  show ?case
  proof (cases "k = k'")
    case False
    with 2 obtain j where "position k m = Some j" "i = Suc j"
      by auto
    with 2 False obtain pre w post where "m = pre @ (k, w) # post" "length pre = j"
      by blast
    then show ?thesis
      using \<open>i = Suc j\<close> by (intro exI [of _ "(k', v) # pre"] exI [of _ w] exI [of _ post]) simp
  qed (use 2 in auto)
qed simp

lemma map_remove_cases:
  obtains "k \<notin> fst ` set m" "map_remove k m = m"
  | pre v post where "m = pre @ (k, v) # post"
      "map_remove k m = pre @ (if post = [] then [] else last post # butlast post)"
proof (cases "position k m")
  case None
  then show ?thesis
    using that(1) position_None [of k m] by (simp add: map_remove_def)
next
  case (Some i)
  then obtain pre v post where m: "m = pre @ (k, v) # post" "length pre = i"
    by (auto dest: position_Some)
  then have "map_remove k m = pre @ (if post = [] then [] else last post # butlast post)"
    using Some by (auto simp: map_remove_def butlast_append)
  then show ?thesis
    using that(2) m by blast
qed

lemma last_butlast_perm: "xs \<noteq> [] \<Longrightarrow> mset (last xs # butlast xs) = mset xs"
  by (metis append_butlast_last_id mset_append mset.simps union_commute mset_single_iff_right add_mset_add_single)

lemma map_of_filtered:
  assumes "distinct (map fst m)" and "distinct (map fst m')" and "set m' = {e \<in> set m. fst e \<noteq> k}"
  shows "map_of m' = (map_of m)(k := None)"
proof
  fix x
  show "map_of m' x = ((map_of m)(k := None)) x"
  proof (cases "map_of m x")
    case None
    then have "x \<notin> fst ` set m'"
      using assms(3) by (auto simp: map_of_eq_None_iff)
    then show ?thesis
      using None by (simp flip: map_of_eq_None_iff)
  next
    case (Some v)
    then have "(x, v) \<in> set m"
      by (rule map_of_SomeD)
    then show ?thesis
      using Some assms by (auto simp: map_of_eq_None_iff)
  qed
qed

lemma map_remove_facts:
  assumes "distinct (map fst m)"
  shows "distinct (map fst (map_remove k m))"
    and "map_of (map_remove k m) = (map_of m)(k := None)"
proof -
  have "distinct (map fst (map_remove k m)) \<and> set (map_remove k m) = {e \<in> set m. fst e \<noteq> k}"
  proof (cases rule: map_remove_cases [of k m])
    case 1
    then show ?thesis using assms by auto
  next
    case (2 pre v post)
    have p: "mset (if post = [] then [] else last post # butlast post) = mset post"
      using last_butlast_perm [of post] by auto
    have ms: "mset (map_remove k m) = mset (pre @ post)"
      using 2 p by simp
    then have "mset (map fst (map_remove k m)) = mset (map fst (pre @ post))"
      by (metis mset_map)
    moreover have "distinct (map fst (pre @ post))"
      using assms 2(1) by auto
    ultimately have "distinct (map fst (map_remove k m))"
      by (metis mset_eq_imp_distinct_iff)
    moreover have "set (map_remove k m) = set (pre @ post)"
      using ms by (metis set_mset_mset)
    moreover have "{e \<in> set m. fst e \<noteq> k} = set (pre @ post)"
      using assms 2(1) by (force simp: image_iff)
    ultimately show ?thesis
      by simp
  qed
  then show d: "distinct (map fst (map_remove k m))" and
    "map_of (map_remove k m) = (map_of m)(k := None)"
    using map_of_filtered [OF assms] by auto
qed

lemma map_insert_keys: "set (map fst (map_insert k v m)) = insert k (set (map fst m))"
  by (induction k v m rule: map_insert.induct) auto

lemma map_insert_facts:
  "map_of (map_insert k v m) = (map_of m)(k \<mapsto> v)"
  "distinct (map fst m) \<Longrightarrow> distinct (map fst (map_insert k v m))"
  by (induction k v m rule: map_insert.induct) (auto simp: fun_upd_twist map_insert_keys simp del: set_map)

lemma map_insert_same: "map_of m k = Some v \<Longrightarrow> map_insert k v m = m"
  by (induction k v m rule: map_insert.induct) (auto split: if_splits)

section \<open>What the contract asks of an entry\<close>

definition attr_entry_ok :: "(string \<Rightarrow> bool) \<Rightarrow> string \<Rightarrow> Value \<Rightarrow> bool" where
  "attr_entry_ok contains_secret k v \<longleftrightarrow>
     key_allowed k \<and>
     (case v of
        String s \<Rightarrow> value_allowed contains_secret s
      | Array items \<Rightarrow> \<not> list_ex (bad_item contains_secret) items
      | Object inner \<Rightarrow>
          k = ''provider'' \<and> (\<forall>e \<in> set inner. \<not> bad_provider_value contains_secret (snd e))
      | _ \<Rightarrow> True)"

text \<open>What becomes of one entry.\<close>

definition clean :: "(string \<Rightarrow> bool) \<Rightarrow> string \<Rightarrow> Value \<Rightarrow> Value option" where
  "clean cs k v =
     (if attr_entry_ok cs k v then Some v
      else case v of
          Object inner \<Rightarrow>
            if k = ''provider'' then Some (Object (snd (sanitise_provider cs inner))) else None
        | _ \<Rightarrow> None)"

lemma key_allowed_provider: "key_allowed ''provider''" "key_allowed REDACTIONS_KEY"
  by (simp_all add: key_allowed_def ALLOWED_ATTR_KEYS_def)

lemma filter_empty_fold: "filter P m = [] \<Longrightarrow> fold map_remove (map fst (filter P m)) m = m"
  by simp

lemma sanitise_provider_ok:
  "(\<forall>e \<in> set inner. \<not> bad_provider_value cs (snd e)) \<Longrightarrow> sanitise_provider cs inner = (0, inner)"
proof -
  assume "\<forall>e \<in> set inner. \<not> bad_provider_value cs (snd e)"
  then have "filter (\<lambda>(k, v). bad_provider_value cs v) inner = []"
    by (auto simp: filter_empty_conv)
  then show ?thesis
    by (simp add: sanitise_provider_def)
qed

lemma sanitise_provider_bad:
  "\<exists>e \<in> set inner. bad_provider_value cs (snd e) \<Longrightarrow> 0 < fst (sanitise_provider cs inner)"
  by (auto simp: sanitise_provider_def Let_def filter_empty_conv)

lemma fold_map_remove:
  assumes "distinct (map fst m)"
  shows "distinct (map fst (fold map_remove ks m)) \<and> map_of (fold map_remove ks m) = map_of m |` (- set ks)"
  using assms
proof (induction ks arbitrary: m)
  case (Cons k ks)
  note rm = map_remove_facts [OF Cons.prems, of k]
  have "map_of (map_remove k m) |` (- set ks) = map_of m |` (- set (k # ks))"
    by (auto simp: rm restrict_map_def)
  with Cons.IH [OF rm(1)] show ?case by simp
qed (simp add: restrict_map_def)

lemma sanitise_provider_clean:
  assumes "distinct (map fst inner)"
  shows "\<forall>e \<in> set (snd (sanitise_provider cs inner)). \<not> bad_provider_value cs (snd e)"
proof
  let ?bad = "map fst (filter (\<lambda>(k, v). bad_provider_value cs v) inner)"
  fix e
  assume e: "e \<in> set (snd (sanitise_provider cs inner))"
  then have "e \<in> set (fold map_remove ?bad inner)"
    by (simp add: sanitise_provider_def Let_def)
  then have "map_of (fold map_remove ?bad inner) (fst e) = Some (snd e)"
    using fold_map_remove [OF assms, of ?bad] by (metis map_of_eq_Some_iff prod.collapse)
  then have "map_of inner (fst e) = Some (snd e)" "fst e \<notin> set ?bad"
    using fold_map_remove [OF assms, of ?bad] by (auto simp: restrict_map_def split: if_splits)
  then show "\<not> bad_provider_value cs (snd e)"
    by (force dest: map_of_SomeD)
qed

section \<open>The loop\<close>

text \<open>JSON objects have distinct keys, nested ones too (all that is used: the \<open>provider\<close> entry).\<close>

definition json_keys_ok :: "json_map \<Rightarrow> bool" where
  "json_keys_ok m \<longleftrightarrow>
     distinct (map fst m) \<and> (\<forall>inner. map_of m ''provider'' = Some (Object inner) \<longrightarrow> distinct (map fst inner))"

lemma sanitise_key_step:
  assumes "distinct (map fst attrs)" and "map_of attrs key = Some v"
    and "sanitise_key cs key (d, attrs) = (d', attrs')"
  shows "distinct (map fst attrs') \<and> map_of attrs' = (map_of attrs)(key := clean cs key v) \<and>
    d \<le> d' \<and> (d' = d \<longleftrightarrow> attr_entry_ok cs key v) \<and> (d' = d \<longrightarrow> attrs' = attrs)"
proof -
  note rm = map_remove_facts [OF assms(1), of key]
  note ins = map_insert_facts
  have same: "(map_of attrs)(key := Some v) = map_of attrs"
    using assms(2) by auto
  show ?thesis
  proof (cases "key_allowed key")
    case False
    then have "\<not> attr_entry_ok cs key v" "clean cs key v = None"
      using key_allowed_provider(1) by (auto simp: attr_entry_ok_def clean_def split: Value.splits)
    with False assms(3) rm show ?thesis
      by (auto simp: sanitise_key_def)
  next
    case True
    show ?thesis
    proof (cases "attr_entry_ok cs key v")
      case ok: True
      then have "sanitise_key cs key (d, attrs) = (d, attrs)"
        using True assms(2)
        by (auto simp: sanitise_key_def attr_entry_ok_def sanitise_provider_ok map_insert_same
            split: Value.splits)
      with ok assms same show ?thesis
        by (simp add: clean_def)
    next
      case bad: False
      show ?thesis
      proof (cases "\<exists>inner. v = Object inner \<and> key = ''provider''")
        case prov: True
        then obtain inner where v: "v = Object inner" "key = ''provider''"
          by blast
        have "0 < fst (sanitise_provider cs inner)"
          using bad True v by (intro sanitise_provider_bad) (auto simp: attr_entry_ok_def)
        then show ?thesis
          using assms(2,3) True v bad ins(2) [OF assms(1)]
          by (auto simp: sanitise_key_def clean_def ins(1) split: prod.splits)
      next
        case False
        then have "clean cs key v = None" "sanitise_key cs key (d, attrs) = (d + 1, map_remove key attrs)"
          using bad True assms(2)
          by (auto simp: clean_def sanitise_key_def attr_entry_ok_def split: Value.splits)
        with bad assms(3) rm show ?thesis
          by simp
      qed
    qed
  qed
qed

lemma sanitise_loop:
  assumes "distinct (map fst attrs)" and "distinct ks" and "\<forall>k \<in> set ks. map_of attrs k = map_of m k \<and> map_of m k \<noteq> None"
    and "fold (sanitise_key cs) ks (d, attrs) = (d', attrs')"
  shows "distinct (map fst attrs') \<and> d \<le> d' \<and>
    (\<forall>k. map_of attrs' k = (if k \<in> set ks then Option.bind (map_of m k) (clean cs k) else map_of attrs k)) \<and>
    (d' = d \<longleftrightarrow> (\<forall>k \<in> set ks. \<forall>v. map_of m k = Some v \<longrightarrow> attr_entry_ok cs k v)) \<and>
    (d' = d \<longrightarrow> attrs' = attrs)"
  using assms
proof (induction ks arbitrary: d attrs)
  case (Cons key ks)
  obtain v where v: "map_of m key = Some v" "map_of attrs key = Some v"
    using Cons.prems(3) by auto
  obtain d1 attrs1 where one: "sanitise_key cs key (d, attrs) = (d1, attrs1)"
    by (cases "sanitise_key cs key (d, attrs)")
  note step = sanitise_key_step [OF Cons.prems(1) v(2) one]
  have keep: "\<forall>k \<in> set ks. map_of attrs1 k = map_of m k \<and> map_of m k \<noteq> None"
    using step Cons.prems(2,3) by auto
  have rest: "fold (sanitise_key cs) ks (d1, attrs1) = (d', attrs')"
    using Cons.prems(4) one by simp
  have ih: "distinct (map fst attrs') \<and> d1 \<le> d' \<and>
    (\<forall>k. map_of attrs' k = (if k \<in> set ks then Option.bind (map_of m k) (clean cs k) else map_of attrs1 k)) \<and>
    (d' = d1 \<longleftrightarrow> (\<forall>k \<in> set ks. \<forall>v. map_of m k = Some v \<longrightarrow> attr_entry_ok cs k v)) \<and>
    (d' = d1 \<longrightarrow> attrs' = attrs1)"
    using step Cons.prems(2) keep rest by (intro Cons.IH) auto
  have "d' = d \<longleftrightarrow> d' = d1 \<and> d1 = d"
    using ih step by linarith
  then show ?case
    using ih step v by auto
qed simp

lemma clean_ok:
  assumes "clean cs k v = Some w" and "\<forall>inner. k = ''provider'' \<and> v = Object inner \<longrightarrow> distinct (map fst inner)"
  shows "attr_entry_ok cs k w"
  using assms sanitise_provider_clean key_allowed_provider(1)
  by (auto simp: clean_def attr_entry_ok_def split: if_splits Value.splits)

text \<open>The whole of \<open>sanitise\<close>, in terms of the entries it was given.\<close>

lemma sanitise_entries:
  assumes "json_keys_ok m" and "sanitise cs m = (n, out)"
  shows "distinct (map fst out) \<and> (\<forall>k v. map_of out k = Some v \<longrightarrow> attr_entry_ok cs k v) \<and>
    (\<forall>k v. map_of m k = Some v \<and> attr_entry_ok cs k v \<and> k \<noteq> REDACTIONS_KEY \<longrightarrow> map_of out k = Some v) \<and>
    (n = 0 \<longleftrightarrow> (\<forall>k v. map_of m k = Some v \<longrightarrow> attr_entry_ok cs k v)) \<and> (n = 0 \<longrightarrow> out = m)"
proof -
  obtain d attrs where loop: "fold (sanitise_key cs) (map fst m) (0, m) = (d, attrs)"
    by (cases "fold (sanitise_key cs) (map fst m) (0, m)")
  have dist: "distinct (map fst m)"
    using assms(1) by (simp add: json_keys_ok_def)
  have "\<forall>k \<in> set (map fst m). map_of m k = map_of m k \<and> map_of m k \<noteq> None"
    by (auto simp: map_of_eq_None_iff)
  note l = sanitise_loop [OF dist dist this loop]
  have mem: "k \<in> set (map fst m)" if "map_of m k = Some v" for k v
    using that by (force dest: map_of_SomeD)
  have entries: "map_of attrs k = Option.bind (map_of m k) (clean cs k)" for k
  proof (cases "map_of m k")
    case (Some v)
    then show ?thesis using l mem [OF Some] by simp
  next
    case None
    then have "k \<notin> set (map fst m)"
      by (auto simp: map_of_eq_None_iff)
    then show ?thesis using l None by simp
  qed
  have ok: "attr_entry_ok cs k w" if w: "map_of attrs k = Some w" for k w
  proof -
    obtain v where v: "map_of m k = Some v" "clean cs k v = Some w"
      using w entries [of k] by (auto simp: bind_eq_Some_conv)
    show ?thesis
      using assms(1) v(1) clean_ok [OF v(2)] unfolding json_keys_ok_def by blast
  qed
  have kept: "map_of attrs k = Some v" if "map_of m k = Some v" "attr_entry_ok cs k v" for k v
    using that entries [of k] by (simp add: clean_def)
  have zero: "d = 0 \<longleftrightarrow> (\<forall>k v. map_of m k = Some v \<longrightarrow> attr_entry_ok cs k v)"
    using l mem by (meson order_refl)
  show ?thesis
  proof (cases "d = 0")
    case True
    then have "n = 0" "out = attrs" "attrs = m"
      using assms(2) loop l by (auto simp: sanitise_def)
    with zero True dist ok show ?thesis by auto
  next
    case False
    then obtain c where out: "n = d" "out = map_insert REDACTIONS_KEY (Number c) attrs"
      using assms(2) loop by (auto simp: sanitise_def Let_def)
    have "attr_entry_ok cs REDACTIONS_KEY (Number c)"
      using key_allowed_provider(2) by (simp add: attr_entry_ok_def)
    then have "attr_entry_ok cs k v" if "map_of out k = Some v" for k v
      using that ok [of k v] by (cases "k = REDACTIONS_KEY") (simp_all add: out map_insert_facts)
    moreover have "map_of out k = Some v" if "map_of m k = Some v" "attr_entry_ok cs k v" "k \<noteq> REDACTIONS_KEY" for k v
      using that kept [of k v] by (simp add: out map_insert_facts)
    moreover have "distinct (map fst out)"
      using l by (simp add: out map_insert_facts)
    ultimately show ?thesis
      using False out zero by blast
  qed
qed

section \<open>Theorems\<close>


definition sample_attrs :: json_map where
  "sample_attrs = [(''model'', String ''m''), (''note'', String ''x''), (''exit_code'', Number (PosInt 1))]"


text \<open>
  C22: strings inside a nested array are never looked at: an allowlisted key whose value is an
  array of an array of any string at all (multi-line text, an e-mail address, a secret) passes
  unchanged and nothing is counted as dropped.
\<close>

theorem sanitise_nested_array_passes:
  "sanitise cs [(''source'', Array [Array [String s]])] = (0, [(''source'', Array [Array [String s]])])"
proof -
  have "key_allowed ''source''"
    by (simp add: key_allowed_def ALLOWED_ATTR_KEYS_def)
  then show ?thesis
    by (simp add: sanitise_def sanitise_key_def bad_item_def)
qed

end
