(* ===== verification/Database.thy ===== *)
theory Database
  imports Selection Attrs "HOL-Library.Product_Lexorder"
begin

text \<open>
  The database handle (\<open>attemptdb-storage/src/db.rs\<close>): a single writer over the write-ahead log, the
  manifest generations and the segment directory. The disk is an explicit value; every operation
  returns the handle and the disk it leaves, also when it fails, so a crash is the disk an operation
  that stopped early left behind. Arguments say what fails: a write, a sync, a rename, a deletion, a
  read. \<open>Env\<close> holds the code outside the repository (serde, CRC-32, Arrow sizes and hashes, secret
  detection) and the key material (\<open>en_sink\<close> for the current key, \<open>en_reader\<close> for the held ones).
\<close>

section \<open>State\<close>

datatype DurabilityPolicy = Strict | Relaxed

record OpenOptions =
  oo_create :: bool
  oo_read_only :: bool
  oo_durability :: DurabilityPolicy
  oo_flush_events :: nat
  oo_flush_bytes :: nat
  oo_device_id :: "DeviceId option"

definition OpenOptions_default :: OpenOptions where
  "OpenOptions_default =
     \<lparr>oo_create = False, oo_read_only = False, oo_durability = Strict, oo_flush_events = 20000,
      oo_flush_bytes = 64 * 1024 * 1024, oo_device_id = None\<rparr>"

record IngestReport =
  ir_accepted :: nat
  ir_duplicates :: nat
  ir_bytes :: nat
  ir_flushed_segments :: nat
  ir_spool_files :: nat
  ir_undecodable :: nat
  ir_quarantined :: nat
  ir_redactions :: nat
  ir_rejected :: nat
  ir_rejected_ids :: "EventId list"

definition IngestReport_default :: IngestReport where
  "IngestReport_default =
     \<lparr>ir_accepted = 0, ir_duplicates = 0, ir_bytes = 0, ir_flushed_segments = 0, ir_spool_files = 0,
      ir_undecodable = 0, ir_quarantined = 0, ir_redactions = 0, ir_rejected = 0, ir_rejected_ids = []\<rparr>"

definition IngestReport_merge :: "IngestReport \<Rightarrow> IngestReport \<Rightarrow> IngestReport" where
  "IngestReport_merge a b =
     \<lparr>ir_accepted = ir_accepted a + ir_accepted b, ir_duplicates = ir_duplicates a + ir_duplicates b,
      ir_bytes = ir_bytes a + ir_bytes b, ir_flushed_segments = ir_flushed_segments a + ir_flushed_segments b,
      ir_spool_files = ir_spool_files a + ir_spool_files b, ir_undecodable = ir_undecodable a + ir_undecodable b,
      ir_quarantined = ir_quarantined a + ir_quarantined b, ir_redactions = ir_redactions a + ir_redactions b,
      ir_rejected = ir_rejected a + ir_rejected b, ir_rejected_ids = ir_rejected_ids a @ ir_rejected_ids b\<rparr>"

datatype db_warning =
    StaleTempFile string
  | GenerationRejected nat
  | UnreferencedSegment string nat
  | WalTornTails nat
  | WalUndecodable nat
  | SegmentUnreadable string storage_error
  | TombstoneKept string
  | SpoolNote string
  | NoKeyNote uuid

record Disk =
  dk_identity :: "(uuid \<times> DeviceId) option"
  dk_wal :: dir
  dk_manifest :: dir
  dk_segments :: seg_dir

record Env =
  en_seg :: SegEnv
  en_crc :: "u8 list \<Rightarrow> u32"
  en_to_vec :: "Event \<Rightarrow> unit + u8 list"
  en_from_slice :: "u8 list \<Rightarrow> unit + Event"
  en_mf_to_vec :: "Manifest \<Rightarrow> unit + u8 list"
  en_mf_pretty :: "Manifest \<Rightarrow> unit + u8 list"
  en_mf_from_slice :: "u8 list \<Rightarrow> unit + Manifest"
  en_secret :: "string \<Rightarrow> bool"
  en_sink :: "blob_sink option"
  en_reader :: "blob_reader option"
  en_held :: "uuid \<Rightarrow> bool"

record Database =
  db_manifest :: Manifest
  db_wal :: "Wal option"
  db_memtable :: MemTable
  db_hlc :: HlcGenerator
  db_next_seq :: nat
  db_opts :: OpenOptions
  db_segment_ids :: "uuid \<rightharpoonup> IdSet"
  db_id_set_loads :: nat
  db_warnings :: "db_warning list"

text \<open>What the operating system does to one flush.\<close>

record FlushIo =
  fi_sync_ok :: bool
  fi_segment_id :: uuid
  fi_segment :: publish_io
  fi_rotate :: rotate_fault
  fi_fresh :: FileHeader
  fi_now :: Timestamp
  fi_manifest :: manifest_io
  fi_prune_fails :: "string \<Rightarrow> bool"
  fi_wal_rm_fails :: "nat \<Rightarrow> bool"
  fi_wal_sync_ok :: bool
  fi_gc_fails :: "string \<Rightarrow> bool"

section \<open>Deduplication\<close>

definition require_writer :: "Database \<Rightarrow> storage_error + unit" where
  "require_writer db =
     (if oo_read_only (db_opts db) then Err (Other ''database opened read-only'') else Ok ())"

definition warn_once :: "db_warning \<Rightarrow> Database \<Rightarrow> Database" where
  "warn_once w db = (if w \<in> set (db_warnings db) then db else db\<lparr>db_warnings := db_warnings db @ [w]\<rparr>)"

definition segment_is_lost :: "Database \<Rightarrow> storage_error \<Rightarrow> bool" where
  "segment_is_lost db e =
     (case e of
        Corrupt _ _ \<Rightarrow> True
      | UnsupportedFormat _ _ _ \<Rightarrow> True
      | Arrow \<Rightarrow> True
      | Json \<Rightarrow> True
      | Core _ \<Rightarrow> True
      | Io k \<Rightarrow> \<not> oo_read_only (db_opts db) \<and> k = NotFound
      | _ \<Rightarrow> False)"

text \<open>The id set of a candidate segment: cached, read from its file, or empty when the file is lost.\<close>

definition load_ids ::
  "(string \<Rightarrow> bool) \<Rightarrow> seg_dir \<Rightarrow> uuid \<Rightarrow> string \<Rightarrow> Database \<Rightarrow> (storage_error + IdSet) \<times> Database"
where
  "load_ids flt d sid name db =
     (case db_segment_ids db sid of
        Some ids \<Rightarrow> (Ok ids, db)
      | None \<Rightarrow>
          (let db1 = db\<lparr>db_id_set_loads := db_id_set_loads db + 1\<rparr> in
           case read_segment_event_ids flt d name of
             Ok ids \<Rightarrow>
               (Ok (IdSet_from_iter ids),
                db1\<lparr>db_segment_ids := (db_segment_ids db1)(sid \<mapsto> IdSet_from_iter ids)\<rparr>)
           | Err e \<Rightarrow>
               if segment_is_lost db e then
                 (let db2 = warn_once (SegmentUnreadable name e) db1
                  in (Ok [], db2\<lparr>db_segment_ids := (db_segment_ids db2)(sid \<mapsto> [])\<rparr>))
               else (Err e, db1)))"

text \<open>The loop over the candidate segments of \<open>is_known_at\<close>.\<close>

fun known_loop ::
  "(string \<Rightarrow> bool) \<Rightarrow> seg_dir \<Rightarrow> EventId \<Rightarrow> (uuid \<times> string) list \<Rightarrow> Database \<Rightarrow> (storage_error + bool) \<times> Database"
where
  "known_loop flt d eid [] db = (Ok False, db)"
| "known_loop flt d eid ((sid, name) # cands) db =
     (case load_ids flt d sid name db of
        (Err e, db1) \<Rightarrow> (Err e, db1)
      | (Ok ids, db1) \<Rightarrow>
          if IdSet_contains ids eid then (Ok True, db1) else known_loop flt d eid cands db1)"

definition is_known_at ::
  "(string \<Rightarrow> bool) \<Rightarrow> seg_dir \<Rightarrow> EventId \<Rightarrow> nat option \<Rightarrow> Database \<Rightarrow> (storage_error + bool) \<times> Database"
where
  "is_known_at flt d eid seq db =
     (if MemTable_contains (db_memtable db) eid then (Ok True, db)
      else known_loop flt d eid
        (map (\<lambda>s. (sm_segment_id s, sm_file s))
          (filter (\<lambda>s. is_none_or seq (\<lambda>q. sm_min_source_seq s \<le> q \<and> q \<le> sm_max_source_seq s))
            (filter (\<lambda>s. sm_min_event_id s \<le> eid \<and> eid \<le> sm_max_event_id s) (mf_segments (db_manifest db)))))
        db)"

definition is_known ::
  "(string \<Rightarrow> bool) \<Rightarrow> seg_dir \<Rightarrow> EventId \<Rightarrow> Database \<Rightarrow> (storage_error + bool) \<times> Database"
where
  "is_known flt d eid db = is_known_at flt d eid None db"

section \<open>Garbage collection and flush\<close>

definition base_name :: "string \<Rightarrow> string" where
  "base_name f = last (split_by (\<lambda>c. c = CHR ''/'') f)"

text \<open>The loop over the tombstones; \<open>fails\<close> says which files cannot be deleted.\<close>

fun gc_loop ::
  "(string \<Rightarrow> bool) \<Rightarrow> nat \<Rightarrow> Tombstone list \<Rightarrow> seg_dir \<Rightarrow> nat \<times> Tombstone list \<times> db_warning list \<times> seg_dir"
where
  "gc_loop fails current [] d = (0, [], [], d)"
| "gc_loop fails current (t # ts) d =
     (if current \<le> ts_since_generation t then
        (let (n, keep, ws, d') = gc_loop fails current ts d in (n, t # keep, ws, d'))
      else
        let name = base_name (ts_file t) in
        if fails name then
          (let (n, keep, ws, d') = gc_loop fails current ts d in (n, t # keep, TombstoneKept name # ws, d'))
        else
          (let (n, keep, ws, d') = gc_loop fails current ts (filter (\<lambda>e. fst e \<noteq> name) d)
           in (n + 1, keep, ws, d')))"

definition collect_garbage ::
  "(string \<Rightarrow> bool) \<Rightarrow> Database \<Rightarrow> Disk \<Rightarrow> (storage_error + nat) \<times> Database \<times> Disk"
where
  "collect_garbage fails db disk =
     (case require_writer db of
        Err e \<Rightarrow> (Err e, db, disk)
      | Ok _ \<Rightarrow>
          (let (removed, keep, ws, d') =
             gc_loop fails (mf_generation (db_manifest db)) (mf_tombstones (db_manifest db)) (dk_segments disk)
           in (Ok removed,
               db\<lparr>db_manifest := (db_manifest db)\<lparr>mf_tombstones := keep\<rparr>, db_warnings := db_warnings db @ ws\<rparr>,
               disk\<lparr>dk_segments := d'\<rparr>)))"

text \<open>The manifest a flush publishes.\<close>

definition flush_manifest :: "Timestamp \<Rightarrow> Database \<Rightarrow> Wal \<Rightarrow> SegmentMeta \<Rightarrow> Manifest" where
  "flush_manifest now db wal meta =
     (db_manifest db)
       \<lparr>mf_generation := mf_generation (db_manifest db) + 1,
        mf_created_at := now,
        mf_last_hlc := hlc_last (db_hlc db),
        mf_last_source_seq := db_next_seq db - 1,
        mf_wal := \<lparr>ws_active_file = wal_active_number wal, ws_checkpoint_offset = 0\<rparr>,
        mf_segments := mf_segments (db_manifest db) @ [meta]\<rparr>"

text \<open>The second half of a flush: publish the generation, then drop the old log files and the garbage.\<close>

definition flush_publish ::
  "Env \<Rightarrow> FlushIo \<Rightarrow> SegmentMeta \<Rightarrow> Event list \<Rightarrow> Wal \<Rightarrow> Database \<Rightarrow> Disk \<Rightarrow>
   (storage_error + SegmentMeta option) \<times> Database \<times> Disk"
where
  "flush_publish env io meta events wal db disk =
     (case Manifest_write (en_crc env) (en_mf_to_vec env) (en_mf_pretty env) (fi_manifest io) (fi_prune_fails io)
             (flush_manifest (fi_now io) db wal meta) (dk_manifest disk) of
        (Err e, mfdir) \<Rightarrow> (Err e, db, disk\<lparr>dk_manifest := mfdir\<rparr>)
      | (Ok next, mfdir) \<Rightarrow>
          (let db1 = db\<lparr>db_manifest := next,
                        db_segment_ids := (db_segment_ids db)(sm_segment_id meta \<mapsto>
                          IdSet_from_iter (map ev_event_id events)),
                        db_memtable := snd (MemTable_drain (db_memtable db))\<rparr>
           in case truncate_before (fi_wal_rm_fails io) (fi_wal_sync_ok io) (wal_active_number wal) (dk_wal disk) of
                (Err e, waldir) \<Rightarrow> (Err e, db1, disk\<lparr>dk_manifest := mfdir, dk_wal := waldir\<rparr>)
              | (Ok _, waldir) \<Rightarrow>
                  (let (r, db2, disk2) =
                     collect_garbage (fi_gc_fails io) db1 (disk\<lparr>dk_manifest := mfdir, dk_wal := waldir\<rparr>)
                   in case r of Err e \<Rightarrow> (Err e, db2, disk2) | Ok _ \<Rightarrow> (Ok (Some meta), db2, disk2))))"

definition flush ::
  "Env \<Rightarrow> FlushIo \<Rightarrow> Database \<Rightarrow> Disk \<Rightarrow> (storage_error + SegmentMeta option) \<times> Database \<times> Disk"
where
  "flush env io db disk =
     (case require_writer db of
        Err e \<Rightarrow> (Err e, db, disk)
      | Ok _ \<Rightarrow>
      if MemTable_is_empty (db_memtable db) then (Ok None, db, disk)
      else case db_wal db of
        None \<Rightarrow> (Err (Other ''writer has a WAL''), db, disk)
      | Some wal \<Rightarrow>
      if \<not> fi_sync_ok io then (Err (Io OtherIo), db, disk)
      else
        let events = sort_key ev_source_seq (mt_events (db_memtable db)) in
        case write_segment_with (en_seg env) (fi_segment io) (fi_segment_id io) events (en_sink env) (dk_segments disk) of
          (Err e, segs) \<Rightarrow> (Err e, db, disk\<lparr>dk_segments := segs\<rparr>)
        | (Ok meta, segs) \<Rightarrow>
        case Wal_rotate (en_crc env) (\<lambda>_ _. False) (fi_rotate io) (fi_fresh io) wal (dk_wal disk) of
          (Err e, wal1, waldir1) \<Rightarrow>
            (Err e, db\<lparr>db_wal := Some wal1\<rparr>, disk\<lparr>dk_segments := segs, dk_wal := waldir1\<rparr>)
        | (Ok _, wal1, waldir1) \<Rightarrow>
            flush_publish env io meta events wal1 (db\<lparr>db_wal := Some wal1\<rparr>)
              (disk\<lparr>dk_segments := segs, dk_wal := waldir1\<rparr>))"

section \<open>Ingest\<close>

text \<open>How one new event is stamped: its place in the order, its capture mode, its metadata.\<close>

definition stamp :: "Env \<Rightarrow> Timestamp \<Rightarrow> Database \<Rightarrow> Event \<Rightarrow> nat \<times> Event \<times> Database" where
  "stamp env now db ev =
     (let (h, gen) = hlc_next (db_hlc db) now;
          ev1 = ev\<lparr>ev_source_seq := db_next_seq db, ev_hlc := h, ev_ingested_at := Some now\<rparr>;
          (redactions, ev2) = sanitise_attrs (en_secret env) (apply_capture_mode ev1)
      in (redactions, ev2, db\<lparr>db_next_seq := db_next_seq db + 1, db_hlc := gen\<rparr>))"

fun ingest_loop ::
  "Env \<Rightarrow> (string \<Rightarrow> bool) \<Rightarrow> seg_dir \<Rightarrow> Timestamp \<Rightarrow> EventId list \<Rightarrow> IngestReport \<Rightarrow> Record list \<Rightarrow> Event list \<Rightarrow>
   Event list \<Rightarrow> Database \<Rightarrow> (storage_error + IngestReport \<times> Record list \<times> Event list) \<times> Database"
where
  "ingest_loop env flt d now seen report records batch [] db = (Ok (report, records, batch), db)"
| "ingest_loop env flt d now seen report records batch (ev # evs) db =
     (let eid = ev_event_id ev;
          (dup, db1) = (if eid \<in> set seen then (Ok True, db) else is_known flt d eid db)
      in case dup of
           Err e \<Rightarrow> (Err e, db1)
         | Ok True \<Rightarrow>
             ingest_loop env flt d now (eid # seen) (report\<lparr>ir_duplicates := ir_duplicates report + 1\<rparr>)
               records batch evs db1
         | Ok False \<Rightarrow>
             (let (redactions, ev2, db2) = stamp env now db1 ev;
                  report1 = report\<lparr>ir_redactions := ir_redactions report + redactions\<rparr>
              in case Record_event (encode_event (en_to_vec env)) ev2 of
                   Ok r \<Rightarrow>
                     ingest_loop env flt d now (eid # seen) report1 (records @ [r]) (batch @ [ev2]) evs db2
                 | Err (RecordTooLarge _ _) \<Rightarrow>
                     ingest_loop env flt d now (eid # seen)
                       (report1\<lparr>ir_rejected := ir_rejected report1 + 1,
                                ir_rejected_ids := ir_rejected_ids report1 @ [eid]\<rparr>)
                       records batch evs (db2\<lparr>db_next_seq := db_next_seq db2 - 1\<rparr>)
                 | Err e \<Rightarrow> (Err e, db2)))"

definition ingest ::
  "Env \<Rightarrow> (string \<Rightarrow> bool) \<Rightarrow> Timestamp \<Rightarrow> write_io \<Rightarrow> bool \<Rightarrow> FlushIo \<Rightarrow> Event list \<Rightarrow> Database \<Rightarrow> Disk \<Rightarrow>
   (storage_error + IngestReport) \<times> Database \<times> Disk"
where
  "ingest env flt now io sync_ok fio events db disk =
     (case require_writer db of
        Err e \<Rightarrow> (Err e, db, disk)
      | Ok _ \<Rightarrow>
      case ingest_loop env flt (dk_segments disk) now [] IngestReport_default [] [] events db of
        (Err e, db1) \<Rightarrow> (Err e, db1\<lparr>db_next_seq := db_next_seq db\<rparr>, disk)
      | (Ok (report, records, batch), db1) \<Rightarrow>
      if batch = [] then (Ok report, db1, disk)
      else case db_wal db1 of
        None \<Rightarrow> (Err (Other ''writer has a WAL''), db1, disk)
      | Some wal \<Rightarrow>
      case Wal_append_records (en_crc env) io wal (dk_wal disk) records of
        (Err e, wal1, waldir) \<Rightarrow>
          (Err e, db1\<lparr>db_wal := Some wal1, db_next_seq := ev_source_seq (hd batch)\<rparr>, disk\<lparr>dk_wal := waldir\<rparr>)
      | (Ok bytes, wal1, waldir) \<Rightarrow>
          (let db2 = db1\<lparr>db_wal := Some wal1\<rparr>;
               disk2 = disk\<lparr>dk_wal := waldir\<rparr>
           in if oo_durability (db_opts db) = Strict \<and> \<not> sync_ok then (Err (Io OtherIo), db2, disk2)
              else
                let report2 = report\<lparr>ir_bytes := bytes, ir_accepted := length batch\<rparr>;
                    per_event = bytes div max (length batch) 1;
                    db3 = db2\<lparr>db_memtable := fold (\<lambda>ev. MemTable_push ev per_event) batch (db_memtable db2)\<rparr>
                in if oo_flush_events (db_opts db) \<le> MemTable_len (db_memtable db3) \<or>
                      oo_flush_bytes (db_opts db) \<le> mt_approx_bytes (db_memtable db3)
                   then (case flush env fio db3 disk2 of
                           (Err e, db4, disk4) \<Rightarrow> (Err e, db4, disk4)
                         | (Ok None, db4, disk4) \<Rightarrow> (Ok report2, db4, disk4)
                         | (Ok (Some _), db4, disk4) \<Rightarrow>
                             (Ok (report2\<lparr>ir_flushed_segments := ir_flushed_segments report2 + 1\<rparr>), db4, disk4))
                   else (Ok report2, db3, disk2)))"

section \<open>Creating and opening\<close>

definition db_create ::
  "Env \<Rightarrow> manifest_io \<Rightarrow> bool \<Rightarrow> bool \<Rightarrow> uuid \<Rightarrow> DeviceId \<Rightarrow> Timestamp \<Rightarrow> Disk \<Rightarrow> (storage_error + unit) \<times> Disk"
where
  "db_create env mio identity_ok sync_ok db_id device_id now disk =
     (if dk_identity disk \<noteq> None then (Err (Other ''database already exists''), disk)
      else case Manifest_write (en_crc env) (en_mf_to_vec env) (en_mf_pretty env) mio (\<lambda>_. False)
             ((Manifest_initial db_id device_id now)\<lparr>mf_generation := 1\<rparr>) (dk_manifest disk) of
        (Err e, mfdir) \<Rightarrow> (Err e, disk\<lparr>dk_manifest := mfdir\<rparr>)
      | (Ok _, mfdir) \<Rightarrow>
          if \<not> identity_ok then (Err (Io OtherIo), disk\<lparr>dk_manifest := mfdir\<rparr>)
          else
            let disk1 = disk\<lparr>dk_manifest := mfdir, dk_identity := Some (db_id, device_id)\<rparr>
            in if sync_ok then (Ok (), disk1) else (Err (Io OtherIo), disk1))"

definition is_temp_name :: "string \<Rightarrow> bool" where
  "is_temp_name name \<longleftrightarrow>
     (case rsplit_once ''.'' name of Some (stem, ext) \<Rightarrow> stem \<noteq> [] \<and> ext = ''tmp'' | None \<Rightarrow> False)"

definition remove_stale_temp_files :: "Disk \<Rightarrow> Disk \<times> db_warning list" where
  "remove_stale_temp_files disk =
     (disk\<lparr>dk_segments := filter (\<lambda>e. \<not> is_temp_name (fst e)) (dk_segments disk),
           dk_manifest := filter (\<lambda>e. \<not> is_temp_name (fst e)) (dk_manifest disk)\<rparr>,
      map (\<lambda>e. StaleTempFile (fst e)) (filter (\<lambda>e. is_temp_name (fst e)) (dk_segments disk)) @
      map (\<lambda>e. StaleTempFile (fst e)) (filter (\<lambda>e. is_temp_name (fst e)) (dk_manifest disk)))"

definition note_unreferenced_segments :: "Manifest \<Rightarrow> seg_dir \<Rightarrow> db_warning list" where
  "note_unreferenced_segments m d =
     (let referenced = map sm_file (mf_segments m) @ map (\<lambda>t. base_name (ts_file t)) (mf_tombstones m);
          orphans = filter (\<lambda>name. starts_with ''seg-'' name \<and> ends_with ''.arrow'' name \<and> name \<notin> set referenced)
            (map fst d)
      in map (\<lambda>name. UnreferencedSegment name (mf_generation m)) (sort orphans))"

text \<open>The replay of the log: an event already stored is skipped, a new one enters the memtable.\<close>

definition durable_seq :: "Manifest \<Rightarrow> nat" where
  "durable_seq m = fold (\<lambda>s a. max a (sm_max_source_seq s)) (mf_segments m) (mf_last_source_seq m)"

fun replay_loop ::
  "Env \<Rightarrow> (string \<Rightarrow> bool) \<Rightarrow> seg_dir \<Rightarrow> nat \<Rightarrow> Event list \<Rightarrow> Database \<Rightarrow> (storage_error + unit) \<times> Database"
where
  "replay_loop env flt d durable [] db = (Ok (), db)"
| "replay_loop env flt d durable (ev # evs) db =
     (let (known, db1) =
        (if durable < ev_source_seq ev then (Ok (MemTable_contains (db_memtable db) (ev_event_id ev)), db)
         else is_known_at flt d (ev_event_id ev)
                (if ev_source_seq ev \<noteq> 0 then Some (ev_source_seq ev) else None) db)
      in case known of
           Err e \<Rightarrow> (Err e, db1)
         | Ok True \<Rightarrow> replay_loop env flt d durable evs db1
         | Ok False \<Rightarrow>
             (case encode_event (en_to_vec env) ev of
                Err e \<Rightarrow> (Err (Core e), db1)
              | Ok bytes \<Rightarrow>
                  replay_loop env flt d durable evs
                    (db1\<lparr>db_next_seq := (if db_next_seq db1 \<le> ev_source_seq ev then ev_source_seq ev + 1
                                         else db_next_seq db1),
                         db_hlc := (if hlc_last (db_hlc db1) < ev_hlc ev then resume_from (ev_hlc ev)
                                    else db_hlc db1),
                         db_memtable := MemTable_push ev (length bytes) (db_memtable db1)\<rparr>)))"

definition load_manifest :: "Env \<Rightarrow> Disk \<Rightarrow> storage_error + (Manifest \<times> nat list) option" where
  "load_manifest env disk =
     load_latest (en_crc env) (en_mf_to_vec env) (en_mf_from_slice env)
       (\<lambda>name. name \<in> fst ` set (dk_segments disk)) (Some (dk_manifest disk))"

text \<open>The handle before the log is replayed.\<close>

definition opened :: "OpenOptions \<Rightarrow> Manifest \<Rightarrow> db_warning list \<Rightarrow> Database" where
  "opened opts m ws =
     \<lparr>db_manifest = m, db_wal = None, db_memtable = MemTable_new, db_hlc = resume_from (mf_last_hlc m),
      db_next_seq = mf_last_source_seq m + 1, db_opts = opts, db_segment_ids = Map.empty,
      db_id_set_loads = 0, db_warnings = ws\<rparr>"

definition recovery_warnings :: "WalRecovery \<Rightarrow> db_warning list" where
  "recovery_warnings rec =
     (if wr_truncated_files rec \<noteq> [] then [WalTornTails (length (wr_truncated_files rec))] else []) @
     (if wr_undecodable_records rec > 0 then [WalUndecodable (wr_undecodable_records rec)] else [])"

text \<open>A warning for every sampled blob key the provider does not hold; no blob directory is no sample.\<close>

definition note_missing_blob_keys :: "(uuid \<Rightarrow> bool) \<Rightarrow> storage_error + uuid list \<Rightarrow> storage_error + db_warning list" where
  "note_missing_blob_keys held sampled =
     (case sampled of
        Err (Io NotFound) \<Rightarrow> Ok []
      | Err e \<Rightarrow> Err e
      | Ok key_ids \<Rightarrow> Ok (map NoKeyNote (filter (\<lambda>k. \<not> held k) key_ids)))"

text \<open>
  What the operating system does to one open: whether another writer holds the lock, which segment
  files and log positions cannot be read, which files cannot be deleted, the blob keys sampled, and
  for a database created on the way its identity.
\<close>

record OpenIo =
  oi_locked :: bool
  oi_now :: Timestamp
  oi_fresh :: FileHeader
  oi_read_fails :: "string \<Rightarrow> bool"
  oi_wal_fails :: "string \<Rightarrow> nat \<Rightarrow> bool"
  oi_gc_fails :: "string \<Rightarrow> bool"
  oi_sample :: "storage_error + uuid list"
  oi_create :: manifest_io
  oi_identity_ok :: bool
  oi_root_sync_ok :: bool
  oi_db_id :: uuid
  oi_device_id :: DeviceId

text \<open>The recovered log: replayed without a writer by a reader, opened by the writer.\<close>

definition recover_wal ::
  "Env \<Rightarrow> OpenOptions \<Rightarrow> OpenIo \<Rightarrow> dir \<Rightarrow> storage_error + Wal option \<times> WalRecovery \<times> dir"
where
  "recover_wal env opts io d =
     (if oo_read_only opts then
        (case Wal_scan (en_crc env) (oi_wal_fails io) (en_from_slice env) (Some d) of
           Err e \<Rightarrow> Err e | Ok rec \<Rightarrow> Ok (None, rec, d))
      else
        (case Wal_open (en_crc env) (oi_wal_fails io) (en_from_slice env) (oi_fresh io) d of
           Err e \<Rightarrow> Err e | Ok (w, rec, d') \<Rightarrow> Ok (Some w, rec, d')))"

text \<open>\<open>Database::open\<close> once the identity is there and the lock held.\<close>

definition open_existing ::
  "Env \<Rightarrow> OpenOptions \<Rightarrow> OpenIo \<Rightarrow> uuid \<Rightarrow> DeviceId \<Rightarrow> Disk \<Rightarrow> (storage_error + Database) \<times> Disk"
where
  "open_existing env opts io db_id device_id disk =
     (let (disk1, ws1) = (if oo_read_only opts then (disk, []) else remove_stale_temp_files disk) in
      case load_manifest env disk1 of
        Err e \<Rightarrow> (Err e, disk1)
      | Ok loaded \<Rightarrow>
          (let (m, ws2) =
             (case loaded of
                Some (m, gens) \<Rightarrow> (m, map GenerationRejected gens)
              | None \<Rightarrow> ((Manifest_initial db_id device_id (oi_now io))\<lparr>mf_generation := 1\<rparr>, []))
           in case note_missing_blob_keys (en_held env) (oi_sample io) of
                Err e \<Rightarrow> (Err e, disk1)
              | Ok ws3 \<Rightarrow>
                  (case recover_wal env opts io (dk_wal disk1) of
                     Err e \<Rightarrow> (Err e, disk1)
                   | Ok (wal, rec, waldir) \<Rightarrow>
                       (let disk2 = disk1\<lparr>dk_wal := waldir\<rparr>;
                            db1 = opened opts m
                              (ws1 @ ws2 @ note_unreferenced_segments m (dk_segments disk1) @ ws3 @ recovery_warnings rec)
                        in case replay_loop env (oi_read_fails io) (dk_segments disk2) (durable_seq m) (wr_events rec) db1 of
                             (Err e, _) \<Rightarrow> (Err e, disk2)
                           | (Ok _, db2) \<Rightarrow>
                               (let db3 = db2\<lparr>db_wal := wal\<rparr> in
                                if oo_read_only opts then (Ok db3, disk2)
                                else let (r, db4, disk4) = collect_garbage (oi_gc_fails io) db3 disk2
                                     in (case r of Err e \<Rightarrow> (Err e, disk4) | Ok _ \<Rightarrow> (Ok db4, disk4)))))))"

text \<open>\<open>Database::open\<close>, creating the database first when it is missing and the options allow it.\<close>

definition db_open :: "Env \<Rightarrow> OpenOptions \<Rightarrow> OpenIo \<Rightarrow> Disk \<Rightarrow> (storage_error + Database) \<times> Disk" where
  "db_open env opts io disk =
     (let (created, disk0) =
        (if dk_identity disk \<noteq> None then (Ok (), disk)
         else if oo_create opts then
           db_create env (oi_create io) (oi_identity_ok io) (oi_root_sync_ok io) (oi_db_id io)
             (case oo_device_id opts of Some d \<Rightarrow> d | None \<Rightarrow> oi_device_id io) (oi_now io) disk
         else (Err NotADatabase, disk))
      in case created of
           Err e \<Rightarrow> (Err e, disk0)
         | Ok _ \<Rightarrow>
             (case dk_identity disk0 of
                None \<Rightarrow> (Err NotADatabase, disk0)
              | Some (db_id, device_id) \<Rightarrow>
                  if \<not> oo_read_only opts \<and> oi_locked io then (Err Locked, disk0)
                  else open_existing env opts io db_id device_id disk0))"

section \<open>Reading\<close>

fun scan_segments ::
  "Env \<Rightarrow> (string \<Rightarrow> bool) \<Rightarrow> seg_dir \<Rightarrow> ScanFilter \<Rightarrow> SegmentMeta list \<Rightarrow> storage_error + Event list"
where
  "scan_segments env flt d f [] = Ok []"
| "scan_segments env flt d f (seg # segs) =
     (if \<not> segment_may_match f seg then scan_segments env flt d f segs
      else case read_segment_events_with (en_seg env) flt (en_reader env) d (sm_file seg) of
        Err e \<Rightarrow> Err e
      | Ok evs \<Rightarrow>
          (case scan_segments env flt d f segs of
             Err e \<Rightarrow> Err e
           | Ok rest \<Rightarrow> Ok (filter (matches f) evs @ rest)))"

definition last_n :: "nat \<Rightarrow> 'a list \<Rightarrow> 'a list" where
  "last_n n xs = drop (length xs - n) xs"

definition scan_order :: "Event \<Rightarrow> u64 \<times> nat" where
  "scan_order ev = (ev_hlc ev, ev_source_seq ev)"

definition db_scan :: "Env \<Rightarrow> (string \<Rightarrow> bool) \<Rightarrow> ScanFilter \<Rightarrow> Database \<Rightarrow> Disk \<Rightarrow> storage_error + Event list" where
  "db_scan env flt f db disk =
     (case scan_segments env flt (dk_segments disk) f (mf_segments (db_manifest db)) of
        Err e \<Rightarrow> Err e
      | Ok out \<Rightarrow>
          (let sorted_out = sort_key scan_order (out @ filter (matches f) (mt_events (db_memtable db)))
           in Ok (case sf_limit f of
                    Some limit \<Rightarrow> if limit < length sorted_out then last_n limit sorted_out else sorted_out
                  | None \<Rightarrow> sorted_out)))"

record DbStats =
  ds_generation :: nat
  ds_segments :: nat
  ds_segment_rows :: nat
  ds_segment_bytes :: nat
  ds_memtable_rows :: nat
  ds_wal_bytes :: nat
  ds_last_source_seq :: nat
  ds_last_hlc :: u64
  ds_tombstones :: nat

definition stats :: "Database \<Rightarrow> DbStats" where
  "stats db =
     \<lparr>ds_generation = mf_generation (db_manifest db), ds_segments = length (mf_segments (db_manifest db)),
      ds_segment_rows = sum_list (map sm_rows (mf_segments (db_manifest db))),
      ds_segment_bytes = sum_list (map sm_bytes (mf_segments (db_manifest db))),
      ds_memtable_rows = MemTable_len (db_memtable db),
      ds_wal_bytes = (case db_wal db of Some w \<Rightarrow> fw_len (wal_active w) | None \<Rightarrow> 0),
      ds_last_source_seq = db_next_seq db - 1, ds_last_hlc = hlc_last (db_hlc db),
      ds_tombstones = length (mf_tombstones (db_manifest db))\<rparr>"

definition db_close :: "Env \<Rightarrow> FlushIo \<Rightarrow> Database \<Rightarrow> Disk \<Rightarrow> (storage_error + unit) \<times> Disk" where
  "db_close env io db disk =
     (if oo_read_only (db_opts db) then (Ok (), disk)
      else case flush env io db disk of (Err e, _, disk') \<Rightarrow> (Err e, disk') | (Ok _, _, disk') \<Rightarrow> (Ok (), disk'))"


section \<open>Stored events\<close>

text \<open>
  What the environment promises: the codecs read back what they wrote, the held keys open the blobs,
  and a segment id is printed without a slash.
\<close>

definition env_ok :: "Env \<Rightarrow> blob_reader \<Rightarrow> bool" where
  "env_ok env rd \<longleftrightarrow>
     serde_ok (se_serde (en_seg env)) \<and> blobs_ok (en_sink env) rd \<and> en_reader env = Some rd \<and>
     (\<forall>bs m. en_mf_pretty env m = Inr bs \<longrightarrow> en_mf_from_slice env bs = Inr m) \<and>
     (\<forall>sid. CHR ''/'' \<notin> set (se_simple (en_seg env) sid))"

text \<open>A listed segment, the file behind it and the events in it.\<close>

definition seg_holds :: "Env \<Rightarrow> blob_reader \<Rightarrow> seg_dir \<Rightarrow> SegmentMeta \<Rightarrow> Event list \<Rightarrow> bool" where
  "seg_holds env rd d s evs \<longleftrightarrow>
     evs \<noteq> [] \<and> (\<exists>f. map_of d (sm_file s) = Some f \<and> file_ok (en_seg env) rd f evs) \<and>
     (\<forall>ev \<in> set evs. canonical_event ev) \<and>
     (\<exists>n sha. s = segment_meta (sm_segment_id s) (sm_file s) n sha evs)"

lemma seg_holds_read:
  assumes "env_ok env rd" and "seg_holds env rd d s evs"
  shows "read_segment_events_with (en_seg env) (\<lambda>_. False) (en_reader env) d (sm_file s) = Ok (map stored_form evs)"
    and "read_segment_event_ids (\<lambda>_. False) d (sm_file s) = Ok (map ev_event_id evs)"
  using assms file_ok_read(1,2) unfolding env_ok_def seg_holds_def by metis+

lemma matches_stored_form [simp]: "matches f (stored_form ev) = matches f ev"
  by (simp add: matches_def stored_form_def)

lemma seg_holds_prune:
  assumes "seg_holds env rd d s evs" and "\<not> segment_may_match f s"
  shows "filter (matches f) evs = []"
  using assms segment_may_match_sound unfolding seg_holds_def by (metis filter_False)

lemma scan_segments_exact:
  assumes "env_ok env rd" and "list_all2 (seg_holds env rd d) segs evss"
  shows "scan_segments env (\<lambda>_. False) d f segs = Ok (filter (matches f) (map stored_form (concat evss)))"
  using assms(2)
proof (induction rule: list_all2_induct)
  case (Cons s segs evs evss)
  have "filter (matches f) (map stored_form evs) = map stored_form (filter (matches f) evs)"
    by (simp add: filter_map o_def)
  then show ?case
    using Cons seg_holds_read(1) [OF assms(1) Cons.hyps(1)] seg_holds_prune [OF Cons.hyps(1), of f] by simp
qed simp

text \<open>What a scan means: of all stored events those that match, in clock order, and of these the newest.\<close>

definition scan_spec :: "ScanFilter \<Rightarrow> Event list \<Rightarrow> Event list" where
  "scan_spec f evs =
     (let out = sort_key scan_order (filter (matches f) evs)
      in case sf_limit f of None \<Rightarrow> out | Some n \<Rightarrow> drop (length out - n) out)"

lemma db_scan_eq:
  assumes "env_ok env rd" and "list_all2 (seg_holds env rd (dk_segments disk)) (mf_segments (db_manifest db)) evss"
  shows "db_scan env (\<lambda>_. False) f db disk =
    Ok (scan_spec f (map stored_form (concat evss) @ mt_events (db_memtable db)))"
  by (cases "sf_limit f")
    (auto simp: db_scan_def scan_segments_exact [OF assms] scan_spec_def Let_def last_n_def)

section \<open>The ingest loop\<close>

text \<open>What an ingested event keeps of the event that was handed in.\<close>

definition ingested_from :: "Env \<Rightarrow> Event \<Rightarrow> Event \<Rightarrow> bool" where
  "ingested_from env ev0 ev \<longleftrightarrow>
     (\<exists>seq h now content raw attrs.
        ev = ev0\<lparr>ev_source_seq := seq, ev_hlc := h, ev_ingested_at := Some now, ev_content := content,
                 ev_raw := raw, ev_attrs := attrs\<rparr> \<and>
        attrs = snd (sanitise (en_secret env) (ev_attrs ev0)) \<and>
        (if persists_content_locally (ev_capture_mode ev0)
         then content = ev_content ev0 \<and> raw = ev_raw ev0 else content = None \<and> raw = None))"

lemma stamp_effect:
  assumes "stamp env now db ev = (n, ev', db')"
  shows "ingested_from env ev ev'" "ev_source_seq ev' = db_next_seq db" "ev_event_id ev' = ev_event_id ev"
    "db' = db\<lparr>db_next_seq := db_next_seq db + 1, db_hlc := snd (hlc_next (db_hlc db) now)\<rparr>"
    "ev_hlc ev' = fst (hlc_next (db_hlc db) now)"
  using assms
  by (auto simp: stamp_def Let_def sanitise_attrs_def ingested_from_def apply_capture_mode_def case_prod_beta
      split: prod.splits if_splits)

text \<open>Deduplication changes nothing but the cache of id sets and the warnings.\<close>

definition same_core :: "Database \<Rightarrow> Database \<Rightarrow> bool" where
  "same_core a b \<longleftrightarrow>
     db_manifest a = db_manifest b \<and> db_wal a = db_wal b \<and> db_memtable a = db_memtable b \<and>
     db_hlc a = db_hlc b \<and> db_next_seq a = db_next_seq b \<and> db_opts a = db_opts b"

lemma same_core_refl [simp]: "same_core db db"
  by (simp add: same_core_def)

lemma same_core_trans: "same_core a b \<Longrightarrow> same_core b c \<Longrightarrow> same_core a c"
  by (simp add: same_core_def)

lemma warn_once_core [simp]: "same_core db (warn_once w db)"
  by (simp add: same_core_def warn_once_def)

lemma load_ids_core: "load_ids flt d sid name db = (res, db') \<Longrightarrow> same_core db db'"
  by (auto simp: load_ids_def Let_def same_core_def warn_once_def split: option.splits sum.splits if_splits)

lemma known_loop_core: "known_loop flt d eid cands db = (res, db') \<Longrightarrow> same_core db db'"
proof (induction cands arbitrary: db res db')
  case (Cons c cands)
  obtain sid name where c: "c = (sid, name)"
    by (cases c)
  obtain r db1 where one: "load_ids flt d sid name db = (r, db1)"
    by (cases "load_ids flt d sid name db")
  show ?case
    using Cons.prems load_ids_core [OF one] Cons.IH [of db1]
    by (auto simp: one c split: sum.splits if_splits intro: same_core_trans)
qed simp

lemma is_known_core: "is_known flt d eid db = (res, db') \<Longrightarrow> same_core db db'"
  by (auto simp: is_known_def is_known_at_def known_loop_core split: if_splits)

end
