(* ===== verification/Ingest.thy ===== *)
theory Ingest
  imports Database
begin

text \<open>
  What ingesting a batch does (\<open>Database::ingest\<close> in \<open>attemptdb-storage/src/db.rs\<close>): deduplication is
  exact whatever the state of the cache of id sets, and the loop over a batch numbers the new events
  consecutively, keeps the metadata contract and accounts for every event handed in.
\<close>

section \<open>Deduplication is exact\<close>

definition mem_ok :: "MemTable \<Rightarrow> bool" where
  "mem_ok m \<longleftrightarrow> mt_ids m = ev_event_id ` set (mt_events m)"

definition cache_ok :: "Database \<Rightarrow> Event list list \<Rightarrow> bool" where
  "cache_ok db evss \<longleftrightarrow>
     (\<forall>(s, evs) \<in> set (zip (mf_segments (db_manifest db)) evss).
        db_segment_ids db (sm_segment_id s) \<in> {None, Some (IdSet_from_iter (map ev_event_id evs))})"

text \<open>The segments of a handle, their files and the events in them.\<close>

definition segs_hold :: "Env \<Rightarrow> blob_reader \<Rightarrow> seg_dir \<Rightarrow> SegmentMeta list \<Rightarrow> Event list list \<Rightarrow> bool" where
  "segs_hold env rd d segs evss \<longleftrightarrow>
     list_all2 (seg_holds env rd d) segs evss \<and> distinct (map sm_segment_id segs)"

lemma segs_hold_pair:
  "segs_hold env rd d segs evss \<Longrightarrow> (s, evs) \<in> set (zip segs evss) \<Longrightarrow> seg_holds env rd d s evs"
  by (auto simp: segs_hold_def list_all2_iff)

lemma seg_holds_covers:
  assumes "seg_holds env rd d s evs" and "ev \<in> set evs"
  shows "sm_min_event_id s \<le> ev_event_id ev" "ev_event_id ev \<le> sm_max_event_id s"
    "sm_min_source_seq s \<le> ev_source_seq ev" "ev_source_seq ev \<le> sm_max_source_seq s"
proof -
  obtain n sha where m: "s = segment_meta (sm_segment_id s) (sm_file s) n sha evs"
    using assms(1) unfolding seg_holds_def by blast
  show "sm_min_event_id s \<le> ev_event_id ev" "ev_event_id ev \<le> sm_max_event_id s"
    "sm_min_source_seq s \<le> ev_source_seq ev" "ev_source_seq ev \<le> sm_max_source_seq s"
    using segment_meta_covers(5-8) [OF assms(2) m] by blast+
qed

lemma segs_hold_inj:
  assumes "segs_hold env rd d segs evss" and "(s, evs) \<in> set (zip segs evss)" "(t, fvs) \<in> set (zip segs evss)"
    and "sm_segment_id s = sm_segment_id t"
  shows "evs = fvs"
proof -
  have len: "length segs = length evss" and dist: "distinct (map sm_segment_id segs)"
    using assms(1) by (auto simp: segs_hold_def list_all2_iff)
  obtain i j where ij: "i < length segs" "s = segs ! i" "evs = evss ! i" "j < length segs" "t = segs ! j" "fvs = evss ! j"
    using assms(2,3) len by (auto simp: set_zip)
  then have "i = j"
    using assms(4) dist nth_eq_iff_index_eq [of "map sm_segment_id segs" i j] by simp
  then show ?thesis
    using ij by simp
qed

lemma segs_hold_length: "segs_hold env rd d segs evss \<Longrightarrow> length segs = length evss"
  by (auto simp: segs_hold_def dest: list_all2_lengthD)

lemma load_ids_ok:
  assumes "env_ok env rd" and "segs_hold env rd d (mf_segments (db_manifest db)) evss" and "cache_ok db evss"
    and "(s, evs) \<in> set (zip (mf_segments (db_manifest db)) evss)"
    and "load_ids flt d (sm_segment_id s) (sm_file s) db = (res, db')"
  shows "cache_ok db' evss"
    and "res = Ok (IdSet_from_iter (map ev_event_id evs)) \<or> flt (sm_file s) \<and> (\<exists>e. res = Err e)"
proof -
  let ?ids = "IdSet_from_iter (map ev_event_id evs)"
  have bad: "read_segment_event_ids flt d (sm_file s) = Err (Io OtherIo)" if "flt (sm_file s)"
    using that by (simp add: read_segment_event_ids_def open_reader_def)
  have good: "read_segment_event_ids flt d (sm_file s) = Ok (map ev_event_id evs)" if "\<not> flt (sm_file s)"
    using that seg_holds_read(2) [OF assms(1) segs_hold_pair [OF assms(2,4)]]
    by (simp add: read_segment_event_ids_def open_reader_def)
  have lost: "\<not> segment_is_lost db (Io OtherIo)"
    by (simp add: segment_is_lost_def)
  have entry: "db_segment_ids db (sm_segment_id t) \<in> {None, Some (IdSet_from_iter (map ev_event_id fvs))}"
    if "(t, fvs) \<in> set (zip (mf_segments (db_manifest db)) evss)" for t fvs
    using assms(3) that by (auto simp: cache_ok_def)
  have cached: "cache_ok (db\<lparr>db_id_set_loads := n, db_segment_ids := (db_segment_ids db)(sm_segment_id s \<mapsto> ?ids)\<rparr>) evss" for n
  proof -
    have "fvs = evs" if "(t, fvs) \<in> set (zip (mf_segments (db_manifest db)) evss)" "sm_segment_id t = sm_segment_id s"
      for t fvs
      using segs_hold_inj [OF assms(2) that(1) assms(4) that(2)] .
    with entry show ?thesis
      by (auto simp: cache_ok_def) blast
  qed
  have "cache_ok db' evss \<and> (res = Ok ?ids \<or> flt (sm_file s) \<and> (\<exists>e. res = Err e))"
  proof (cases "db_segment_ids db (sm_segment_id s) = None")
    case True
    have miss: "cache_ok (db\<lparr>db_id_set_loads := n\<rparr>) evss" for n
      using assms(3) by (simp add: cache_ok_def)
    show ?thesis
    proof (cases "flt (sm_file s)")
      case flt: True
      have "(res, db') = (Err (Io OtherIo), db\<lparr>db_id_set_loads := db_id_set_loads db + 1\<rparr>)"
        unfolding assms(5) [symmetric] load_ids_def by (simp add: True bad [OF flt] lost)
      then show ?thesis
        using miss flt by simp
    next
      case False
      have "(res, db') = (Ok ?ids, db\<lparr>db_id_set_loads := db_id_set_loads db + 1,
          db_segment_ids := (db_segment_ids db)(sm_segment_id s \<mapsto> ?ids)\<rparr>)"
        unfolding assms(5) [symmetric] load_ids_def by (simp add: True good [OF False])
      then show ?thesis
        using cached by simp
    qed
  next
    case False
    then have "db_segment_ids db (sm_segment_id s) = Some ?ids"
      using entry [OF assms(4)] by auto
    then show ?thesis
      using assms(3,5) by (simp add: load_ids_def)
  qed
  then show "cache_ok db' evss" "res = Ok ?ids \<or> flt (sm_file s) \<and> (\<exists>e. res = Err e)"
    by blast+
qed

lemma map_filter_zip_left:
  "length xs = length ys \<Longrightarrow> map (\<lambda>(x, y). g x) (filter (\<lambda>(x, y). P x) (zip xs ys)) = map g (filter P xs)"
  by (induction xs ys rule: list_induct2) auto

lemma known_loop_ok:
  assumes "env_ok env rd" and "segs_hold env rd d (mf_segments (db_manifest db)) evss" and "cache_ok db evss"
    and "set ps \<subseteq> set (zip (mf_segments (db_manifest db)) evss)"
    and "known_loop flt d eid (map (\<lambda>(s, evs). (sm_segment_id s, sm_file s)) ps) db = (res, db')"
  shows "cache_ok db' evss \<and>
    (res = Ok (\<exists>(s, evs) \<in> set ps. eid \<in> ev_event_id ` set evs) \<or>
     (\<exists>s \<in> set (mf_segments (db_manifest db)). flt (sm_file s)) \<and> (\<exists>e. res = Err e))"
  using assms(2-5)
proof (induction ps arbitrary: db)
  case (Cons p ps)
  obtain s evs where p: "p = (s, evs)"
    by (cases p)
  obtain r db1 where one: "load_ids flt d (sm_segment_id s) (sm_file s) db = (r, db1)"
    by (cases "load_ids flt d (sm_segment_id s) (sm_file s) db")
  have mem: "(s, evs) \<in> set (zip (mf_segments (db_manifest db)) evss)"
    using Cons.prems(3) by (simp add: p)
  note l = load_ids_ok [OF assms(1) Cons.prems(1,2) mem one]
  have s: "s \<in> set (mf_segments (db_manifest db))"
    using mem by (rule set_zip_leftD)
  have m: "db_manifest db1 = db_manifest db"
    using load_ids_core [OF one] by (simp add: same_core_def)
  from l(2) consider (ok) "r = Ok (IdSet_from_iter (map ev_event_id evs))" | (err) e where "flt (sm_file s)" "r = Err e"
    by blast
  then show ?case
  proof cases
    case ok
    show ?thesis
    proof (cases "eid \<in> ev_event_id ` set evs")
      case True
      then show ?thesis
        using one ok l(1) Cons.prems(4) by (auto simp: p)
    next
      case False
      then show ?thesis
        using Cons.IH [of db1] one ok l(1) Cons.prems m by (auto simp: p)
    qed
  next
    case err
    then show ?thesis
      using one l(1) Cons.prems(4) s by (auto simp: p)
  qed
qed simp

text \<open>
  Pruning by the ranges of the metadata loses no segment that holds the event; a read fault is an
  error, never a wrong answer.
\<close>

lemma is_known_at_ok:
  assumes "env_ok env rd" and "segs_hold env rd d (mf_segments (db_manifest db)) evss" and "cache_ok db evss"
    and "mem_ok (db_memtable db)" and "is_known_at flt d eid seq db = (res, db')"
  shows "cache_ok db' evss \<and> same_core db db' \<and>
    (res = Ok (eid \<in> ev_event_id ` set (mt_events (db_memtable db)) \<or>
         (\<exists>(s, evs) \<in> set (zip (mf_segments (db_manifest db)) evss).
            is_none_or seq (\<lambda>q. sm_min_source_seq s \<le> q \<and> q \<le> sm_max_source_seq s) \<and>
            eid \<in> ev_event_id ` set evs)) \<or>
     (\<exists>s \<in> set (mf_segments (db_manifest db)). flt (sm_file s)) \<and> (\<exists>e. res = Err e))"
proof (cases "eid \<in> ev_event_id ` set (mt_events (db_memtable db))")
  case True
  then show ?thesis
    using assms(3-5) by (simp add: is_known_at_def MemTable_contains_def mem_ok_def)
next
  case False
  let ?segs = "mf_segments (db_manifest db)"
  let ?in = "\<lambda>s. is_none_or seq (\<lambda>q. sm_min_source_seq s \<le> q \<and> q \<le> sm_max_source_seq s)"
  let ?P = "\<lambda>s. (sm_min_event_id s \<le> eid \<and> eid \<le> sm_max_event_id s) \<and> ?in s"
  define ps where "ps = filter (\<lambda>(s, evs). ?P s) (zip ?segs evss)"
  have cands: "map (\<lambda>s. (sm_segment_id s, sm_file s))
      (filter ?in (filter (\<lambda>s. sm_min_event_id s \<le> eid \<and> eid \<le> sm_max_event_id s) ?segs)) =
      map (\<lambda>(s, evs). (sm_segment_id s, sm_file s)) ps"
    unfolding ps_def filter_filter map_filter_zip_left [OF segs_hold_length [OF assms(2)]] ..
  have range: "sm_min_event_id s \<le> eid \<and> eid \<le> sm_max_event_id s"
    if "(s, evs) \<in> set (zip ?segs evss)" "eid \<in> ev_event_id ` set evs" for s evs
    using that(2) seg_holds_covers(1,2) [OF segs_hold_pair [OF assms(2) that(1)]] by auto
  have eq: "(\<exists>(s, evs) \<in> set ps. eid \<in> ev_event_id ` set evs) \<longleftrightarrow>
      (\<exists>(s, evs) \<in> set (zip ?segs evss). ?in s \<and> eid \<in> ev_event_id ` set evs)"
  proof (intro iffI; elim bexE; clarify)
    fix s evs ev
    assume "(s, evs) \<in> set ps" "ev \<in> set evs" "eid = ev_event_id ev"
    then show "\<exists>(s, evs) \<in> set (zip ?segs evss). ?in s \<and> ev_event_id ev \<in> ev_event_id ` set evs"
      by (intro bexI [of _ "(s, evs)"]) (auto simp: ps_def)
  next
    fix s evs ev
    assume "(s, evs) \<in> set (zip ?segs evss)" "?in s" "ev \<in> set evs" "eid = ev_event_id ev"
    then show "\<exists>(s, evs) \<in> set ps. ev_event_id ev \<in> ev_event_id ` set evs"
      using range [of s evs] by (intro bexI [of _ "(s, evs)"]) (auto simp: ps_def)
  qed
  have sub: "set ps \<subseteq> set (zip ?segs evss)"
    by (auto simp: ps_def)
  have loop: "known_loop flt d eid (map (\<lambda>(s, evs). (sm_segment_id s, sm_file s)) ps) db = (res, db')"
    using assms(4,5) False unfolding is_known_at_def cands by (simp add: MemTable_contains_def mem_ok_def)
  show ?thesis
    using known_loop_ok [OF assms(1-3) sub loop] known_loop_core [OF loop] by (simp only: eq False simp_thms)
qed

lemma zip_concat_ids:
  assumes "segs_hold env rd d segs evss"
  shows "(\<exists>(s, evs) \<in> set (zip segs evss). eid \<in> ev_event_id ` set evs) \<longleftrightarrow> eid \<in> ev_event_id ` set (concat evss)"
  using segs_hold_length [OF assms] by (induction segs evss rule: list_induct2) auto

lemma is_known_ok:
  assumes "env_ok env rd" and "segs_hold env rd d (mf_segments (db_manifest db)) evss" and "cache_ok db evss"
    and "mem_ok (db_memtable db)" and "is_known flt d eid db = (res, db')"
  shows "cache_ok db' evss \<and> same_core db db' \<and>
    (res = Ok (eid \<in> ev_event_id ` set (concat evss @ mt_events (db_memtable db))) \<or>
     (\<exists>s \<in> set (mf_segments (db_manifest db)). flt (sm_file s)) \<and> (\<exists>e. res = Err e))"
  using is_known_at_ok [OF assms(1-4), of flt eid None res db'] assms(5) zip_concat_ids [OF assms(2), of eid]
  by (simp add: is_known_def is_none_or_def image_Un disj_commute)

section \<open>The batch\<close>

text \<open>
  The state of a handle between two events of a batch: nothing but the clock and the next sequence
  number has moved.
\<close>

definition batch_core :: "Database \<Rightarrow> Database \<Rightarrow> bool" where
  "batch_core a b \<longleftrightarrow>
     db_manifest a = db_manifest b \<and> db_wal a = db_wal b \<and> db_memtable a = db_memtable b \<and> db_opts a = db_opts b"

lemma same_batch_core: "same_core a b \<Longrightarrow> batch_core a b"
  by (simp add: same_core_def batch_core_def)

lemma batch_core_trans: "batch_core a b \<Longrightarrow> batch_core b c \<Longrightarrow> batch_core a c"
  by (simp add: batch_core_def)

lemma batch_core_refl [simp]: "batch_core a a"
  by (simp add: batch_core_def)

text \<open>
  What a batch adds: \<open>news\<close>, one after the other numbered from \<open>seq\<close>, each made from an event handed
  in, none of them seen or known before, with the records that encode them.
\<close>

definition batch_news :: "Env \<Rightarrow> EventId set \<Rightarrow> nat \<Rightarrow> Event list \<Rightarrow> Record list \<Rightarrow> Event list \<Rightarrow> bool" where
  "batch_news env known seq events records news \<longleftrightarrow>
     map ev_source_seq news = [seq..<seq + length news] \<and>
     distinct (map ev_event_id news) \<and> (\<forall>ev \<in> set news. ev_event_id ev \<notin> known) \<and>
     (\<forall>ev \<in> set news. \<exists>ev0 \<in> set events. ingested_from env ev0 ev) \<and>
     collect_records (en_to_vec env) news = Ok records"

lemma batch_news_Nil: "batch_news env known seq events [] []"
  by (simp add: batch_news_def)

lemma batch_news_mono:
  "batch_news env known seq events rs news \<Longrightarrow> known' \<subseteq> known \<Longrightarrow> set events \<subseteq> set events' \<Longrightarrow>
   batch_news env known' seq events' rs news"
  by (fastforce simp: batch_news_def)

lemma batch_news_Cons:
  assumes "batch_news env (insert (ev_event_id ev0) known) (Suc seq) events rs news" and "ingested_from env ev0 ev"
    and "ev_source_seq ev = seq" and "ev_event_id ev = ev_event_id ev0" and "ev_event_id ev0 \<notin> known"
    and "Record_event (encode_event (en_to_vec env)) ev = Ok r"
  shows "batch_news env known seq (ev0 # events) (r # rs) (ev # news)"
proof -
  have "[seq..<seq + length (ev # news)] = seq # [Suc seq..<Suc seq + length news]"
    by (simp add: upt_conv_Cons del: upt_Suc)
  then show ?thesis
    using assms by (fastforce simp: batch_news_def)
qed

text \<open>Every event handed in is accounted for: known before, new, or rejected.\<close>

definition accounted :: "EventId set \<Rightarrow> IngestReport \<Rightarrow> Event list \<Rightarrow> Event list \<Rightarrow> IngestReport \<Rightarrow> bool" where
  "accounted known rep events news rep' \<longleftrightarrow>
     ir_duplicates rep' + ir_rejected rep' + length news = ir_duplicates rep + ir_rejected rep + length events \<and>
     ir_accepted rep' = ir_accepted rep \<and> set (ir_rejected_ids rep) \<subseteq> set (ir_rejected_ids rep') \<and>
     (\<forall>ev \<in> set events. ev_event_id ev \<in> known \<union> ev_event_id ` set news \<union> set (ir_rejected_ids rep'))"

definition loop_ok ::
  "Env \<Rightarrow> EventId set \<Rightarrow> IngestReport \<Rightarrow> Record list \<Rightarrow> Event list \<Rightarrow> Event list \<Rightarrow> nat \<Rightarrow>
   IngestReport \<Rightarrow> Record list \<Rightarrow> Event list \<Rightarrow> nat \<Rightarrow> bool"
where
  "loop_ok env known rep recs batch events seq rep' recs' batch' seq' \<longleftrightarrow>
     (\<exists>rs news. recs' = recs @ rs \<and> batch' = batch @ news \<and> batch_news env known seq events rs news \<and>
        seq' = seq + length news \<and> accounted known rep events news rep')"

lemma loop_ok_known:
  assumes "loop_ok env (insert eid known) (rep\<lparr>ir_duplicates := ir_duplicates rep + 1\<rparr>) recs batch events seq rep' recs' batch' seq'"
    and "eid \<in> known" and "eid = ev_event_id ev"
  shows "loop_ok env known rep recs batch (ev # events) seq rep' recs' batch' seq'"
proof -
  have "insert eid known = known"
    using assms(2) by auto
  then show ?thesis
    using assms batch_news_mono [of env known seq events _ _ known "ev # events"]
    unfolding loop_ok_def accounted_def by fastforce
qed

lemma loop_ok_rejected:
  assumes "loop_ok env (insert eid known)
      (rep\<lparr>ir_redactions := n, ir_rejected := ir_rejected rep + 1, ir_rejected_ids := ir_rejected_ids rep @ [eid]\<rparr>)
      recs batch events seq rep' recs' batch' seq'"
    and "eid = ev_event_id ev"
  shows "loop_ok env known rep recs batch (ev # events) seq rep' recs' batch' seq'"
  using assms batch_news_mono [of env "insert eid known" seq events _ _ known "ev # events"]
  unfolding loop_ok_def accounted_def by fastforce

lemma loop_ok_new:
  assumes "loop_ok env (insert (ev_event_id ev0) known) (rep\<lparr>ir_redactions := n\<rparr>)
      (recs @ [r]) (batch @ [ev]) events (Suc seq) rep' recs' batch' seq'"
    and "ingested_from env ev0 ev" and "ev_source_seq ev = seq" and "ev_event_id ev = ev_event_id ev0"
    and "ev_event_id ev0 \<notin> known" and "Record_event (encode_event (en_to_vec env)) ev = Ok r"
  shows "loop_ok env known rep recs batch (ev0 # events) seq rep' recs' batch' seq'"
proof -
  obtain rs news where l: "recs' = (recs @ [r]) @ rs" "batch' = (batch @ [ev]) @ news"
    "batch_news env (insert (ev_event_id ev0) known) (Suc seq) events rs news" "seq' = Suc seq + length news"
    "accounted (insert (ev_event_id ev0) known) (rep\<lparr>ir_redactions := n\<rparr>) events news rep'"
    using assms(1) unfolding loop_ok_def by blast
  have "accounted known rep (ev0 # events) (ev # news) rep'"
    using l(5) assms(4) by (auto simp: accounted_def)
  then show ?thesis
    using l batch_news_Cons [OF l(3) assms(2-6)] unfolding loop_ok_def
    by (intro exI [of _ "r # rs"] exI [of _ "ev # news"]) simp
qed

lemma ingest_loop_ok:
  assumes "env_ok env rd" and "segs_hold env rd d (mf_segments (db_manifest db)) evss" and "cache_ok db evss"
    and "mem_ok (db_memtable db)"
    and "ingest_loop env flt d now seen rep recs batch events db = (res, db')"
  shows "batch_core db db' \<and> cache_ok db' evss \<and>
    (case res of
       Err _ \<Rightarrow> True
     | Ok (rep', recs', batch') \<Rightarrow>
         loop_ok env (ev_event_id ` set (concat evss @ mt_events (db_memtable db)) \<union> set seen) rep recs batch events
           (db_next_seq db) rep' recs' batch' (db_next_seq db'))"
  using assms(2-5)
proof (induction events arbitrary: seen rep recs batch db)
  case Nil
  then show ?case
    by (auto simp: loop_ok_def accounted_def intro: batch_news_Nil)
next
  case (Cons ev0 events)
  let ?eid = "ev_event_id ev0"
  let ?known = "ev_event_id ` set (concat evss @ mt_events (db_memtable db))"
  obtain dup db1 where dup: "(if ?eid \<in> set seen then (Ok True, db) else is_known flt d ?eid db) = (dup, db1)"
    by (cases "if ?eid \<in> set seen then (Ok True, db) else is_known flt d ?eid db")
  have dup_ok: "cache_ok db1 evss \<and> same_core db db1 \<and> (dup = Ok (?eid \<in> ?known \<union> set seen) \<or> (\<exists>e. dup = Err e))"
    using is_known_ok [OF assms(1) Cons.prems(1-3), of flt ?eid] dup Cons.prems(2)
    by (cases "?eid \<in> set seen") auto
  have core: "db_manifest db1 = db_manifest db" "db_memtable db1 = db_memtable db" "db_next_seq db1 = db_next_seq db"
    "batch_core db db1"
    using dup_ok by (auto simp: same_core_def batch_core_def)
  note prems1 = Cons.prems(1,3) [folded core(1,2)]
  show ?case
  proof (cases dup)
    case (Inl e)
    then show ?thesis
      using Cons.prems(4) dup core(4) dup_ok by (auto simp: Let_def)
  next
    case (Inr known)
    then have known: "known \<longleftrightarrow> ?eid \<in> ?known \<union> set seen"
      using dup_ok by auto
    show ?thesis
    proof (cases known)
      case True
      have "ingest_loop env flt d now (?eid # seen) (rep\<lparr>ir_duplicates := ir_duplicates rep + 1\<rparr>) recs batch events db1 =
          (res, db')"
        using Cons.prems(4) dup Inr True by simp
      from Cons.IH [OF prems1(1) conjunct1 [OF dup_ok] prems1(2) this]
      show ?thesis
        using batch_core_trans [OF core(4)] True known loop_ok_known [of env ?eid "?known \<union> set seen" _ _ _ _ _ _ _ _ _ ev0]
        by (auto simp: core split: sum.splits)
    next
      case False
      obtain n ev db2 where st: "stamp env now db1 ev0 = (n, ev, db2)"
        by (cases "stamp env now db1 ev0")
      note eff = stamp_effect [OF st]
      have prems2: "segs_hold env rd d (mf_segments (db_manifest db2)) evss" "cache_ok db2 evss" "mem_ok (db_memtable db2)"
        using prems1 dup_ok by (simp_all add: eff(4) cache_ok_def)
      have prems3: "segs_hold env rd d (mf_segments (db_manifest (db2\<lparr>db_next_seq := db_next_seq db2 - 1\<rparr>))) evss"
        "cache_ok (db2\<lparr>db_next_seq := db_next_seq db2 - 1\<rparr>) evss"
        "mem_ok (db_memtable (db2\<lparr>db_next_seq := db_next_seq db2 - 1\<rparr>))"
        using prems2 by (simp_all add: cache_ok_def)
      have core2: "batch_core db db2" "db_memtable db2 = db_memtable db"
        and core3: "batch_core db (db2\<lparr>db_next_seq := db_next_seq db2 - 1\<rparr>)"
        using core by (auto simp: eff(4) batch_core_def)
      show ?thesis
      proof (cases "Record_event (encode_event (en_to_vec env)) ev")
        case rec: (Inr r)
        have "ingest_loop env flt d now (?eid # seen) (rep\<lparr>ir_redactions := ir_redactions rep + n\<rparr>)
            (recs @ [r]) (batch @ [ev]) events db2 = (res, db')"
          using Cons.prems(4) dup Inr False st rec by simp
        from Cons.IH [OF prems2 this] show ?thesis
          using core2 known False eff loop_ok_new [of env ev0 "?known \<union> set seen" _ _ _ r _ ev _ "db_next_seq db"] rec
          by (auto simp: core split: sum.splits intro: batch_core_trans)
      next
        case rec: (Inl e)
        show ?thesis
        proof (cases "\<exists>a b. e = RecordTooLarge a b")
          case True
          let ?db = "db2\<lparr>db_next_seq := db_next_seq db2 - 1\<rparr>"
          have "ingest_loop env flt d now (?eid # seen)
              (rep\<lparr>ir_redactions := ir_redactions rep + n, ir_rejected := ir_rejected rep + 1,
                   ir_rejected_ids := ir_rejected_ids rep @ [?eid]\<rparr>) recs batch events ?db = (res, db')"
            using Cons.prems(4) dup Inr False st rec True by (auto simp: Let_def)
          from Cons.IH [OF prems3 this] show ?thesis
            using core3 eff loop_ok_rejected [of env ?eid "?known \<union> set seen" _ _ _ _ _ _ _ _ _ _ ev0]
            by (auto simp: core split: sum.splits intro: batch_core_trans)
        next
          case False
          then show ?thesis
            using Cons.prems(4) dup Inr \<open>\<not> known\<close> st rec core2 prems2(2) by (cases e) (auto simp: Let_def)
        qed
      qed
    qed
  qed
qed

end
