(* ===== verification/Durability.thy ===== *)
theory Durability
  imports Ingest
begin

text \<open>
  What survives. The invariant \<open>db_inv\<close> relates an open handle to its disk: the newest generation on
  disk, the segments it lists, the log and the memtable together hold every stored event once. It is
  kept by ingesting, flushing and collecting garbage whatever fails on the way, and from any disk that
  satisfies it a reopened handle shows the same events. Sources: \<open>open\<close>, \<open>ingest\<close>, \<open>flush\<close> and
  \<open>collect_garbage\<close> of \<open>attemptdb-storage/src/db.rs\<close>.
\<close>

section \<open>The invariant\<close>

text \<open>The generation a reader of the disk loads.\<close>

definition newest_file :: "Env \<Rightarrow> dir \<Rightarrow> Manifest \<Rightarrow> u8 list \<Rightarrow> bool" where
  "newest_file env d m bs \<longleftrightarrow>
     (mf_generation m, bs) \<in> set (list_generations d) \<and>
     (\<forall>x \<in> set (list_generations d). x = (mf_generation m, bs) \<or> fst x < mf_generation m) \<and>
     (\<forall>exists_seg. (\<forall>s \<in> set (mf_segments m). exists_seg (sm_file s)) \<longrightarrow>
        manifest_load_file (en_crc env) (en_mf_to_vec env) (en_mf_from_slice env) exists_seg bs = Ok m)"

definition newest :: "Env \<Rightarrow> dir \<Rightarrow> Manifest \<Rightarrow> bool" where
  "newest env d m \<longleftrightarrow> gens_upto (mf_generation m) d \<and> (\<exists>bs. newest_file env d m bs)"

text \<open>A manifest whose segments are all there and whose tombstones name none of them.\<close>

text \<open>The files of a manifest: none is a temporary one, each is named by itself alone, no two share a file.\<close>

definition names_ok :: "SegmentMeta list \<Rightarrow> bool" where
  "names_ok segs \<longleftrightarrow>
     (\<forall>s \<in> set segs. \<not> is_temp_name (sm_file s) \<and> base_name (sm_file s) = sm_file s) \<and> distinct (map sm_file segs)"

definition manifest_ok :: "Env \<Rightarrow> blob_reader \<Rightarrow> seg_dir \<Rightarrow> Manifest \<Rightarrow> Event list list \<Rightarrow> bool" where
  "manifest_ok env rd d m evss \<longleftrightarrow>
     segs_hold env rd d (mf_segments m) evss \<and>
     names_ok (mf_segments m) \<and>
     (\<forall>t \<in> set (mf_tombstones m). base_name (ts_file t) \<notin> sm_file ` set (mf_segments m)) \<and>
     (\<forall>ev \<in> set (concat evss). ev_source_seq ev \<le> mf_last_source_seq m) \<and>
     mf_format_version m = MANIFEST_FORMAT_VERSION \<and> mf_generation m < 2 ^ 64"

definition event_ok :: "Env \<Rightarrow> Event \<Rightarrow> bool" where
  "event_ok env ev \<longleftrightarrow> canonical_event ev \<and> (\<exists>r. Record_event (encode_event (en_to_vec env)) ev = Ok r)"

text \<open>
  The events of the handle are \<open>concat evss\<close> in segments and the memtable's; those of the newest
  generation on disk, \<open>md\<close>, are \<open>concat evssd\<close>. The two generations differ only after a flush that
  failed once its manifest was published. Every record of the log is stored by \<open>md\<close> already or is in
  the memtable and numbered past \<open>md\<close>; nothing of the memtable is missing in the log.
\<close>

definition disk_events_ok ::
  "Env \<Rightarrow> dir \<Rightarrow> Manifest \<Rightarrow> Event list \<Rightarrow> Event list \<Rightarrow> Event list \<Rightarrow> bool"
where
  "disk_events_ok env waldir md stored mem durable \<longleftrightarrow>
     distinct (map ev_event_id durable) \<and>
     set stored \<subseteq> set durable \<and> set durable \<subseteq> set stored \<union> set mem \<and>
     (\<forall>ev \<in> set (wal_events (en_crc env) (en_from_slice env) waldir).
        ev \<in> set durable \<or> ev \<in> set mem \<and> mf_last_source_seq md < ev_source_seq ev) \<and>
     set mem \<subseteq> set (wal_events (en_crc env) (en_from_slice env) waldir)"

definition handle_ok :: "Env \<Rightarrow> blob_reader \<Rightarrow> Database \<Rightarrow> seg_dir \<Rightarrow> Event list list \<Rightarrow> bool" where
  "handle_ok env rd db d evss \<longleftrightarrow>
     manifest_ok env rd d (db_manifest db) evss \<and> cache_ok db evss \<and> mem_ok (db_memtable db) \<and>
     distinct (map ev_event_id (concat evss @ mt_events (db_memtable db))) \<and>
     distinct (map ev_source_seq (concat evss @ mt_events (db_memtable db))) \<and>
     (\<forall>ev \<in> set (concat evss @ mt_events (db_memtable db)). ev_source_seq ev < db_next_seq db) \<and>
     (\<forall>ev \<in> set (mt_events (db_memtable db)). event_ok env ev) \<and>
     (\<forall>ev \<in> set (mt_events (db_memtable db)). mf_last_source_seq (db_manifest db) < ev_source_seq ev) \<and>
     mf_last_source_seq (db_manifest db) < db_next_seq db"

definition db_inv ::
  "Env \<Rightarrow> blob_reader \<Rightarrow> Database \<Rightarrow> Disk \<Rightarrow> Event list list \<Rightarrow> Manifest \<Rightarrow> Event list list \<Rightarrow> bool"
where
  "db_inv env rd db disk evss md evssd \<longleftrightarrow>
     dk_identity disk \<noteq> None \<and> \<not> oo_read_only (db_opts db) \<and>
     (\<exists>w. db_wal db = Some w \<and> wal_ok (en_crc env) w (dk_wal disk)) \<and>
     handle_ok env rd db (dk_segments disk) evss \<and>
     manifest_ok env rd (dk_segments disk) md evssd \<and> newest env (dk_manifest disk) md \<and>
     mf_generation (db_manifest db) \<le> mf_generation md \<and> mf_generation md \<le> Suc (mf_generation (db_manifest db)) \<and>
     (\<forall>t \<in> set (mf_tombstones (db_manifest db)). base_name (ts_file t) \<notin> sm_file ` set (mf_segments md)) \<and>
     mf_last_source_seq md < db_next_seq db \<and>
     disk_events_ok env (dk_wal disk) md (concat evss) (mt_events (db_memtable db)) (concat evssd)"

lemma db_invD:
  assumes "db_inv env rd db disk evss md evssd"
  shows "dk_identity disk \<noteq> None" "\<not> oo_read_only (db_opts db)"
    "\<exists>w. db_wal db = Some w \<and> wal_ok (en_crc env) w (dk_wal disk)"
    "handle_ok env rd db (dk_segments disk) evss" "manifest_ok env rd (dk_segments disk) md evssd"
    "newest env (dk_manifest disk) md" "mf_generation (db_manifest db) \<le> mf_generation md"
    "mf_generation md \<le> Suc (mf_generation (db_manifest db))"
    "\<forall>t \<in> set (mf_tombstones (db_manifest db)). base_name (ts_file t) \<notin> sm_file ` set (mf_segments md)"
    "mf_last_source_seq md < db_next_seq db"
    "disk_events_ok env (dk_wal disk) md (concat evss) (mt_events (db_memtable db)) (concat evssd)"
  using assms unfolding db_inv_def by blast+

lemma handle_okD:
  assumes "handle_ok env rd db d evss"
  shows "manifest_ok env rd d (db_manifest db) evss" "cache_ok db evss" "mem_ok (db_memtable db)"
    "distinct (map ev_event_id (concat evss @ mt_events (db_memtable db)))"
    "distinct (map ev_source_seq (concat evss @ mt_events (db_memtable db)))"
    "\<forall>ev \<in> set (concat evss @ mt_events (db_memtable db)). ev_source_seq ev < db_next_seq db"
    "\<forall>ev \<in> set (mt_events (db_memtable db)). event_ok env ev"
    "\<forall>ev \<in> set (mt_events (db_memtable db)). mf_last_source_seq (db_manifest db) < ev_source_seq ev"
    "mf_last_source_seq (db_manifest db) < db_next_seq db"
  using assms unfolding handle_ok_def by blast+

lemma manifest_okD:
  assumes "manifest_ok env rd d m evss"
  shows "segs_hold env rd d (mf_segments m) evss" "\<forall>s \<in> set (mf_segments m). \<not> is_temp_name (sm_file s)"
    "\<forall>t \<in> set (mf_tombstones m). base_name (ts_file t) \<notin> sm_file ` set (mf_segments m)"
    "\<forall>ev \<in> set (concat evss). ev_source_seq ev \<le> mf_last_source_seq m"
    "mf_format_version m = MANIFEST_FORMAT_VERSION" "mf_generation m < 2 ^ 64" "names_ok (mf_segments m)"
  using assms unfolding manifest_ok_def names_ok_def by blast+

text \<open>What the codecs of the environment promise.\<close>

definition codecs_ok :: "Env \<Rightarrow> blob_reader \<Rightarrow> bool" where
  "codecs_ok env rd \<longleftrightarrow>
     env_ok env rd \<and> (\<forall>ev bs. en_to_vec env ev = Inr bs \<longrightarrow> en_from_slice env bs = Inr ev)"

section \<open>Files that stay\<close>

lemma seg_holds_frame:
  "seg_holds env rd d s evs \<Longrightarrow> map_of d' (sm_file s) = map_of d (sm_file s) \<Longrightarrow> seg_holds env rd d' s evs"
  unfolding seg_holds_def by simp

lemma segs_hold_frame:
  assumes "segs_hold env rd d segs evss" and "\<forall>s \<in> set segs. map_of d' (sm_file s) = map_of d (sm_file s)"
  shows "segs_hold env rd d' segs evss"
proof -
  have "seg_holds env rd d' s evs" if "(s, evs) \<in> set (zip segs evss)" for s evs
    using seg_holds_frame [OF segs_hold_pair [OF assms(1) that]] assms(2) set_zip_leftD [OF that] by simp
  then show ?thesis
    using assms(1) by (auto simp: segs_hold_def list_all2_iff)
qed

lemma manifest_ok_frame:
  "manifest_ok env rd d m evss \<Longrightarrow> \<forall>s \<in> set (mf_segments m). map_of d' (sm_file s) = map_of d (sm_file s) \<Longrightarrow>
   manifest_ok env rd d' m evss"
  unfolding manifest_ok_def by (auto intro: segs_hold_frame)

lemma manifest_ok_tombstones:
  "manifest_ok env rd d m evss \<Longrightarrow> set ts \<subseteq> set (mf_tombstones m) \<Longrightarrow> manifest_ok env rd d (m\<lparr>mf_tombstones := ts\<rparr>) evss"
  unfolding manifest_ok_def by auto

lemma manifest_ok_exists:
  assumes "manifest_ok env rd d m evss" and "s \<in> set (mf_segments m)"
  shows "sm_file s \<in> fst ` set d"
proof -
  obtain evs where "seg_holds env rd d s evs"
    using assms segs_hold_pair segs_hold_length unfolding manifest_ok_def
    by (metis in_set_impl_in_set_zip1)
  then show ?thesis
    unfolding seg_holds_def using map_of_SomeD [of d "sm_file s"] by force
qed

lemma handle_ok_frame:
  assumes "handle_ok env rd db d evss" and "\<forall>s \<in> set (mf_segments (db_manifest db)). map_of d' (sm_file s) = map_of d (sm_file s)"
  shows "handle_ok env rd db d' evss"
  using assms manifest_ok_frame unfolding handle_ok_def by blast

lemma gc_loop_effect:
  "gc_loop fails current ts d = (n, keep, ws, d') \<Longrightarrow>
   set keep \<subseteq> set ts \<and> (\<forall>name. name \<notin> (\<lambda>t. base_name (ts_file t)) ` set ts \<longrightarrow> map_of d' name = map_of d name)"
proof (induction ts arbitrary: n keep ws d d')
  case (Cons t ts)
  have other: "map_of (filter (\<lambda>e. fst e \<noteq> k) d) name = map_of d name" if "name \<noteq> k" for k name
    using that by (induction d) auto
  show ?case
    using Cons.prems Cons.IH other
    by (auto simp: Let_def split: if_splits prod.splits) blast+
qed simp

section \<open>Temporary names\<close>

lemma split_once_rev_tmp:
  assumes "CHR ''.'' \<notin> set a"
  shows "split_once ''.'' (a @ CHR ''.'' # b) = Some (a, b)"
  using assms by (induction a) auto

lemma is_temp_tmp: "x \<noteq> [] \<Longrightarrow> is_temp_name (x @ ''.tmp'')"
  using split_once_rev_tmp [of "''pmt''" "rev x"] by (simp add: is_temp_name_def rsplit_once_def)

lemma not_temp_arrow: "\<not> is_temp_name (x @ ''.arrow'')"
  using split_once_rev_tmp [of "''worra''" "rev x"] by (simp add: is_temp_name_def rsplit_once_def)

lemma segment_names:
  "\<not> is_temp_name (segment_file_name env sid)" "is_temp_name (segment_file_name env sid @ ''.tmp'')"
  using not_temp_arrow [of "''seg-'' @ se_simple env sid"] is_temp_tmp [of "segment_file_name env sid"]
  by (simp_all add: segment_file_name_def)

lemma temp_no_generation: "is_temp_name name \<Longrightarrow> generation_of name = None"
proof -
  assume "is_temp_name name"
  then obtain stem where "rsplit_once ''.'' name = Some (stem, ''tmp'')"
    by (auto simp: is_temp_name_def split: option.splits)
  then have "split_once ''.'' (rev name) = Some (''pmt'', rev stem)"
    by (auto simp: rsplit_once_def)
  moreover have "split_once ''.'' s = Some (a, b) \<Longrightarrow> s = a @ ''.'' @ b" for s a b :: string
    by (induction s arbitrary: a b) (auto split: if_splits)
  ultimately have "rev name = ''pmt'' @ ''.'' @ rev stem"
    by blast
  then have "name = stem @ ''.tmp''"
    by (metis append.assoc append_Cons append_Nil rev.simps(2) rev_append rev_rev_ident rev_singleton_conv)
  then show ?thesis
    by (simp add: generation_of_tmp)
qed

lemma map_of_filter_fst: "P name \<Longrightarrow> map_of (filter (\<lambda>e. P (fst e)) d) name = map_of d name"
  by (induction d) auto

lemma remove_stale_effect:
  assumes "remove_stale_temp_files disk = (disk', ws)"
  shows "dk_identity disk' = dk_identity disk" "dk_wal disk' = dk_wal disk"
    "list_generations (dk_manifest disk') = list_generations (dk_manifest disk)"
    "set (dk_manifest disk') \<subseteq> set (dk_manifest disk)"
    "\<not> is_temp_name name \<Longrightarrow> map_of (dk_segments disk') name = map_of (dk_segments disk) name"
  using assms list_generations_filter [of "dk_manifest disk" "\<lambda>e. \<not> is_temp_name (fst e)"] temp_no_generation
    map_of_filter_fst [of "\<lambda>n. \<not> is_temp_name n" name "dk_segments disk"]
  by (auto simp: remove_stale_temp_files_def)

section \<open>Replay\<close>

lemma fold_max_const: "\<forall>x \<in> set xs. f x \<le> (a :: nat) \<Longrightarrow> fold (\<lambda>x m. max m (f x)) xs a = a"
  by (induction xs arbitrary: a) (auto simp: max_absorb1)

lemma seg_holds_max:
  assumes "seg_holds env rd d s evs" and "\<forall>ev \<in> set evs. ev_source_seq ev \<le> n"
  shows "sm_max_source_seq s \<le> n"
proof -
  obtain k sha where s: "s = segment_meta (sm_segment_id s) (sm_file s) k sha evs"
    using assms(1) unfolding seg_holds_def by blast
  have "fold (\<lambda>ev m. max m (ev_source_seq ev)) evs a \<le> n" if "a \<le> n" for a
    using assms(2) that by (induction evs arbitrary: a) auto
  moreover have "sm_max_source_seq s = fold (\<lambda>ev m. max m (ev_source_seq ev)) evs 0"
    by (subst s) (simp add: segment_meta_def)
  ultimately show ?thesis
    by simp
qed

text \<open>A manifest accounts for every row of its segments.\<close>

lemma durable_seq_ok:
  assumes "manifest_ok env rd d m evss"
  shows "durable_seq m = mf_last_source_seq m"
proof -
  have "sm_max_source_seq s \<le> mf_last_source_seq m" if s: "s \<in> set (mf_segments m)" for s
  proof -
    obtain evs where evs: "(s, evs) \<in> set (zip (mf_segments m) evss)"
      using s assms segs_hold_length unfolding manifest_ok_def by (metis in_set_impl_in_set_zip1)
    then have "\<forall>ev \<in> set evs. ev_source_seq ev \<le> mf_last_source_seq m"
      using assms set_zip_rightD [OF evs] by (auto simp: manifest_ok_def)
    then show ?thesis
      using seg_holds_max segs_hold_pair [OF _ evs] assms unfolding manifest_ok_def by blast
  qed
  then show ?thesis
    unfolding durable_seq_def by (intro fold_max_const) blast
qed

text \<open>An event stored in a segment is recognised by its id and number.\<close>

lemma stored_is_known:
  assumes "env_ok env rd" and "segs_hold env rd d (mf_segments (db_manifest db)) evss" and "cache_ok db evss"
    and "mem_ok (db_memtable db)" and "ev \<in> set (concat evss)"
  shows "\<exists>db'. is_known_at (\<lambda>_. False) d (ev_event_id ev) (if ev_source_seq ev \<noteq> 0 then Some (ev_source_seq ev) else None) db =
    (Ok True, db') \<and> same_core db db' \<and> cache_ok db' evss"
proof -
  let ?seq = "if ev_source_seq ev \<noteq> 0 then Some (ev_source_seq ev) else None"
  obtain res db' where k: "is_known_at (\<lambda>_. False) d (ev_event_id ev) ?seq db = (res, db')"
    by (cases "is_known_at (\<lambda>_. False) d (ev_event_id ev) ?seq db")
  obtain evs where evs: "evs \<in> set evss" "ev \<in> set evs"
    using assms(5) by auto
  then obtain s where s: "(s, evs) \<in> set (zip (mf_segments (db_manifest db)) evss)"
    using segs_hold_length [OF assms(2)] by (metis in_set_impl_in_set_zip2)
  have "is_none_or ?seq (\<lambda>q. sm_min_source_seq s \<le> q \<and> q \<le> sm_max_source_seq s)"
    using seg_holds_covers(3,4) [OF segs_hold_pair [OF assms(2) s] evs(2)] by (simp add: is_none_or_def)
  then have "\<exists>(s, evs) \<in> set (zip (mf_segments (db_manifest db)) evss).
      is_none_or ?seq (\<lambda>q. sm_min_source_seq s \<le> q \<and> q \<le> sm_max_source_seq s) \<and> ev_event_id ev \<in> ev_event_id ` set evs"
    using s evs(2) by blast
  then show ?thesis
    using is_known_at_ok [OF assms(1-4) k] k by simp
qed

text \<open>
  Replaying the log over the segments: the records numbered past the manifest enter the memtable,
  each id once; the others are stored already.
\<close>

definition replay_core :: "Database \<Rightarrow> Database \<Rightarrow> bool" where
  "replay_core a b \<longleftrightarrow> db_manifest a = db_manifest b \<and> db_opts a = db_opts b \<and> db_wal a = db_wal b \<and> db_next_seq a \<le> db_next_seq b"

lemma replay_core_trans: "replay_core a b \<Longrightarrow> replay_core b c \<Longrightarrow> replay_core a c"
  by (auto simp: replay_core_def)

lemma replay_core_same: "same_core a b \<Longrightarrow> replay_core a b"
  by (simp add: same_core_def replay_core_def)

lemma mem_ok_push: "mem_ok m \<Longrightarrow> mem_ok (MemTable_push ev n m)"
  by (simp add: mem_ok_def MemTable_push_def)

lemma replay_loop_ok:
  assumes "env_ok env rd" and "segs_hold env rd d (mf_segments (db_manifest db)) evss" and "cache_ok db evss"
    and "mem_ok (db_memtable db)" and "distinct (map ev_event_id (mt_events (db_memtable db)))"
    and "\<forall>ev \<in> set W. ev \<in> set (concat evss) \<and> ev_source_seq ev \<le> n \<or> n < ev_source_seq ev \<and> event_ok env ev"
  shows "\<exists>db' news. replay_loop env (\<lambda>_. False) d n W db = (Ok (), db') \<and> replay_core db db' \<and> cache_ok db' evss \<and>
    mem_ok (db_memtable db') \<and> mt_events (db_memtable db') = mt_events (db_memtable db) @ news \<and>
    distinct (map ev_event_id (mt_events (db_memtable db'))) \<and>
    set news \<subseteq> {ev \<in> set W. n < ev_source_seq ev} \<and> (\<forall>ev \<in> set news. ev_source_seq ev < db_next_seq db') \<and>
    (\<forall>ev \<in> set W. n < ev_source_seq ev \<longrightarrow> ev_event_id ev \<in> ev_event_id ` set (mt_events (db_memtable db')))"
  using assms(2-6)
proof (induction W arbitrary: db)
  case Nil
  then show ?case
    by (auto simp: replay_core_def)
next
  case (Cons ev W)
  note W = Cons.prems(5)
  consider (old) "ev \<in> set (concat evss)" "ev_source_seq ev \<le> n"
    | (dup) "n < ev_source_seq ev" "ev_event_id ev \<in> mt_ids (db_memtable db)"
    | (new) "n < ev_source_seq ev" "ev_event_id ev \<notin> mt_ids (db_memtable db)"
    using W by auto
  then show ?case
  proof cases
    case old
    obtain db1 where k: "is_known_at (\<lambda>_. False) d (ev_event_id ev) (if ev_source_seq ev \<noteq> 0 then Some (ev_source_seq ev) else None) db =
        (Ok True, db1)" "same_core db db1" "cache_ok db1 evss"
      using stored_is_known [OF assms(1) Cons.prems(1-3) old(1)] by blast
    have core: "db_manifest db1 = db_manifest db" "db_memtable db1 = db_memtable db" "replay_core db db1"
      using k(2) by (auto simp: same_core_def replay_core_def)
    have step: "replay_loop env (\<lambda>_. False) d n (ev # W) db = replay_loop env (\<lambda>_. False) d n W db1"
      using k(1) old(2) by (auto simp: not_less)
    show ?thesis
      unfolding step
      using Cons.IH [of db1] Cons.prems k(3) core old(2) by (auto intro: replay_core_trans)
  next
    case dup
    then have step: "replay_loop env (\<lambda>_. False) d n (ev # W) db = replay_loop env (\<lambda>_. False) d n W db"
      by (simp add: MemTable_contains_def)
    have "ev_event_id ev \<in> ev_event_id ` set (mt_events (db_memtable db))"
      using dup(2) Cons.prems(3) by (simp add: mem_ok_def)
    then show ?thesis
      unfolding step using Cons.IH [of db] Cons.prems by fastforce
  next
    case new
    obtain r where r: "Record_event (encode_event (en_to_vec env)) ev = Ok r"
      using W new(1) by (auto simp: event_ok_def)
    then obtain bytes where enc: "encode_event (en_to_vec env) ev = Ok bytes"
      by (auto simp: Record_event_def split: sum.splits)
    define db1 where "db1 =
      db\<lparr>db_next_seq := (if db_next_seq db \<le> ev_source_seq ev then ev_source_seq ev + 1 else db_next_seq db),
         db_hlc := (if hlc_last (db_hlc db) < ev_hlc ev then resume_from (ev_hlc ev) else db_hlc db),
         db_memtable := MemTable_push ev (length bytes) (db_memtable db)\<rparr>"
    have step: "replay_loop env (\<lambda>_. False) d n (ev # W) db = replay_loop env (\<lambda>_. False) d n W db1"
      using new enc by (simp add: MemTable_contains_def db1_def)
    have fresh: "ev_event_id ev \<notin> ev_event_id ` set (mt_events (db_memtable db))"
      using new(2) Cons.prems(3) by (simp add: mem_ok_def)
    have m1: "mt_events (db_memtable db1) = mt_events (db_memtable db) @ [ev]" "db_manifest db1 = db_manifest db"
      by (simp_all add: db1_def MemTable_push_def)
    have prems1: "cache_ok db1 evss" "mem_ok (db_memtable db1)" "distinct (map ev_event_id (mt_events (db_memtable db1)))"
      using Cons.prems(2-4) fresh m1 by (auto simp: db1_def cache_ok_def mem_ok_push)
    have core: "replay_core db db1" "ev_source_seq ev < db_next_seq db1"
      by (simp_all add: db1_def replay_core_def)
    obtain db' news where ih: "replay_loop env (\<lambda>_. False) d n W db1 = (Ok (), db')" "replay_core db1 db'" "cache_ok db' evss"
      "mem_ok (db_memtable db')" "mt_events (db_memtable db') = mt_events (db_memtable db1) @ news"
      "distinct (map ev_event_id (mt_events (db_memtable db')))" "set news \<subseteq> {ev \<in> set W. n < ev_source_seq ev}"
      "\<forall>ev \<in> set news. ev_source_seq ev < db_next_seq db'"
      "\<forall>ev \<in> set W. n < ev_source_seq ev \<longrightarrow> ev_event_id ev \<in> ev_event_id ` set (mt_events (db_memtable db'))"
      using Cons.IH [of db1] Cons.prems(1,5) prems1 m1(2) by auto
    have "ev_source_seq ev < db_next_seq db'"
      using core(2) ih(2) by (simp add: replay_core_def)
    then show ?thesis
      unfolding step using ih core(1) m1 new(1)
      by (intro exI [of _ db'] exI [of _ "ev # news"]) (auto intro: replay_core_trans)
  qed
qed

section \<open>Collecting garbage\<close>

lemma handle_ok_manifest:
  assumes "handle_ok env rd db d evss" and "set ts \<subseteq> set (mf_tombstones (db_manifest db))"
  shows "handle_ok env rd (db\<lparr>db_manifest := (db_manifest db)\<lparr>mf_tombstones := ts\<rparr>, db_warnings := ws\<rparr>) d evss"
  using assms manifest_ok_tombstones [of env rd d "db_manifest db" evss ts]
  by (simp add: handle_ok_def cache_ok_def)

text \<open>Collecting garbage deletes no file that the handle or the newest generation on disk lists.\<close>

lemma collect_garbage_inv:
  assumes "db_inv env rd db disk evss md evssd" and "collect_garbage fails db disk = (res, db', disk')"
  shows "(\<exists>n. res = Ok n) \<and> db_inv env rd db' disk' evss md evssd \<and> db_memtable db' = db_memtable db \<and>
    mf_segments (db_manifest db') = mf_segments (db_manifest db) \<and> db_opts db' = db_opts db"
proof -
  note inv = db_invD [OF assms(1)]
  let ?ts = "mf_tombstones (db_manifest db)"
  obtain n keep ws d' where gc:
    "gc_loop fails (mf_generation (db_manifest db)) ?ts (dk_segments disk) = (n, keep, ws, d')"
    by (cases "gc_loop fails (mf_generation (db_manifest db)) ?ts (dk_segments disk)")
  have eq: "res = Ok n" "disk' = disk\<lparr>dk_segments := d'\<rparr>"
    "db' = db\<lparr>db_manifest := (db_manifest db)\<lparr>mf_tombstones := keep\<rparr>, db_warnings := db_warnings db @ ws\<rparr>"
    using assms(2) inv(2) gc by (auto simp: collect_garbage_def require_writer_def)
  have keep: "set keep \<subseteq> set ?ts"
    using gc_loop_effect [OF gc] by blast
  have frame: "map_of d' name = map_of (dk_segments disk) name" if "name \<notin> (\<lambda>t. base_name (ts_file t)) ` set ?ts" for name
    using gc_loop_effect [OF gc] that by blast
  have same: "\<forall>s \<in> set (mf_segments m). map_of d' (sm_file s) = map_of (dk_segments disk) (sm_file s)"
    if "\<forall>t \<in> set ?ts. base_name (ts_file t) \<notin> sm_file ` set (mf_segments m)" for m
  proof
    fix s
    assume "s \<in> set (mf_segments m)"
    then have "sm_file s \<notin> (\<lambda>t. base_name (ts_file t)) ` set ?ts"
      using that by (metis (no_types, lifting) imageE imageI)
    then show "map_of d' (sm_file s) = map_of (dk_segments disk) (sm_file s)"
      by (rule frame)
  qed
  have "handle_ok env rd db' d' evss"
    unfolding eq(3)
    by (rule handle_ok_manifest [OF handle_ok_frame [OF inv(4) same] keep])
      (rule manifest_okD(3) [OF handle_okD(1) [OF inv(4)]])
  moreover have "manifest_ok env rd d' md evssd"
    by (rule manifest_ok_frame [OF inv(5) same [OF inv(9)]])
  ultimately show ?thesis
    using inv keep unfolding db_inv_def by (auto simp: eq)
qed

section \<open>Reopening\<close>

text \<open>
  A disk from which the events \<open>A\<close> are recovered: those of the newest generation and those of the log
  that are numbered past it.
\<close>

definition disk_inv :: "Env \<Rightarrow> blob_reader \<Rightarrow> Disk \<Rightarrow> Manifest \<Rightarrow> Event list list \<Rightarrow> Event set \<Rightarrow> bool" where
  "disk_inv env rd disk md evssd A \<longleftrightarrow>
     dk_identity disk \<noteq> None \<and> wal_dir_ok (dk_wal disk) \<and>
     manifest_ok env rd (dk_segments disk) md evssd \<and> newest env (dk_manifest disk) md \<and>
     distinct (map ev_event_id (concat evssd)) \<and>
     (\<forall>ev \<in> set (wal_events (en_crc env) (en_from_slice env) (dk_wal disk)).
        ev \<in> set (concat evssd) \<or> mf_last_source_seq md < ev_source_seq ev \<and> event_ok env ev) \<and>
     A = set (concat evssd) \<union> set (wal_events (en_crc env) (en_from_slice env) (dk_wal disk)) \<and>
     inj_on ev_event_id A \<and> inj_on ev_source_seq A"

lemma distinct_map_inj: "distinct (map f xs) \<Longrightarrow> inj_on f (set xs)"
  by (simp add: distinct_map)

lemma disk_invD:
  assumes "disk_inv env rd disk md evssd A"
  shows "dk_identity disk \<noteq> None" "wal_dir_ok (dk_wal disk)" "manifest_ok env rd (dk_segments disk) md evssd"
    "newest env (dk_manifest disk) md" "distinct (map ev_event_id (concat evssd))"
    "\<forall>ev \<in> set (wal_events (en_crc env) (en_from_slice env) (dk_wal disk)).
       ev \<in> set (concat evssd) \<or> mf_last_source_seq md < ev_source_seq ev \<and> event_ok env ev"
    "A = set (concat evssd) \<union> set (wal_events (en_crc env) (en_from_slice env) (dk_wal disk))"
    "inj_on ev_event_id A" "inj_on ev_source_seq A"
  using assms unfolding disk_inv_def by blast+

lemma db_inv_disk:
  assumes "db_inv env rd db disk evss md evssd"
  shows "disk_inv env rd disk md evssd (set (concat evss @ mt_events (db_memtable db)))"
proof -
  note inv = db_invD [OF assms]
  note h = handle_okD [OF inv(4)]
  note ev = inv(11) [unfolded disk_events_ok_def]
  have A: "set (concat evss @ mt_events (db_memtable db)) =
      set (concat evssd) \<union> set (wal_events (en_crc env) (en_from_slice env) (dk_wal disk))"
    unfolding set_append using ev by blast
  have W: "\<forall>ev \<in> set (wal_events (en_crc env) (en_from_slice env) (dk_wal disk)).
      ev \<in> set (concat evssd) \<or> mf_last_source_seq md < ev_source_seq ev \<and> event_ok env ev"
    using ev h(7) by blast
  have "wal_dir_ok (dk_wal disk)"
    using inv(3) by (auto simp: wal_ok_def)
  then show ?thesis
    unfolding disk_inv_def
    using inv(1,5,6) W A distinct_map_inj [OF h(4)] distinct_map_inj [OF h(5)] ev by (intro conjI) simp_all
qed

lemma load_newest:
  assumes "newest env (dk_manifest disk) m" and "manifest_ok env rd (dk_segments disk) m evss"
  shows "load_manifest env disk = Ok (Some (m, []))"
proof -
  obtain bs where "newest_file env (dk_manifest disk) m bs"
    using assms(1) unfolding newest_def by blast
  note bs = this [unfolded newest_file_def]
  have "manifest_load_file (en_crc env) (en_mf_to_vec env) (en_mf_from_slice env)
      (\<lambda>name. name \<in> fst ` set (dk_segments disk)) bs = Ok m"
    using bs manifest_ok_exists [OF assms(2)] by simp
  then show ?thesis
    unfolding load_manifest_def
    using load_latest_greatest [OF conjunct1 [OF bs] conjunct1 [OF conjunct2 [OF bs]]] by blast
qed

lemma newest_same_list:
  "newest env d m \<Longrightarrow> list_generations d' = list_generations d \<Longrightarrow> gens_upto (mf_generation m) d' \<Longrightarrow> newest env d' m"
  by (simp add: newest_def newest_file_def)

text \<open>Removing stale temporary files changes nothing that counts.\<close>

lemma remove_stale_inv:
  assumes "disk_inv env rd disk md evssd A" and "remove_stale_temp_files disk = (disk', ws)"
  shows "disk_inv env rd disk' md evssd A"
proof -
  note inv = disk_invD [OF assms(1)]
  note eff = remove_stale_effect [OF assms(2)]
  have "manifest_ok env rd (dk_segments disk') md evssd"
    using manifest_okD(2) [OF inv(3)] eff(5) by (intro manifest_ok_frame [OF inv(3)]) blast
  moreover have "gens_upto (mf_generation md) (dk_manifest disk)"
    using inv(4) by (simp add: newest_def)
  then have "newest env (dk_manifest disk') md"
    using newest_same_list [OF inv(4) eff(3)] gens_upto_subset [OF _ eff(4)] by blast
  ultimately show ?thesis
    using inv eff(1,2) unfolding disk_inv_def by simp
qed

text \<open>The handle after replay.\<close>

lemma replay_opened:
  assumes "env_ok env rd" and "disk_inv env rd disk md evssd A"
  shows "\<exists>db'. replay_loop env (\<lambda>_. False) (dk_segments disk) (durable_seq md)
      (wal_events (en_crc env) (en_from_slice env) (dk_wal disk)) (opened opts md ws) = (Ok (), db') \<and>
    replay_core (opened opts md ws) db' \<and> handle_ok env rd db' (dk_segments disk) evssd \<and>
    set (concat evssd @ mt_events (db_memtable db')) = A \<and>
    disk_events_ok env (dk_wal disk) md (concat evssd) (mt_events (db_memtable db')) (concat evssd)"
proof -
  note inv = disk_invD [OF assms(2)]
  let ?W = "wal_events (en_crc env) (en_from_slice env) (dk_wal disk)"
  let ?n = "mf_last_source_seq md"
  let ?db = "opened opts md ws"
  note mok = inv(3)
  have segs: "segs_hold env rd (dk_segments disk) (mf_segments (db_manifest ?db)) evssd"
    using mok by (simp add: opened_def manifest_ok_def)
  have init: "cache_ok ?db evssd" "mem_ok (db_memtable ?db)" "distinct (map ev_event_id (mt_events (db_memtable ?db)))"
    "mt_events (db_memtable ?db) = []"
    by (auto simp: opened_def cache_ok_def mem_ok_def MemTable_new_def)
  have W: "\<forall>ev \<in> set ?W. ev \<in> set (concat evssd) \<and> ev_source_seq ev \<le> ?n \<or> ?n < ev_source_seq ev \<and> event_ok env ev"
    using inv(6) manifest_okD(4) [OF mok] by blast
  obtain db' news where r: "replay_loop env (\<lambda>_. False) (dk_segments disk) ?n ?W ?db = (Ok (), db')" "replay_core ?db db'"
    "cache_ok db' evssd" "mem_ok (db_memtable db')" "mt_events (db_memtable db') = news"
    "distinct (map ev_event_id news)" "set news \<subseteq> {ev \<in> set ?W. ?n < ev_source_seq ev}"
    "\<forall>ev \<in> set news. ev_source_seq ev < db_next_seq db'"
    "\<forall>ev \<in> set ?W. ?n < ev_source_seq ev \<longrightarrow> ev_event_id ev \<in> ev_event_id ` set news"
    using replay_loop_ok [OF assms(1) segs init(1-3) W] unfolding init(4) by (auto simp only: append_Nil)
  have stored: "\<forall>ev \<in> set (concat evssd). ev_source_seq ev \<le> ?n"
    by (rule manifest_okD(4) [OF mok])
  note A = inv(7-9)
  have news: "set news = {ev \<in> set ?W. ?n < ev_source_seq ev}"
  proof (intro equalityI subsetI)
    fix ev
    assume "ev \<in> {ev \<in> set ?W. ?n < ev_source_seq ev}"
    moreover then obtain ev' where ev': "ev' \<in> set news" "ev_event_id ev' = ev_event_id ev"
      using r(9) by auto
    ultimately have "ev' = ev"
      using r(7) A by (intro inj_onD [OF A(2)]) auto
    then show "ev \<in> set news"
      using ev' by simp
  qed (use r(7) in blast)
  have all: "set (concat evssd @ news) = A"
    using news W stored unfolding A(1) by auto
  have disj: "set (concat evssd) \<inter> set news = {}"
    using news stored by (auto simp: not_less [symmetric])
  have ids: "distinct (map ev_event_id (concat evssd @ news))"
  proof -
    have "distinct (concat evssd @ news)"
      using inv(5) r(6) disj by (auto simp: distinct_map)
    then show ?thesis
      using A(2) unfolding distinct_map all by blast
  qed
  then have seqs: "distinct (map ev_source_seq (concat evssd @ news))"
    using A(3) unfolding distinct_map all by blast
  have nxt: "db_manifest db' = md" "?n < db_next_seq db'"
    using r(2) by (auto simp: replay_core_def opened_def)
  have "handle_ok env rd db' (dk_segments disk) evssd"
    unfolding handle_ok_def r(5) nxt(1)
  proof (intro conjI)
    show "\<forall>ev \<in> set (concat evssd @ news). ev_source_seq ev < db_next_seq db'"
      using r(8) stored nxt(2) by fastforce
    show "\<forall>ev \<in> set news. event_ok env ev"
      using news W stored by (auto simp: not_less [symmetric])
    show "\<forall>ev \<in> set news. ?n < ev_source_seq ev"
      using news by simp
    show "?n < db_next_seq db'"
      by (rule nxt(2))
  qed (use mok r(3,4) ids seqs in simp_all)
  moreover have "disk_events_ok env (dk_wal disk) md (concat evssd) news (concat evssd)"
    unfolding disk_events_ok_def using inv(5) news W by (intro conjI) auto
  ultimately show ?thesis
    unfolding durable_seq_ok [OF mok] using r(1,2) all by (intro exI [of _ db']) (simp add: r(5))
qed

text \<open>What an open needs of the operating system: the lock, readable files, a well-formed new header.\<close>

definition open_io_ok :: "Env \<Rightarrow> OpenOptions \<Rightarrow> OpenIo \<Rightarrow> bool" where
  "open_io_ok env opts io \<longleftrightarrow>
     (oo_read_only opts \<or> \<not> oi_locked io) \<and> oi_read_fails io = (\<lambda>_. False) \<and> oi_wal_fails io = (\<lambda>_ _. False) \<and>
     header_ok MAGIC_WAL (oi_fresh io) \<and> (\<exists>ws. note_missing_blob_keys (en_held env) (oi_sample io) = Ok ws)"

text \<open>The handle and the disk before garbage is collected, whatever the warnings so far.\<close>

definition replays_to ::
  "Env \<Rightarrow> blob_reader \<Rightarrow> OpenOptions \<Rightarrow> Disk \<Rightarrow> Manifest \<Rightarrow> Event list list \<Rightarrow> Event set \<Rightarrow> Wal \<Rightarrow> WalRecovery \<Rightarrow> dir \<Rightarrow> bool"
where
  "replays_to env rd opts disk md evssd A w rec waldir \<longleftrightarrow>
    (\<forall>ws. \<exists>db'. replay_loop env (\<lambda>_. False) (dk_segments disk) (durable_seq md) (wr_events rec) (opened opts md ws) = (Ok (), db') \<and>
       db_inv env rd (db'\<lparr>db_wal := Some w\<rparr>) (disk\<lparr>dk_wal := waldir\<rparr>) evssd md evssd \<and>
       set (concat evssd @ mt_events (db_memtable db')) = A \<and> db_opts db' = opts)"

lemma open_replayed:
  assumes "env_ok env rd" and "disk_inv env rd disk md evssd A" and "\<not> oo_read_only opts"
    and "header_ok MAGIC_WAL (oi_fresh io)" and "oi_wal_fails io = (\<lambda>_ _. False)"
  shows "\<exists>w rec waldir. recover_wal env opts io (dk_wal disk) = Ok (Some w, rec, waldir) \<and>
    replays_to env rd opts disk md evssd A w rec waldir"
proof -
  note inv = disk_invD [OF assms(2)]
  obtain w rec waldir where wal: "Wal_open (en_crc env) (\<lambda>_ _. False) (en_from_slice env) (oi_fresh io) (dk_wal disk) = Ok (w, rec, waldir)"
    "wr_events rec = wal_events (en_crc env) (en_from_slice env) (dk_wal disk)"
    "wal_events (en_crc env) (en_from_slice env) waldir = wal_events (en_crc env) (en_from_slice env) (dk_wal disk)"
    "wal_ok (en_crc env) w waldir"
    using Wal_open_effect [OF inv(2) assms(4), of "en_crc env" "en_from_slice env"] by auto
  have "\<exists>db'. replay_loop env (\<lambda>_. False) (dk_segments disk) (durable_seq md) (wr_events rec) (opened opts md ws) = (Ok (), db') \<and>
       db_inv env rd (db'\<lparr>db_wal := Some w\<rparr>) (disk\<lparr>dk_wal := waldir\<rparr>) evssd md evssd \<and>
       set (concat evssd @ mt_events (db_memtable db')) = A \<and> db_opts db' = opts" for ws
  proof -
    obtain db' where r: "replay_loop env (\<lambda>_. False) (dk_segments disk) (durable_seq md) (wr_events rec) (opened opts md ws) = (Ok (), db')"
      "replay_core (opened opts md ws) db'" "handle_ok env rd db' (dk_segments disk) evssd"
      "set (concat evssd @ mt_events (db_memtable db')) = A"
      "disk_events_ok env (dk_wal disk) md (concat evssd) (mt_events (db_memtable db')) (concat evssd)"
      using replay_opened [OF assms(1,2), of opts ws] unfolding wal(2) by blast
    have core: "db_manifest db' = md" "db_opts db' = opts" "mf_last_source_seq md < db_next_seq db'"
      using r(2) by (auto simp: replay_core_def opened_def)
    have h: "handle_ok env rd (db'\<lparr>db_wal := Some w\<rparr>) (dk_segments disk) evssd"
      using r(3) by (simp add: handle_ok_def cache_ok_def)
    have e: "disk_events_ok env waldir md (concat evssd) (mt_events (db_memtable db')) (concat evssd)"
      using r(5) by (simp add: disk_events_ok_def wal(3))
    have "db_inv env rd (db'\<lparr>db_wal := Some w\<rparr>) (disk\<lparr>dk_wal := waldir\<rparr>) evssd md evssd"
      unfolding db_inv_def using h e wal(4) inv(1,3,4) assms(3) core manifest_okD(3) [OF inv(3)] by simp
    then show ?thesis
      using r(1,4) core(2) by blast
  qed
  then have "replays_to env rd opts disk md evssd A w rec waldir"
    by (simp add: replays_to_def)
  then show ?thesis
    using wal(1) assms(3,5) by (auto simp: recover_wal_def)
qed

lemma open_existing_writer:
  assumes "env_ok env rd" and "disk_inv env rd disk md evssd A" and "\<not> oo_read_only opts" and "open_io_ok env opts io"
  shows "\<exists>db' disk'. open_existing env opts io db_id device_id disk = (Ok db', disk') \<and>
    db_inv env rd db' disk' evssd md evssd \<and> set (concat evssd @ mt_events (db_memtable db')) = A \<and> db_opts db' = opts"
proof -
  obtain disk1 ws1 where clean: "remove_stale_temp_files disk = (disk1, ws1)"
    by (cases "remove_stale_temp_files disk")
  have inv1: "disk_inv env rd disk1 md evssd A"
    by (rule remove_stale_inv [OF assms(2) clean])
  have load: "load_manifest env disk1 = Ok (Some (md, []))"
    by (rule load_newest [OF disk_invD(4,3) [OF inv1]])
  obtain ws3 where keys: "note_missing_blob_keys (en_held env) (oi_sample io) = Ok ws3"
    using assms(4) by (auto simp: open_io_ok_def)
  have io: "header_ok MAGIC_WAL (oi_fresh io)" "oi_wal_fails io = (\<lambda>_ _. False)" "oi_read_fails io = (\<lambda>_. False)"
    using assms(4) by (simp_all add: open_io_ok_def)
  obtain w rec waldir where wal: "recover_wal env opts io (dk_wal disk1) = Ok (Some w, rec, waldir)"
    and replay: "replays_to env rd opts disk1 md evssd A w rec waldir"
    using open_replayed [OF assms(1) inv1 assms(3) io(1,2)] by blast
  let ?ws = "ws1 @ [] @ note_unreferenced_segments md (dk_segments disk1) @ ws3 @ recovery_warnings rec"
  obtain db1 where db1: "replay_loop env (\<lambda>_. False) (dk_segments disk1) (durable_seq md) (wr_events rec) (opened opts md ?ws) = (Ok (), db1)"
    "db_inv env rd (db1\<lparr>db_wal := Some w\<rparr>) (disk1\<lparr>dk_wal := waldir\<rparr>) evssd md evssd"
    "set (concat evssd @ mt_events (db_memtable db1)) = A" "db_opts db1 = opts"
    using replay unfolding replays_to_def by blast
  obtain res db2 disk2 where gc: "collect_garbage (oi_gc_fails io) (db1\<lparr>db_wal := Some w\<rparr>) (disk1\<lparr>dk_wal := waldir\<rparr>) = (res, db2, disk2)"
    by (cases "collect_garbage (oi_gc_fails io) (db1\<lparr>db_wal := Some w\<rparr>) (disk1\<lparr>dk_wal := waldir\<rparr>)")
  note g = collect_garbage_inv [OF db1(2) gc]
  then obtain n where n: "res = Ok n"
    by blast
  have "open_existing env opts io db_id device_id disk = (Ok db2, disk2)"
    unfolding open_existing_def using assms(3) clean load keys wal io(3) db1(1) gc n by simp
  then show ?thesis
    using g db1(3,4) by (intro exI [of _ db2] exI [of _ disk2]) simp
qed

lemma db_open_writer:
  assumes "env_ok env rd" and "disk_inv env rd disk md evssd A" and "\<not> oo_read_only opts" and "open_io_ok env opts io"
  shows "\<exists>db' disk'. db_open env opts io disk = (Ok db', disk') \<and>
    db_inv env rd db' disk' evssd md evssd \<and> set (concat evssd @ mt_events (db_memtable db')) = A \<and> db_opts db' = opts"
proof -
  obtain db_id device_id where ident: "dk_identity disk = Some (db_id, device_id)"
    using disk_invD(1) [OF assms(2)] by auto
  have "\<not> oi_locked io"
    using assms(3,4) by (simp add: open_io_ok_def)
  then show ?thesis
    using open_existing_writer [OF assms, of db_id device_id] ident assms(3) by (simp add: db_open_def)
qed

section \<open>Ingesting\<close>

text \<open>An event as it may be handed in: the current schema version and a provider a parser produced.\<close>

definition acceptable :: "Event \<Rightarrow> bool" where
  "acceptable ev \<longleftrightarrow> canonical_event ev \<and> ev_schema_version ev = CANONICAL_SCHEMA_VERSION"

lemma ingested_acceptable: "ingested_from env ev0 ev \<Longrightarrow> acceptable ev0 \<Longrightarrow> acceptable ev"
  by (auto simp: ingested_from_def acceptable_def canonical_event_def)

lemma collect_records_each:
  "collect_records to_vec evs = Ok rs \<Longrightarrow> ev \<in> set evs \<Longrightarrow> \<exists>r. Record_event (encode_event to_vec) ev = Ok r"
  by (induction evs arbitrary: rs) (auto split: sum.splits)

lemma news_ok:
  assumes "codecs_ok env rd" and "batch_news env known seq events rs news" and "\<forall>ev \<in> set events. acceptable ev"
  shows "\<forall>ev \<in> set news. event_ok env ev" "records_of (en_from_slice env) news rs"
proof -
  have acc: "\<forall>ev \<in> set news. acceptable ev"
    using assms(2,3) ingested_acceptable by (auto simp: batch_news_def)
  have rs: "collect_records (en_to_vec env) news = Ok rs"
    using assms(2) by (simp add: batch_news_def)
  show "\<forall>ev \<in> set news. event_ok env ev"
    using acc collect_records_each [OF rs] by (auto simp: event_ok_def acceptable_def)
  have "codec_ok (en_to_vec env) (en_from_slice env) news"
    using acc assms(1) by (auto simp: codec_ok_def acceptable_def codecs_ok_def)
  then show "records_of (en_from_slice env) news rs"
    using collect_records_Ok [OF rs] by (simp add: records_of_def)
qed

lemma mem_fold_push:
  "mt_events (fold (\<lambda>ev. MemTable_push ev n) evs m) = mt_events m @ evs"
  "mem_ok m \<Longrightarrow> mem_ok (fold (\<lambda>ev. MemTable_push ev n) evs m)"
  by (induction evs arbitrary: m) (auto simp: MemTable_push_def mem_ok_def)

text \<open>The invariant looks at few fields of the handle.\<close>

lemma db_inv_cong:
  assumes "db_inv env rd db disk evss md evssd" and "batch_core db db'" and "cache_ok db' evss"
    and "db_next_seq db \<le> db_next_seq db'"
  shows "db_inv env rd db' disk evss md evssd"
proof -
  note inv = db_invD [OF assms(1)]
  note core = assms(2) [unfolded batch_core_def]
  note h = handle_okD [OF inv(4)]
  have "handle_ok env rd db' (dk_segments disk) evss"
    unfolding handle_ok_def using h assms(3,4) core by (auto intro: less_le_trans)
  moreover have "mf_last_source_seq md < db_next_seq db'"
    using inv(10) assms(4) by simp
  ultimately show ?thesis
    unfolding db_inv_def using inv core by simp
qed

lemma distinct_map_append:
  "distinct (map f xs) \<Longrightarrow> distinct (map f ys) \<Longrightarrow> (\<And>x y. x \<in> set xs \<Longrightarrow> y \<in> set ys \<Longrightarrow> f x \<noteq> f y) \<Longrightarrow>
   distinct (map f (xs @ ys))"
  by auto

text \<open>New events beside the stored ones.\<close>

lemma news_distinct:
  assumes "handle_ok env rd db d evss" and "batch_news env known (db_next_seq db) events rs news"
    and "ev_event_id ` set (concat evss @ mt_events (db_memtable db)) \<subseteq> known"
  shows "ev \<in> set news \<Longrightarrow> db_next_seq db \<le> ev_source_seq ev \<and> ev_source_seq ev < db_next_seq db + length news"
    and "distinct (map ev_source_seq ((concat evss @ mt_events (db_memtable db)) @ news))"
    and "distinct (map ev_event_id ((concat evss @ mt_events (db_memtable db)) @ news))"
proof -
  note h = handle_okD [OF assms(1)]
  note n = assms(2) [unfolded batch_news_def]
  have seqs: "ev_source_seq ` set news = {db_next_seq db..<db_next_seq db + length news}"
    using arg_cong [OF conjunct1 [OF n], of set] by simp
  show seq: "db_next_seq db \<le> ev_source_seq ev \<and> ev_source_seq ev < db_next_seq db + length news" if "ev \<in> set news" for ev
    using imageI [OF that, of ev_source_seq] unfolding seqs by simp
  let ?old = "concat evss @ mt_events (db_memtable db)"
  show "distinct (map ev_source_seq (?old @ news))"
  proof (rule distinct_map_append [OF h(5)])
    show "ev_source_seq x \<noteq> ev_source_seq y" if "x \<in> set ?old" "y \<in> set news" for x y
      using h(6) that seq by (metis leD)
  qed (use n in simp)
  show "distinct (map ev_event_id (?old @ news))"
  proof (rule distinct_map_append [OF h(4)])
    show "ev_event_id x \<noteq> ev_event_id y" if "x \<in> set ?old" "y \<in> set news" for x y
      using n assms(3) that by (metis imageI subsetD)
  qed (use n in simp)
qed

text \<open>Appending a batch to the log and the memtable.\<close>

lemma ingest_append_inv:
  assumes "codecs_ok env rd" and "db_inv env rd db disk evss md evssd"
    and "batch_news env known (db_next_seq db) events rs news"
    and "ev_event_id ` set (concat evss @ mt_events (db_memtable db)) \<subseteq> known" and "\<forall>ev \<in> set events. acceptable ev"
    and "db_wal db = Some w" and "Wal_append_records (en_crc env) WriteAll w (dk_wal disk) rs = (res, w', waldir)"
    and "db_next_seq db' = db_next_seq db + length news" and "cache_ok db' evss"
    and "db_manifest db' = db_manifest db" "db_opts db' = db_opts db" "db_wal db' = Some w'"
    and "db_memtable db' = fold (\<lambda>ev. MemTable_push ev n) news (db_memtable db)"
  shows "(\<exists>b. res = Ok b) \<and> db_inv env rd db' (disk\<lparr>dk_wal := waldir\<rparr>) evss md evssd"
proof -
  note inv = db_invD [OF assms(2)]
  note h = handle_okD [OF inv(4)]
  note news = news_ok [OF assms(1,3,5)]
  let ?f = "en_from_slice env"
  have wal: "wal_ok (en_crc env) w (dk_wal disk)"
    using inv(3) assms(6) by auto
  obtain b where b: "res = Ok b" "wal_ok (en_crc env) w' waldir"
    "wal_events (en_crc env) ?f waldir = wal_events (en_crc env) ?f (dk_wal disk) @ news"
    using append_effect [OF wal news(2)] assms(7) by auto
  have mem: "mt_events (db_memtable db') = mt_events (db_memtable db) @ news" "mem_ok (db_memtable db')"
    using h(3) assms(13) by (simp_all add: mem_fold_push)
  note d = news_distinct [OF inv(4) assms(3,4)]
  have seq: "db_next_seq db \<le> ev_source_seq ev \<and> ev_source_seq ev < db_next_seq db'" if "ev \<in> set news" for ev
    using d(1) [OF that] by (simp add: assms(8))
  let ?old = "concat evss @ mt_events (db_memtable db)"
  have lt: "\<forall>ev \<in> set (?old @ news). ev_source_seq ev < db_next_seq db'"
  proof
    fix ev
    assume "ev \<in> set (?old @ news)"
    then consider "ev \<in> set ?old" | "ev \<in> set news"
      by auto
    then show "ev_source_seq ev < db_next_seq db'"
      using h(6) seq by cases (auto simp: assms(8) intro: trans_less_add1)
  qed
  have past: "\<forall>ev \<in> set (mt_events (db_memtable db) @ news). mf_last_source_seq (db_manifest db) < ev_source_seq ev"
  proof
    fix ev
    assume "ev \<in> set (mt_events (db_memtable db) @ news)"
    then consider "ev \<in> set (mt_events (db_memtable db))" | "ev \<in> set news"
      by auto
    then show "mf_last_source_seq (db_manifest db) < ev_source_seq ev"
      using h(8,9) seq by cases (auto intro: less_le_trans)
  qed
  have "mf_last_source_seq (db_manifest db) < db_next_seq db'"
    using h(9) by (simp add: assms(8))
  then have "handle_ok env rd db' (dk_segments disk) evss"
    unfolding handle_ok_def mem(1) assms(10) append_assoc [symmetric]
    using h(1,7) assms(9) mem(2) d(2,3) lt past news(1) by (intro conjI) auto
  moreover have "disk_events_ok env waldir md (concat evss) (mt_events (db_memtable db')) (concat evssd)"
  proof -
    have "\<forall>ev \<in> set news. mf_last_source_seq md < ev_source_seq ev"
      using seq inv(10) by (meson less_le_trans)
    then show ?thesis
      using inv(11) unfolding disk_events_ok_def b(3) mem(1) set_append by blast
  qed
  ultimately show ?thesis
    unfolding db_inv_def using inv b assms(8,10-12) by simp
qed

section \<open>Flushing\<close>

text \<open>What a flush needs: a new segment name, a well-formed header, numbers that do not overflow.\<close>

definition flush_io_ok :: "Env \<Rightarrow> Database \<Rightarrow> Disk \<Rightarrow> FlushIo \<Rightarrow> bool" where
  "flush_io_ok env db disk io \<longleftrightarrow>
     header_ok MAGIC_WAL (fi_fresh io) \<and> (\<forall>w. db_wal db = Some w \<longrightarrow> wal_active_number w + 1 < 2 ^ 64) \<and>
     Suc (mf_generation (db_manifest db)) < 2 ^ 64 \<and>
     segment_file_name (en_seg env) (fi_segment_id io) \<notin> fst ` set (dk_segments disk) \<and>
     fi_segment_id io \<notin> sm_segment_id ` set (mf_segments (db_manifest db)) \<and>
     segment_file_name (en_seg env) (fi_segment_id io) \<notin>
       (\<lambda>t. base_name (ts_file t)) ` set (mf_tombstones (db_manifest db))"

text \<open>The parts of the invariant a step replaces one by one.\<close>

lemma db_inv_segments:
  assumes "db_inv env rd db disk evss md evssd"
    and "\<And>name. name \<in> fst ` set (dk_segments disk) \<Longrightarrow> \<not> is_temp_name name \<Longrightarrow> map_of segs name = map_of (dk_segments disk) name"
  shows "db_inv env rd db (disk\<lparr>dk_segments := segs\<rparr>) evss md evssd"
proof -
  note inv = db_invD [OF assms(1)]
  have same: "\<forall>s \<in> set (mf_segments m). map_of segs (sm_file s) = map_of (dk_segments disk) (sm_file s)"
    if "manifest_ok env rd (dk_segments disk) m es" for m es
    using assms(2) manifest_ok_exists [OF that] manifest_okD(2) [OF that] by blast
  have "handle_ok env rd db segs evss"
    by (rule handle_ok_frame [OF inv(4) same [OF handle_okD(1) [OF inv(4)]]])
  moreover have "manifest_ok env rd segs md evssd"
    by (rule manifest_ok_frame [OF inv(5) same [OF inv(5)]])
  ultimately show ?thesis
    unfolding db_inv_def using inv by simp
qed

lemma db_inv_wal:
  assumes "db_inv env rd db disk evss md evssd" and "wal_ok (en_crc env) w waldir"
    and "set (wal_events (en_crc env) (en_from_slice env) waldir) =
      set (wal_events (en_crc env) (en_from_slice env) (dk_wal disk))"
  shows "db_inv env rd (db\<lparr>db_wal := Some w\<rparr>) (disk\<lparr>dk_wal := waldir\<rparr>) evss md evssd"
proof -
  note inv = db_invD [OF assms(1)]
  have "handle_ok env rd (db\<lparr>db_wal := Some w\<rparr>) (dk_segments disk) evss"
    using inv(4) by (simp add: handle_ok_def cache_ok_def)
  moreover have "disk_events_ok env waldir md (concat evss) (mt_events (db_memtable db)) (concat evssd)"
    using inv(11) unfolding disk_events_ok_def assms(3) .
  ultimately show ?thesis
    unfolding db_inv_def using inv assms(2) by simp
qed

lemma db_inv_manifest_dir:
  assumes "db_inv env rd db disk evss md evssd" and "newest env mfdir md"
  shows "db_inv env rd db (disk\<lparr>dk_manifest := mfdir\<rparr>) evss md evssd"
  using db_invD [OF assms(1)] assms(2) unfolding db_inv_def by simp

text \<open>The segment a flush writes.\<close>

lemma write_segment_with_Ok:
  assumes "env_ok env rd" and "\<forall>ev \<in> set evs. canonical_event ev"
    and "write_segment_with (en_seg env) io sid evs (en_sink env) d = (Ok meta, d')"
  shows "seg_holds env rd d' meta evs" "sm_segment_id meta = sid" "sm_file meta = segment_file_name (en_seg env) sid"
proof -
  let ?name = "segment_file_name (en_seg env) sid"
  have src: "list_all2 (source_row (se_serde (en_seg env)) rd) evs (map RowRef_from_event evs)"
    by (simp add: list_all2_conv_all_nth source_row_def)
  obtain f where f: "file_ok (en_seg env) rd f evs" "evs \<noteq> []" "map_of d' ?name = Some f"
    "meta = segment_meta sid ?name (se_len (en_seg env) f) (se_sha256 (en_seg env) f) evs"
    using write_segment_impl_Ok [OF assms(3) [unfolded write_segment_with_def] src] assms(1,2)
    by (cases "en_sink env") (auto simp: env_ok_def RowRef_from_event_def)
  show m: "sm_segment_id meta = sid" "sm_file meta = ?name"
    by (simp_all add: f(4) segment_meta_def)
  have "\<exists>n sha. meta = segment_meta (sm_segment_id meta) (sm_file meta) n sha evs"
    unfolding m using f(4) by blast
  then show "seg_holds env rd d' meta evs"
    unfolding seg_holds_def using f(1-3) assms(2) by (simp add: m)
qed

lemma write_segment_with_frame:
  assumes "write_segment_with env io sid evs sink d = (res, d')" and "segment_file_name env sid \<notin> fst ` set d"
    and "name \<in> fst ` set d" and "\<not> is_temp_name name"
  shows "map_of d' name = map_of d name"
proof (rule write_segment_impl_frame [OF assms(1) [unfolded write_segment_with_def]])
  show "name \<noteq> segment_file_name env sid"
    using assms(2,3) by metis
  show "name \<noteq> segment_file_name env sid @ ''.tmp''"
    using assms(4) segment_names(2) [of env sid] by metis
qed

text \<open>The manifest a flush writes, over the segment it wrote.\<close>

lemma base_name_plain: "CHR ''/'' \<notin> set f \<Longrightarrow> base_name f = f"
proof -
  assume "CHR ''/'' \<notin> set f"
  then have "split_char (CHR ''/'') f = [f]"
    by (induction f) auto
  then show ?thesis
    by (simp add: base_name_def)
qed

text \<open>A segment under a name the directory does not have.\<close>

lemma fresh_names_ok:
  assumes "env_ok env rd" and "manifest_ok env rd d m evss" and "segment_file_name (en_seg env) sid \<notin> fst ` set d"
    and "sm_file meta = segment_file_name (en_seg env) sid"
  shows "names_ok (mf_segments m @ [meta])"
proof -
  have "CHR ''/'' \<notin> set (segment_file_name (en_seg env) sid)"
    using assms(1) by (simp add: env_ok_def segment_file_name_def)
  then have "base_name (sm_file meta) = sm_file meta"
    by (simp add: assms(4) base_name_plain)
  moreover have "sm_file meta \<notin> sm_file ` set (mf_segments m)"
    using manifest_ok_exists [OF assms(2)] assms(3) unfolding assms(4) by auto
  ultimately show ?thesis
    using manifest_okD(7) [OF assms(2)] segment_names(1) by (auto simp: names_ok_def assms(4))
qed

lemma flush_manifest_ok:
  assumes "manifest_ok env rd d (db_manifest db) evss" and "seg_holds env rd d meta evs"
    and "sm_segment_id meta \<notin> sm_segment_id ` set (mf_segments (db_manifest db))" and "names_ok (mf_segments (db_manifest db) @ [meta])"
    and "sm_file meta \<notin> (\<lambda>t. base_name (ts_file t)) ` set (mf_tombstones (db_manifest db))"
    and "\<forall>ev \<in> set (concat evss @ evs). ev_source_seq ev < db_next_seq db"
    and "Suc (mf_generation (db_manifest db)) < 2 ^ 64"
    and "m\<lparr>mf_checksum := None\<rparr> = (flush_manifest now db w meta)\<lparr>mf_checksum := None\<rparr>"
  shows "manifest_ok env rd d m (evss @ [evs])" "mf_generation m = Suc (mf_generation (db_manifest db))"
    "mf_segments m = mf_segments (db_manifest db) @ [meta]" "mf_tombstones m = mf_tombstones (db_manifest db)"
    "mf_last_source_seq m = db_next_seq db - 1"
proof -
  note old = manifest_okD [OF assms(1)]
  have f: "g m = g (flush_manifest now db w meta)"
    if "\<And>x. g (x\<lparr>mf_checksum := None\<rparr>) = g x" for g :: "Manifest \<Rightarrow> 'b"
    using arg_cong [OF assms(8), of g] that by simp
  have m: "mf_segments m = mf_segments (db_manifest db) @ [meta]" "mf_generation m = Suc (mf_generation (db_manifest db))"
    "mf_tombstones m = mf_tombstones (db_manifest db)" "mf_last_source_seq m = db_next_seq db - 1"
    "mf_format_version m = mf_format_version (db_manifest db)"
    using f [of mf_segments] f [of mf_generation] f [of mf_tombstones] f [of mf_last_source_seq] f [of mf_format_version]
    by (simp_all add: flush_manifest_def)
  show "mf_generation m = Suc (mf_generation (db_manifest db))"
    "mf_segments m = mf_segments (db_manifest db) @ [meta]" "mf_tombstones m = mf_tombstones (db_manifest db)"
    "mf_last_source_seq m = db_next_seq db - 1"
    by (fact m)+
  have "segs_hold env rd d (mf_segments m) (evss @ [evs])"
    using old(1) assms(2,3) by (auto simp: m segs_hold_def list_all2_appendI)
  moreover have "\<forall>t \<in> set (mf_tombstones m). base_name (ts_file t) \<notin> sm_file ` set (mf_segments m)"
    using old(3) assms(5) by (auto simp: m image_iff)
  moreover have "\<forall>ev \<in> set (concat (evss @ [evs])). ev_source_seq ev \<le> mf_last_source_seq m"
  proof
    fix ev
    assume "ev \<in> set (concat (evss @ [evs]))"
    then have "ev_source_seq ev < db_next_seq db"
      using assms(6) by auto
    then show "ev_source_seq ev \<le> mf_last_source_seq m"
      by (simp add: m)
  qed
  ultimately show "manifest_ok env rd d m (evss @ [evs])"
    unfolding manifest_ok_def using old(5) assms(4,7) by (auto simp: m)
qed

text \<open>Publishing that manifest: the handle as it was when an error follows, the new handle otherwise.\<close>

definition flushed :: "Database \<Rightarrow> Manifest \<Rightarrow> SegmentMeta \<Rightarrow> Event list \<Rightarrow> Database" where
  "flushed db m meta evs =
     db\<lparr>db_manifest := m, db_segment_ids := (db_segment_ids db)(sm_segment_id meta \<mapsto> IdSet_from_iter (map ev_event_id evs)),
        db_memtable := snd (MemTable_drain (db_memtable db))\<rparr>"

lemma publish_inv:
  assumes "db_inv env rd db disk evss md evssd" and "evs = sort_key ev_source_seq (mt_events (db_memtable db))"
    and "seg_holds env rd (dk_segments disk) meta evs"
    and "sm_segment_id meta \<notin> sm_segment_id ` set (mf_segments (db_manifest db))" and "names_ok (mf_segments (db_manifest db) @ [meta])"
    and "sm_file meta \<notin> (\<lambda>t. base_name (ts_file t)) ` set (mf_tombstones (db_manifest db))"
    and "Suc (mf_generation (db_manifest db)) < 2 ^ 64"
    and "m\<lparr>mf_checksum := None\<rparr> = (flush_manifest now db w meta)\<lparr>mf_checksum := None\<rparr>"
    and "newest env mfdir m"
  shows "db_inv env rd db (disk\<lparr>dk_manifest := mfdir\<rparr>) evss m (evss @ [evs])"
    and "db_inv env rd (flushed db m meta evs) (disk\<lparr>dk_manifest := mfdir\<rparr>) (evss @ [evs]) m (evss @ [evs])"
proof -
  note inv = db_invD [OF assms(1)]
  note h = handle_okD [OF inv(4)]
  have evs: "set evs = set (mt_events (db_memtable db))" "mset evs = mset (mt_events (db_memtable db))"
    by (simp_all add: assms(2))
  have same: "mset (concat (evss @ [evs])) = mset (concat evss @ mt_events (db_memtable db))"
    by (simp add: evs(2))
  have dist: "distinct (map f (concat (evss @ [evs])))" if "distinct (map f (concat evss @ mt_events (db_memtable db)))"
    for f :: "Event \<Rightarrow> 'b"
    using that mset_eq_imp_distinct_iff [of "map f (concat (evss @ [evs]))"] same by (metis mset_map)
  have seqs: "\<forall>ev \<in> set (concat evss @ evs). ev_source_seq ev < db_next_seq db"
    using h(6) evs(1) by simp
  note m = flush_manifest_ok [OF h(1) assms(3-6) seqs assms(7,8)]
  have last: "mf_last_source_seq m < db_next_seq db"
    using inv(10) by (simp add: m(5))
  have W: "set (wal_events (en_crc env) (en_from_slice env) (dk_wal disk)) \<subseteq> set (concat evss) \<union> set (mt_events (db_memtable db))"
    using inv(11) unfolding disk_events_ok_def by blast
  have new: "set (concat (evss @ [evs])) = set (concat evss) \<union> set (mt_events (db_memtable db))"
    using evs(1) by simp
  have tomb: "\<forall>t \<in> set (mf_tombstones (db_manifest db)). base_name (ts_file t) \<notin> sm_file ` set (mf_segments m)"
    using manifest_okD(3) [OF m(1)] unfolding m(4) .
  have e1: "disk_events_ok env (dk_wal disk) m (concat evss) (mt_events (db_memtable db)) (concat (evss @ [evs]))"
    unfolding disk_events_ok_def new using dist [OF h(4)] W inv(11) [unfolded disk_events_ok_def] by blast
  show "db_inv env rd db (disk\<lparr>dk_manifest := mfdir\<rparr>) evss m (evss @ [evs])"
    unfolding db_inv_def using inv m(1,2) assms(9) tomb last e1 by simp
  have len: "length (mf_segments (db_manifest db)) = length evss"
    using segs_hold_length [OF manifest_okD(1) [OF h(1)]] .
  have "sm_segment_id s \<noteq> sm_segment_id meta" if "(s, es) \<in> set (zip (mf_segments (db_manifest db)) evss)" for s es
    using assms(4) set_zip_leftD [OF that] by (metis imageI)
  then have "cache_ok (flushed db m meta evs) (evss @ [evs])"
    using h(2) len by (auto simp: cache_ok_def flushed_def m(3))
  moreover have "mt_events (db_memtable (flushed db m meta evs)) = []" "mem_ok (db_memtable (flushed db m meta evs))"
    by (simp_all add: flushed_def MemTable_drain_def mem_ok_def)
  moreover have "db_manifest (flushed db m meta evs) = m" "db_next_seq (flushed db m meta evs) = db_next_seq db"
    by (simp_all add: flushed_def)
  ultimately have hok: "handle_ok env rd (flushed db m meta evs) (dk_segments disk) (evss @ [evs])"
    unfolding handle_ok_def using m(1) dist [OF h(4)] dist [OF h(5)] seqs last by simp
  have e2: "disk_events_ok env (dk_wal disk) m (concat (evss @ [evs])) [] (concat (evss @ [evs]))"
    unfolding disk_events_ok_def using dist [OF h(4)] W new by auto
  show "db_inv env rd (flushed db m meta evs) (disk\<lparr>dk_manifest := mfdir\<rparr>) (evss @ [evs]) m (evss @ [evs])"
    unfolding db_inv_def
    using inv(1-3) hok m(1) assms(9) manifest_okD(3) [OF m(1)] last e2 by (simp add: flushed_def MemTable_drain_def)
qed

text \<open>Once the memtable is empty the log may be cut.\<close>

lemma db_inv_truncated:
  assumes "db_inv env rd db disk evss md evssd" and "mt_events (db_memtable db) = []" and "db_wal db = Some w"
    and "truncate_before rmfail sync_ok (wal_active_number w) (dk_wal disk) = (res, waldir)"
  shows "db_inv env rd db (disk\<lparr>dk_wal := waldir\<rparr>) evss md evssd"
proof -
  note inv = db_invD [OF assms(1)]
  have "wal_ok (en_crc env) w (dk_wal disk)"
    using inv(3) assms(3) by auto
  note t = truncate_effect [OF this assms(4), of "en_from_slice env"]
  have "disk_events_ok env waldir md (concat evss) (mt_events (db_memtable db)) (concat evssd)"
    using inv(11) t unfolding disk_events_ok_def assms(2) by auto
  then show ?thesis
    unfolding db_inv_def using inv t assms(3) by simp
qed

text \<open>What a publication leaves on disk, over a directory whose newest generation is the handle's or one more.\<close>

lemma publish_effect:
  assumes "env_ok env rd" and "db_inv env rd db disk evss md evssd" and "Suc (mf_generation (db_manifest db)) < 2 ^ 64"
    and "mf_generation nxt = Suc (mf_generation (db_manifest db))" and "mf_format_version nxt = mf_format_version (db_manifest db)"
    and "Manifest_write (en_crc env) (en_mf_to_vec env) (en_mf_pretty env) io rmfail nxt (dk_manifest disk) = (res, mfdir)"
  shows "(\<exists>e. res = Err e) \<and> newest env mfdir md \<or>
    (\<exists>m. m\<lparr>mf_checksum := None\<rparr> = nxt\<lparr>mf_checksum := None\<rparr> \<and> newest env mfdir m \<and>
       ((\<exists>e. res = Err e) \<or> res = Ok m))"
proof -
  note inv = db_invD [OF assms(2)]
  let ?m = "nxt"
  have g: "mf_generation ?m = Suc (mf_generation (db_manifest db))" "mf_format_version ?m = MANIFEST_FORMAT_VERSION"
    using manifest_okD(5) [OF handle_okD(1) [OF inv(4)]] assms(4,5) by simp_all
  have md: "gens_upto (mf_generation md) (dk_manifest disk)" "mf_generation md < 2 ^ 64"
    using inv(6) manifest_okD(6) [OF inv(5)] by (simp_all add: newest_def)
  have "mf_generation md = mf_generation ?m \<or> Suc (mf_generation md) = mf_generation ?m"
    using inv(7,8) by (auto simp: g)
  then have upto: "gens_upto (mf_generation ?m) (dk_manifest disk)"
    using md gens_upto_Suc [OF md] by metis
  have codec: "\<forall>bs m'. en_mf_pretty env m' = Inr bs \<longrightarrow> en_mf_from_slice env bs = Inr m'"
    using assms(1) by (simp add: env_ok_def)
  have lt: "mf_generation ?m < 2 ^ 64"
    using assms(3) by (simp add: g)
  note eff = write_effect [OF assms(6) codec upto lt g(2)]
  from conjunct2 [OF eff] show ?thesis
  proof
    assume "(\<exists>e. res = Err e) \<and> list_generations mfdir = list_generations (dk_manifest disk) \<and>
      (\<forall>n. gens_upto n (dk_manifest disk) \<longrightarrow> gens_upto n mfdir)"
    then show ?thesis
      using newest_same_list [OF inv(6)] md(1) by blast
  next
    assume "\<exists>m' bs. m'\<lparr>mf_checksum := None\<rparr> = ?m\<lparr>mf_checksum := None\<rparr> \<and> mf_checksum m' \<noteq> None \<and>
       ((\<exists>e. res = Err e) \<or> res = Ok m') \<and> (mf_generation ?m, bs) \<in> set (list_generations mfdir) \<and>
       (\<forall>x \<in> set (list_generations mfdir). x = (mf_generation ?m, bs) \<or> fst x < mf_generation ?m) \<and>
       (\<forall>exists_seg. (\<forall>s \<in> set (mf_segments ?m). exists_seg (sm_file s)) \<longrightarrow>
          manifest_load_file (en_crc env) (en_mf_to_vec env) (en_mf_from_slice env) exists_seg bs = Ok m')"
    then obtain m' bs where m': "m'\<lparr>mf_checksum := None\<rparr> = ?m\<lparr>mf_checksum := None\<rparr>" "(\<exists>e. res = Err e) \<or> res = Ok m'"
      and f: "(mf_generation ?m, bs) \<in> set (list_generations mfdir) \<and>
       (\<forall>x \<in> set (list_generations mfdir). x = (mf_generation ?m, bs) \<or> fst x < mf_generation ?m) \<and>
       (\<forall>exists_seg. (\<forall>s \<in> set (mf_segments ?m). exists_seg (sm_file s)) \<longrightarrow>
          manifest_load_file (en_crc env) (en_mf_to_vec env) (en_mf_from_slice env) exists_seg bs = Ok m')"
      by (elim exE conjE) (rule that; simp)
    have "mf_generation m' = mf_generation ?m" "mf_segments m' = mf_segments ?m"
      using arg_cong [OF m'(1), of mf_generation] arg_cong [OF m'(1), of mf_segments] by simp_all
    then have "newest env mfdir m'"
      using f conjunct1 [OF eff] unfolding newest_def newest_file_def by metis
    then show ?thesis
      using m' by blast
  qed
qed

text \<open>
  A flush keeps the invariant and the stored events, whatever fails: the sync, the segment, the
  rotation, the manifest, the deletion of old log files or of garbage.
\<close>

definition keeps :: "Env \<Rightarrow> blob_reader \<Rightarrow> Database \<Rightarrow> Disk \<Rightarrow> Event set \<Rightarrow> bool" where
  "keeps env rd db disk A \<longleftrightarrow>
     (\<exists>evss md evssd. db_inv env rd db disk evss md evssd \<and> set (concat evss @ mt_events (db_memtable db)) = A)"

lemma keepsI: "db_inv env rd db disk evss md evssd \<Longrightarrow> keeps env rd db disk (set (concat evss @ mt_events (db_memtable db)))"
  unfolding keeps_def by blast

lemma flush_publish_keeps:
  assumes "env_ok env rd" and "db_inv env rd db disk evss md evssd"
    and "evs = sort_key ev_source_seq (mt_events (db_memtable db))" and "seg_holds env rd (dk_segments disk) meta evs"
    and "sm_segment_id meta \<notin> sm_segment_id ` set (mf_segments (db_manifest db))" and "names_ok (mf_segments (db_manifest db) @ [meta])"
    and "sm_file meta \<notin> (\<lambda>t. base_name (ts_file t)) ` set (mf_tombstones (db_manifest db))"
    and "Suc (mf_generation (db_manifest db)) < 2 ^ 64" and "db_wal db = Some w"
    and "flush_publish env io meta evs w db disk = (res, db', disk')"
  shows "keeps env rd db' disk' (set (concat evss @ mt_events (db_memtable db))) \<and> db_opts db' = db_opts db \<and>
    ((\<exists>r. res = Ok r) \<longrightarrow> mt_events (db_memtable db') = [])"
proof -
  let ?A = "set (concat evss @ mt_events (db_memtable db))"
  obtain r mfdir where wr: "Manifest_write (en_crc env) (en_mf_to_vec env) (en_mf_pretty env) (fi_manifest io)
      (fi_prune_fails io) (flush_manifest (fi_now io) db w meta) (dk_manifest disk) = (r, mfdir)"
    by (cases "Manifest_write (en_crc env) (en_mf_to_vec env) (en_mf_pretty env) (fi_manifest io)
      (fi_prune_fails io) (flush_manifest (fi_now io) db w meta) (dk_manifest disk)")
  note fl = assms(10) [unfolded flush_publish_def wr]
  consider (same) e where "r = Err e" "newest env mfdir md"
    | (new) m where "m\<lparr>mf_checksum := None\<rparr> = (flush_manifest (fi_now io) db w meta)\<lparr>mf_checksum := None\<rparr>"
      "newest env mfdir m" "(\<exists>e. r = Err e) \<or> r = Ok m"
    using publish_effect [OF assms(1,2,8) _ _ wr] by (auto simp: flush_manifest_def)
  then show ?thesis
  proof cases
    case same
    then show ?thesis
      using fl keepsI [OF db_inv_manifest_dir [OF assms(2) same(2)]] by auto
  next
    case new
    note pub = publish_inv [OF assms(2-8) new(1,2)]
    let ?db1 = "flushed db m meta evs"
    have db1: "mt_events (db_memtable ?db1) = []" "db_opts ?db1 = db_opts db" "db_wal ?db1 = Some w"
      by (simp_all add: flushed_def MemTable_drain_def assms(9))
    have A: "set (concat (evss @ [evs])) = ?A"
      by (simp add: assms(3))
    show ?thesis
    proof (cases "r = Ok m")
      case False
      then obtain e where "r = Err e"
        using new(3) by blast
      then show ?thesis
        using fl keepsI [OF pub(1)] by auto
    next
      case True
      obtain r3 waldir where tr: "truncate_before (fi_wal_rm_fails io) (fi_wal_sync_ok io) (wal_active_number w) (dk_wal disk) = (r3, waldir)"
        by (cases "truncate_before (fi_wal_rm_fails io) (fi_wal_sync_ok io) (wal_active_number w) (dk_wal disk)")
      let ?disk1 = "disk\<lparr>dk_manifest := mfdir, dk_wal := waldir\<rparr>"
      have inv1: "db_inv env rd ?db1 ?disk1 (evss @ [evs]) m (evss @ [evs])"
        using db_inv_truncated [OF pub(2) db1(1,3), of "fi_wal_rm_fails io" "fi_wal_sync_ok io" r3 waldir] tr by simp
      obtain r4 db2 disk2 where gc: "collect_garbage (fi_gc_fails io) ?db1 ?disk1 = (r4, db2, disk2)"
        by (cases "collect_garbage (fi_gc_fails io) ?db1 ?disk1")
      note g = collect_garbage_inv [OF inv1 gc]
      have "(db' = ?db1 \<and> disk' = ?disk1) \<or> (db' = db2 \<and> disk' = disk2)"
        using fl True tr gc by (auto simp: flushed_def Let_def split: sum.splits)
      then show ?thesis
        using keepsI [OF inv1] keepsI [OF conjunct1 [OF conjunct2 [OF g]]] g db1 A by auto
    qed
  qed
qed

lemma flush_keeps:
  assumes "env_ok env rd" and "db_inv env rd db disk evss md evssd" and "flush_io_ok env db disk io"
    and "flush env io db disk = (res, db', disk')"
  shows "keeps env rd db' disk' (set (concat evss @ mt_events (db_memtable db))) \<and> db_opts db' = db_opts db \<and>
    ((\<exists>r. res = Ok r) \<longrightarrow> mt_events (db_memtable db') = [])"
proof -
  note inv = db_invD [OF assms(2)]
  note io = assms(3) [unfolded flush_io_ok_def]
  let ?A = "set (concat evss @ mt_events (db_memtable db))"
  let ?evs = "sort_key ev_source_seq (mt_events (db_memtable db))"
  obtain w where w: "db_wal db = Some w" "wal_ok (en_crc env) w (dk_wal disk)"
    using inv(3) by blast
  note fl = flush_def [of env io db disk, unfolded assms(4) require_writer_def w(1)] inv(2)
  have unchanged: "keeps env rd db disk ?A"
    by (rule keepsI [OF assms(2)])
  consider (empty) "MemTable_is_empty (db_memtable db)" | (unsynced) "\<not> MemTable_is_empty (db_memtable db)" "\<not> fi_sync_ok io"
    | (go) "\<not> MemTable_is_empty (db_memtable db)" "fi_sync_ok io"
    by blast
  then show ?thesis
  proof cases
    case empty
    then have "(res, db', disk') = (Ok None, db, disk)"
      using fl by simp
    then show ?thesis
      using unchanged empty by (simp add: MemTable_is_empty_def)
  next
    case unsynced
    then have "(res, db', disk') = (Err (Io OtherIo), db, disk)"
      using fl by simp
    then show ?thesis
      using unchanged by simp
  next
    case go
    obtain r1 segs where seg: "write_segment_with (en_seg env) (fi_segment io) (fi_segment_id io) ?evs (en_sink env) (dk_segments disk) = (r1, segs)"
      by (cases "write_segment_with (en_seg env) (fi_segment io) (fi_segment_id io) ?evs (en_sink env) (dk_segments disk)")
    let ?disk1 = "disk\<lparr>dk_segments := segs\<rparr>"
    have inv1: "db_inv env rd db ?disk1 evss md evssd"
      using write_segment_with_frame [OF seg] io by (intro db_inv_segments [OF assms(2)]) blast
    show ?thesis
    proof (cases r1)
      case (Inl e)
      then have "(res, db', disk') = (Err e, db, ?disk1)"
        using fl go seg by simp
      then show ?thesis
        using keepsI [OF inv1] by simp
    next
      case meta: (Inr meta)
      obtain r2 w1 waldir1 where rot: "Wal_rotate (en_crc env) (\<lambda>_ _. False) (fi_rotate io) (fi_fresh io) w (dk_wal disk) = (r2, w1, waldir1)"
        by (cases "Wal_rotate (en_crc env) (\<lambda>_ _. False) (fi_rotate io) (fi_fresh io) w (dk_wal disk)")
      note rot' = rotate_effect [OF w(2) _ _ rot, of "en_from_slice env"]
      let ?db2 = "db\<lparr>db_wal := Some w1\<rparr>" and ?disk2 = "disk\<lparr>dk_segments := segs, dk_wal := waldir1\<rparr>"
      have inv2: "db_inv env rd ?db2 ?disk2 evss md evssd"
        using db_inv_wal [OF inv1, of w1 waldir1] rot' io w(1) by simp
      show ?thesis
      proof (cases r2)
        case (Inl e)
        then have "(res, db', disk') = (Err e, ?db2, ?disk2)"
          using fl go seg meta rot by simp
        then show ?thesis
          using keepsI [OF inv2] by simp
      next
        case ok2: (Inr u)
        have names: "\<forall>ev \<in> set ?evs. canonical_event ev"
          using handle_okD(7) [OF inv(4)] by (simp add: event_ok_def)
        note m = write_segment_with_Ok [OF assms(1) names seg [unfolded meta]]
        have "flush_publish env io meta ?evs w1 ?db2 ?disk2 = (res, db', disk')"
          using fl go seg meta rot ok2 by simp
        from flush_publish_keeps [OF assms(1) inv2 _ _ _ _ _ _ _ this] show ?thesis
          using m io fresh_names_ok [OF assms(1) handle_okD(1) [OF inv(4)] _ m(3)] by simp
      qed
    qed
  qed
qed

section \<open>Ingesting, to the end\<close>

text \<open>The write faults a running writer survives: the whole batch lands, or the part that landed is cut off again.\<close>

fun clean_write :: "write_io \<Rightarrow> bool" where
  "clean_write WriteAll = True"
| "clean_write (WritePart k set_len_ok) = set_len_ok"

text \<open>What a report says of the events handed in, those stored before and those stored now.\<close>

definition report_ok :: "EventId set \<Rightarrow> Event list \<Rightarrow> Event list \<Rightarrow> IngestReport \<Rightarrow> bool" where
  "report_ok known events news rep \<longleftrightarrow>
     ir_accepted rep = length news \<and> ir_accepted rep + ir_duplicates rep + ir_rejected rep = length events \<and>
     (\<forall>ev \<in> set events. ev_event_id ev \<in> known \<union> ev_event_id ` set news \<union> set (ir_rejected_ids rep))"

definition ingested ::
  "Env \<Rightarrow> blob_reader \<Rightarrow> Event list \<Rightarrow> nat \<Rightarrow> Event set \<Rightarrow> (storage_error + IngestReport) \<Rightarrow> Database \<Rightarrow> Disk \<Rightarrow> bool"
where
  "ingested env rd events seq A res db' disk' \<longleftrightarrow>
     (\<exists>rs news. batch_news env (ev_event_id ` A) seq events rs news \<and> keeps env rd db' disk' (A \<union> set news) \<and>
        (\<forall>rep. res = Ok rep \<longrightarrow> report_ok (ev_event_id ` A) events news rep))"

lemma ingested_nothing: "keeps env rd db' disk' A \<Longrightarrow> (\<And>rep. res \<noteq> Ok rep) \<Longrightarrow> ingested env rd events seq A res db' disk'"
  unfolding ingested_def by (intro exI [of _ "[]"]) (simp add: batch_news_Nil)

lemma flush_io_ok_appended:
  assumes "flush_io_ok env db disk fio" and "db_wal db = Some w" and "db_manifest db' = db_manifest db"
    and "db_wal db' = Some w'" and "wal_active_number w' = wal_active_number w"
  shows "flush_io_ok env db' (disk\<lparr>dk_wal := d\<rparr>) fio"
  using assms by (simp add: flush_io_ok_def)

text \<open>The flush at the end of an ingest.\<close>

lemma ingest_flush_keeps:
  assumes "env_ok env rd" and "db_inv env rd db disk evss md evssd" and "flush_io_ok env db disk fio"
    and "(res, db', disk') =
      (if full then (case flush env fio db disk of
                       (Err e, db4, disk4) \<Rightarrow> (Err e, db4, disk4)
                     | (Ok None, db4, disk4) \<Rightarrow> (Ok rep, db4, disk4)
                     | (Ok (Some _), db4, disk4) \<Rightarrow>
                         (Ok (rep\<lparr>ir_flushed_segments := ir_flushed_segments rep + 1\<rparr>), db4, disk4))
       else (Ok rep, db, disk))"
  shows "keeps env rd db' disk' (set (concat evss @ mt_events (db_memtable db))) \<and> db_opts db' = db_opts db \<and>
    (\<forall>r. res = Ok r \<longrightarrow> (\<exists>n. r = rep\<lparr>ir_flushed_segments := n\<rparr>))"
proof (cases full)
  case True
  obtain r db4 disk4 where fl: "flush env fio db disk = (r, db4, disk4)"
    by (cases "flush env fio db disk")
  have "db' = db4 \<and> disk' = disk4 \<and> (\<forall>q. res = Ok q \<longrightarrow> (\<exists>n. q = rep\<lparr>ir_flushed_segments := n\<rparr>))"
  proof (cases r)
    case (Inr m)
    moreover have "\<exists>n. rep = rep\<lparr>ir_flushed_segments := n\<rparr>"
      by (intro exI [of _ "ir_flushed_segments rep"]) simp
    ultimately show ?thesis
      using assms(4) True fl by (cases m) auto
  qed (use assms(4) True fl in auto)
  then show ?thesis
    using flush_keeps [OF assms(1-3) fl] by blast
next
  case False
  moreover have "\<exists>n. rep = rep\<lparr>ir_flushed_segments := n\<rparr>"
    by (intro exI [of _ "ir_flushed_segments rep"]) simp
  ultimately show ?thesis
    using assms(4) keepsI [OF assms(2)] by auto
qed

lemma ingest_keeps:
  assumes "codecs_ok env rd" and "db_inv env rd db disk evss md evssd" and "\<forall>ev \<in> set events. acceptable ev"
    and "clean_write io" and "oo_durability (db_opts db) = Strict \<longrightarrow> sync_ok" and "flush_io_ok env db disk fio"
    and "ingest env flt now io sync_ok fio events db disk = (res, db', disk')"
  shows "ingested env rd events (db_next_seq db) (set (concat evss @ mt_events (db_memtable db))) res db' disk' \<and>
    db_opts db' = db_opts db"
proof -
  note inv = db_invD [OF assms(2)]
  note h = handle_okD [OF inv(4)]
  have eok: "env_ok env rd"
    using assms(1) by (simp add: codecs_ok_def)
  let ?A = "set (concat evss @ mt_events (db_memtable db))"
  obtain w where w: "db_wal db = Some w" "wal_ok (en_crc env) w (dk_wal disk)"
    using inv(3) by blast
  obtain r1 db1 where loop: "ingest_loop env flt (dk_segments disk) now [] IngestReport_default [] [] events db = (r1, db1)"
    by (cases "ingest_loop env flt (dk_segments disk) now [] IngestReport_default [] [] events db")
  note l = ingest_loop_ok [OF eok manifest_okD(1) [OF h(1)] h(2,3) loop]
  note core = conjunct1 [OF l] and cache = conjunct1 [OF conjunct2 [OF l]]
  have core': "db_manifest db1 = db_manifest db" "db_wal db1 = Some w" "db_memtable db1 = db_memtable db" "db_opts db1 = db_opts db"
    using core w(1) by (simp_all add: batch_core_def)
  have rewound: "db_inv env rd (db1\<lparr>db_next_seq := db_next_seq db\<rparr>) disk evss md evssd"
    using core cache by (intro db_inv_cong [OF assms(2)]) (simp_all add: batch_core_def cache_ok_def)
  note ig = ingest_def [of env flt now io sync_ok fio events db disk, unfolded assms(7) require_writer_def loop] inv(2)
  show ?thesis
  proof (cases r1)
    case (Inl e)
    then have "(res, db', disk') = (Err e, db1\<lparr>db_next_seq := db_next_seq db\<rparr>, disk)"
      using ig by simp
    then show ?thesis
      using ingested_nothing [OF keepsI [OF rewound]] core' by simp
  next
    case (Inr t)
    obtain rep rs news where t: "t = (rep, rs, news)"
      by (cases t)
    have lok: "loop_ok env (ev_event_id ` ?A) IngestReport_default [] [] events (db_next_seq db) rep rs news (db_next_seq db1)"
      using l by (simp add: Inr t)
    then have b: "batch_news env (ev_event_id ` ?A) (db_next_seq db) events rs news"
      "db_next_seq db1 = db_next_seq db + length news"
      "accounted (ev_event_id ` ?A) IngestReport_default events news rep"
      by (auto simp: loop_ok_def)
    have acc: "report_ok (ev_event_id ` ?A) events news (rep\<lparr>ir_accepted := length news\<rparr>)"
      using b(3) by (auto simp: report_ok_def accounted_def IngestReport_default_def)
    show ?thesis
    proof (cases "news = []")
      case True
      have "db_inv env rd db1 disk evss md evssd"
        using core cache b(2) True by (intro db_inv_cong [OF assms(2)]) simp_all
      moreover have "(res, db', disk') = (Ok rep, db1, disk)"
        using ig by (simp add: Inr t True)
      moreover have "report_ok (ev_event_id ` ?A) events [] rep"
        using b(3) True by (auto simp: report_ok_def accounted_def IngestReport_default_def)
      ultimately show ?thesis
        using keepsI [of env rd db1 disk evss md evssd] core'(3,4) b(1) True
        unfolding ingested_def by (intro conjI exI [of _ "[]"]) (auto simp: batch_news_Nil)
    next
      case False
      obtain r2 w' waldir where app: "Wal_append_records (en_crc env) io w (dk_wal disk) rs = (r2, w', waldir)"
        by (cases "Wal_append_records (en_crc env) io w (dk_wal disk) rs")
      have hd: "ev_source_seq (hd news) = db_next_seq db"
      proof -
        have "hd (map ev_source_seq news) = hd [db_next_seq db..<db_next_seq db + length news]"
          using b(1) by (simp add: batch_news_def)
        then show ?thesis
          using False by (simp add: hd_map upt_conv_Cons)
      qed
      show ?thesis
      proof (cases io)
        case (WritePart k ok)
        have f: "(\<exists>e. r2 = Err e) \<and> w' = w \<and> wal_ok (en_crc env) w waldir \<and>
            wal_events (en_crc env) (en_from_slice env) waldir = wal_events (en_crc env) (en_from_slice env) (dk_wal disk)"
          using append_failed [OF w(2)] app assms(4) WritePart by auto
        let ?db = "db1\<lparr>db_next_seq := db_next_seq db, db_wal := Some w'\<rparr>"
        have "db_inv env rd ?db (disk\<lparr>dk_wal := waldir\<rparr>) evss md evssd"
          using db_inv_wal [OF rewound, of w waldir] f by simp
        moreover have "\<exists>e. (res, db', disk') = (Err e, ?db, disk\<lparr>dk_wal := waldir\<rparr>)"
          using ig f by (auto simp: Inr t False core' app hd)
        ultimately show ?thesis
          using ingested_nothing [OF keepsI] core'(3,4) by fastforce
      next
        case WriteAll
        obtain n where r2: "r2 = Ok n" "wal_active_number w' = wal_active_number w"
          using append_effect [OF w(2) news_ok(2) [OF assms(1) b(1) assms(3)]] app WriteAll by auto
        let ?db3 = "db1\<lparr>db_wal := Some w', db_memtable := fold (\<lambda>ev. MemTable_push ev (n div max (length news) 1)) news (db_memtable db1)\<rparr>"
        let ?disk2 = "disk\<lparr>dk_wal := waldir\<rparr>"
        have inv3: "db_inv env rd ?db3 ?disk2 evss md evssd"
          using ingest_append_inv [OF assms(1,2) b(1) order_refl assms(3) w(1), of r2 w' waldir ?db3 "n div max (length news) 1"]
            app WriteAll b(2) cache core' by (simp add: cache_ok_def)
        have fio: "flush_io_ok env ?db3 ?disk2 fio"
          using core'(1) r2(2) flush_io_ok_appended [OF assms(6) w(1), of ?db3 w' waldir] by simp
        have synced: "(oo_durability (db_opts db) = Strict \<and> \<not> sync_ok) = False"
          using assms(5) by blast
        let ?rep = "rep\<lparr>ir_bytes := n, ir_accepted := length news\<rparr>"
        have "(res, db', disk') =
          (if oo_flush_events (db_opts db) \<le> MemTable_len (db_memtable ?db3) \<or>
              oo_flush_bytes (db_opts db) \<le> mt_approx_bytes (db_memtable ?db3)
           then (case flush env fio ?db3 ?disk2 of
                   (Err e, db4, disk4) \<Rightarrow> (Err e, db4, disk4)
                 | (Ok None, db4, disk4) \<Rightarrow> (Ok ?rep, db4, disk4)
                 | (Ok (Some _), db4, disk4) \<Rightarrow>
                     (Ok (?rep\<lparr>ir_flushed_segments := ir_flushed_segments ?rep + 1\<rparr>), db4, disk4))
           else (Ok ?rep, ?db3, ?disk2))"
          using ig by (simp add: Inr t False core' app r2 synced Let_def)
        note k = ingest_flush_keeps [OF eok inv3 fio this]
        have A: "set (concat evss @ mt_events (db_memtable ?db3)) = ?A \<union> set news"
          by (simp add: core' mem_fold_push Un_assoc)
        have "report_ok (ev_event_id ` ?A) events news r" if "res = Ok r" for r
          using k acc that by (auto simp: report_ok_def)
        then show ?thesis
          unfolding ingested_def using k [unfolded A] b(1) core'(4) by (intro conjI exI [of _ rs] exI [of _ news]) simp_all
      qed
    qed
  qed
qed

end
