(* ===== verification/Maintain.thy ===== *)
theory Maintain
  imports Durability
begin

text \<open>
  Maintenance of a database (\<open>compact\<close> and \<open>purge_some\<close> of \<open>attemptdb-storage/src/db.rs\<close>): merging a
  run of small segments into one, and rewriting segments without the rows a rule refuses. Both publish
  one manifest generation per step and tombstone the files it replaces. What the operating system does
  is an argument, as for a flush.
\<close>

section \<open>Compaction\<close>

record CompactIo =
  ci_read_fails :: "string \<Rightarrow> bool"
  ci_segment_id :: uuid
  ci_segment :: publish_io
  ci_now :: Timestamp
  ci_manifest :: manifest_io
  ci_prune_fails :: "string \<Rightarrow> bool"
  ci_gc_fails :: "string \<Rightarrow> bool"

record CompactionReport =
  cr_inputs :: "SegmentMeta list"
  cr_output_segment :: SegmentMeta
  cr_input_bytes :: nat
  cr_output_bytes :: nat
  cr_events :: nat
  cr_generation :: nat
  cr_pending_deletions :: nat

definition encryption_active :: "Env \<Rightarrow> bool" where
  "encryption_active env \<longleftrightarrow> en_sink env \<noteq> None"

text \<open>The format version of every segment; it matters only for small ones and without a key.\<close>

fun segment_formats ::
  "(string \<Rightarrow> bool) \<Rightarrow> seg_dir \<Rightarrow> CompactionPolicy \<Rightarrow> bool \<Rightarrow> SegmentMeta list \<Rightarrow> storage_error + u16 list"
where
  "segment_formats flt d policy active [] = Ok []"
| "segment_formats flt d policy active (seg # segs) =
     (let format =
        (if active \<or> cp_small_segment_bytes policy \<le> sm_bytes seg then Ok 0
         else segment_format_version flt d (sm_file seg))
      in case format of
           Err e \<Rightarrow> Err e
         | Ok v \<Rightarrow>
             (case segment_formats flt d policy active segs of Err e \<Rightarrow> Err e | Ok vs \<Rightarrow> Ok (v # vs)))"

definition db_compaction_plan ::
  "Env \<Rightarrow> (string \<Rightarrow> bool) \<Rightarrow> CompactionPolicy \<Rightarrow> Database \<Rightarrow> Disk \<Rightarrow> storage_error + CompactionPlan"
where
  "db_compaction_plan env flt policy db disk =
     (case segment_formats flt (dk_segments disk) policy (encryption_active env) (mf_segments (db_manifest db)) of
        Err e \<Rightarrow> Err e
      | Ok formats \<Rightarrow>
          Ok (compaction_plan (mf_segments (db_manifest db)) formats policy (encryption_active env)))"

text \<open>The rows of the inputs, one after the other; a row count that differs from the manifest is corruption.\<close>

fun read_inputs ::
  "SegEnv \<Rightarrow> (string \<Rightarrow> bool) \<Rightarrow> seg_dir \<Rightarrow> SegmentMeta list \<Rightarrow> storage_error + StoredRow list"
where
  "read_inputs env flt d [] = Ok []"
| "read_inputs env flt d (meta # metas) =
     (case read_segment_rows env flt d (sm_file meta) of
        Err e \<Rightarrow> Err e
      | Ok r \<Rightarrow>
          if length r \<noteq> sm_rows meta then Err (Corrupt ''segment'' ''row count'')
          else (case read_inputs env flt d metas of Err e \<Rightarrow> Err e | Ok rows \<Rightarrow> Ok (r @ rows)))"

fun seg_position :: "uuid \<Rightarrow> SegmentMeta list \<Rightarrow> nat option" where
  "seg_position sid [] = None"
| "seg_position sid (s # segs) = (if sm_segment_id s = sid then Some 0 else map_option Suc (seg_position sid segs))"

definition insert_at :: "nat \<Rightarrow> 'a list \<Rightarrow> 'a list \<Rightarrow> 'a list" where
  "insert_at i ys xs = take i xs @ ys @ drop i xs"

text \<open>The generation a compaction publishes: the output in the place of the first input, the inputs tombstoned.\<close>

definition compact_manifest :: "Timestamp \<Rightarrow> Manifest \<Rightarrow> PlannedRun \<Rightarrow> SegmentMeta \<Rightarrow> Manifest" where
  "compact_manifest now m run meta =
     (let gen = mf_generation m + 1;
          input_ids = map sm_segment_id (pr_inputs run);
          first = (case seg_position (sm_segment_id (hd (pr_inputs run))) (mf_segments m) of
                     Some i \<Rightarrow> i | None \<Rightarrow> pr_first_index run);
          retained = filter (\<lambda>s. sm_segment_id s \<notin> set input_ids) (mf_segments m)
      in m\<lparr>mf_generation := gen, mf_created_at := now,
           mf_segments := insert_at (min first (length retained)) [meta] retained,
           mf_tombstones := mf_tombstones m @
             map (\<lambda>s. \<lparr>ts_file = sm_file s, ts_since_generation = gen\<rparr>) (pr_inputs run)\<rparr>)"

text \<open>Adopting a published generation: the id sets of the inputs go, the output's is known.\<close>

definition forget_ids :: "uuid list \<Rightarrow> (uuid \<rightharpoonup> IdSet) \<Rightarrow> (uuid \<rightharpoonup> IdSet)" where
  "forget_ids ids m = (\<lambda>sid. if sid \<in> set ids then None else m sid)"

definition compact ::
  "Env \<Rightarrow> CompactIo \<Rightarrow> CompactionPolicy \<Rightarrow> Database \<Rightarrow> Disk \<Rightarrow>
   (storage_error + CompactionReport option) \<times> Database \<times> Disk"
where
  "compact env io policy db disk =
     (case require_writer db of
        Err e \<Rightarrow> (Err e, db, disk)
      | Ok _ \<Rightarrow>
      case db_compaction_plan env (ci_read_fails io) policy db disk of
        Err e \<Rightarrow> (Err e, db, disk)
      | Ok plan \<Rightarrow>
      case pl_runs plan of
        [] \<Rightarrow> (Ok None, db, disk)
      | run # _ \<Rightarrow>
      case read_inputs (en_seg env) (ci_read_fails io) (dk_segments disk) (pr_inputs run) of
        Err e \<Rightarrow> (Err e, db, disk)
      | Ok rows0 \<Rightarrow>
      case find (\<lambda>r. CANONICAL_SCHEMA_VERSION < ev_schema_version (st_event r)) rows0 of
        Some r \<Rightarrow>
          (Err (UnsupportedFormat ''event schema'' (ev_schema_version (st_event r)) CANONICAL_SCHEMA_VERSION), db, disk)
      | None \<Rightarrow>
        let rows = sort_key (\<lambda>r. ev_source_seq (st_event r)) rows0 in
        case write_segment_rows (en_seg env) (ci_segment io) (ci_segment_id io) rows (en_sink env) (dk_segments disk) of
          (Err e, segs) \<Rightarrow> (Err e, db, disk\<lparr>dk_segments := segs\<rparr>)
        | (Ok meta, segs) \<Rightarrow>
        case Manifest_write (en_crc env) (en_mf_to_vec env) (en_mf_pretty env) (ci_manifest io) (ci_prune_fails io)
               (compact_manifest (ci_now io) (db_manifest db) run meta) (dk_manifest disk) of
          (Err e, mfdir) \<Rightarrow> (Err e, db, disk\<lparr>dk_segments := segs, dk_manifest := mfdir\<rparr>)
        | (Ok next, mfdir) \<Rightarrow>
            (let db1 = db\<lparr>db_manifest := next,
                          db_segment_ids := (forget_ids (map sm_segment_id (pr_inputs run)) (db_segment_ids db))
                            (sm_segment_id meta \<mapsto> IdSet_from_iter (map (\<lambda>r. ev_event_id (st_event r)) rows))\<rparr>;
                 (r, db2, disk2) =
                   collect_garbage (ci_gc_fails io) db1 (disk\<lparr>dk_segments := segs, dk_manifest := mfdir\<rparr>)
             in case r of
                  Err e \<Rightarrow> (Err e, db2, disk2)
                | Ok _ \<Rightarrow>
                    (Ok (Some \<lparr>cr_inputs = pr_inputs run, cr_output_segment = meta,
                               cr_input_bytes = sum_list (map sm_bytes (pr_inputs run)),
                               cr_output_bytes = sm_bytes meta, cr_events = sm_rows meta,
                               cr_generation = mf_generation (db_manifest db2),
                               cr_pending_deletions = length (mf_tombstones (db_manifest db2))\<rparr>), db2, disk2)))"

section \<open>Reading the inputs\<close>

lemma read_segment_rows_fault:
  "read_segment_rows env flt d name = (if flt name then Err (Io OtherIo) else read_segment_rows env (\<lambda>_. False) d name)"
  by (simp add: read_segment_rows_def read_segment_batches_def open_reader_def)

lemma seg_holds_rows:
  assumes "env_ok env rd" and "seg_holds env rd d s evs" and "read_segment_rows (en_seg env) flt d (sm_file s) = Ok srs"
  shows "list_all2 (source_row (se_serde (en_seg env)) rd) evs srs" "\<forall>ev \<in> set evs. canonical_event ev"
proof -
  obtain f where f: "map_of d (sm_file s) = Some f" "file_ok (en_seg env) rd f evs" "\<forall>ev \<in> set evs. canonical_event ev"
    using assms(2) unfolding seg_holds_def by blast
  have sd: "serde_ok (se_serde (en_seg env))"
    using assms(1) by (simp add: env_ok_def)
  have "read_segment_rows (en_seg env) (\<lambda>_. False) d (sm_file s) = Ok srs"
    using assms(3) by (simp add: read_segment_rows_fault [of "en_seg env" flt] split: if_splits)
  then show "list_all2 (source_row (se_serde (en_seg env)) rd) evs srs"
    using file_ok_read(3) [OF f(2,1) sd f(3)] by (auto simp: source_row_def elim!: list_all2_mono)
  show "\<forall>ev \<in> set evs. canonical_event ev"
    by (rule f(3))
qed

lemma read_inputs_ok:
  assumes "env_ok env rd" and "list_all2 (seg_holds env rd d) metas ess" and "read_inputs (en_seg env) flt d metas = Ok rows"
  shows "list_all2 (source_row (se_serde (en_seg env)) rd) (concat ess) rows \<and> (\<forall>ev \<in> set (concat ess). canonical_event ev)"
  using assms(2,3)
proof (induction arbitrary: rows rule: list_all2_induct)
  case (Cons s metas evs ess)
  then obtain r rs where r: "read_segment_rows (en_seg env) flt d (sm_file s) = Ok r" "read_inputs (en_seg env) flt d metas = Ok rs"
    "rows = r @ rs"
    by (auto split: sum.splits if_splits)
  then show ?case
    using Cons.IH [OF r(2)] seg_holds_rows [OF assms(1) Cons.hyps(1) r(1)] by (auto intro: list_all2_appendI)
qed simp

lemma list_all2_sort:
  assumes "list_all2 P xs ys" and "\<And>x y. P x y \<Longrightarrow> f x = g y"
  shows "list_all2 P (sort_key f xs) (sort_key g ys)"
  using assms(1)
proof (induction rule: list_all2_induct)
  case (Cons x xs y ys)
  have "list_all2 P (insort_key f x as) (insort_key g y bs)" if "list_all2 P as bs" for as bs
    using that
  proof (induction rule: list_all2_induct)
    case (Cons a as b bs)
    then show ?case
      using Cons.hyps \<open>P x y\<close> assms(2) [OF \<open>P x y\<close>] assms(2) [OF Cons.hyps(1)] by simp
  qed (simp add: \<open>P x y\<close>)
  then show ?case
    using Cons by simp
qed simp

lemma sorted_rows:
  assumes "env_ok env rd" and "list_all2 (seg_holds env rd d) metas ess" and "read_inputs (en_seg env) flt d metas = Ok rows"
    and "evs = sort_key ev_source_seq (concat ess)" and "srs = sort_key (\<lambda>r. ev_source_seq (st_event r)) rows"
  shows "list_all2 (source_row (se_serde (en_seg env)) rd) evs srs \<and>
    map (\<lambda>r. ev_event_id (st_event r)) srs = map ev_event_id evs \<and> (\<forall>ev \<in> set evs. canonical_event ev)"
proof -
  let ?P = "\<lambda>ev sr. source_row (se_serde (en_seg env)) rd ev sr \<and> canonical_event ev"
  have sd: "serde_ok (se_serde (en_seg env))"
    using assms(1) by (simp add: env_ok_def)
  have P: "ev_source_seq ev = ev_source_seq (st_event sr) \<and> ev_event_id (st_event sr) = ev_event_id ev" if "?P ev sr" for ev sr
    using that source_row_meta [OF sd, of ev rd sr] by (simp add: same_meta_def)
  have "list_all2 ?P (concat ess) rows"
    using read_inputs_ok [OF assms(1-3)] unfolding list_all2_conv_all_nth by (metis nth_mem)
  then have s: "list_all2 ?P evs srs"
    unfolding assms(4,5) by (rule list_all2_sort) (use P in blast)
  then have "map (\<lambda>r. ev_event_id (st_event r)) srs = map ev_event_id evs"
    by (induction rule: list_all2_induct) (use P in auto)
  then show ?thesis
    using s by (auto simp: list_all2_conv_all_nth in_set_conv_nth)
qed

text \<open>The segment written from stored rows.\<close>

lemma write_segment_rows_Ok:
  assumes "env_ok env rd" and "list_all2 (source_row (se_serde (en_seg env)) rd) evs srs" and "\<forall>ev \<in> set evs. canonical_event ev"
    and "write_segment_rows (en_seg env) io sid srs (en_sink env) d = (Ok meta, d')"
  shows "seg_holds env rd d' meta evs" "sm_segment_id meta = sid" "sm_file meta = segment_file_name (en_seg env) sid"
proof -
  let ?name = "segment_file_name (en_seg env) sid"
  let ?refs = "list_ex (\<lambda>r. st_content_ref r \<noteq> None \<or> st_raw_ref r \<noteq> None) srs"
  let ?layout = "if en_sink env \<noteq> None \<or> ?refs then Refs else Inline"
  have w: "write_segment_impl (en_seg env) io sid srs (en_sink env) ?layout d = (Ok meta, d')"
    using assms(4) by (auto simp: write_segment_rows_def Let_def split: if_splits)
  have lay: "?layout = Refs \<or> en_sink env = None \<and> (\<forall>sr \<in> set srs. st_content_ref sr = None \<and> st_raw_ref sr = None)"
    by (auto simp: list_ex_iff)
  have env: "serde_ok (se_serde (en_seg env))" "blobs_ok (en_sink env) rd"
    using assms(1) by (simp_all add: env_ok_def)
  obtain f where f: "file_ok (en_seg env) rd f evs" "evs \<noteq> []" "map_of d' ?name = Some f"
    "meta = segment_meta sid ?name (se_len (en_seg env) f) (se_sha256 (en_seg env) f) evs"
    using write_segment_impl_Ok [OF w assms(2) env(1) assms(3) env(2) lay] by blast
  show m: "sm_segment_id meta = sid" "sm_file meta = ?name"
    by (simp_all add: f(4) segment_meta_def)
  have "\<exists>n sha. meta = segment_meta (sm_segment_id meta) (sm_file meta) n sha evs"
    unfolding m using f(4) by blast
  then show "seg_holds env rd d' meta evs"
    unfolding seg_holds_def using f(1-3) assms(3) by (simp add: m)
qed

lemma write_segment_rows_frame:
  assumes "write_segment_rows env io sid srs sink d = (res, d')" and "segment_file_name env sid \<notin> fst ` set d"
    and "name \<in> fst ` set d" and "\<not> is_temp_name name"
  shows "map_of d' name = map_of d name"
proof -
  have ne: "name \<noteq> segment_file_name env sid" "name \<noteq> segment_file_name env sid @ ''.tmp''"
    using assms(2-4) segment_names(2) [of env sid] by metis+
  show ?thesis
    using assms(1) write_segment_impl_frame [OF _ ne] by (auto simp: write_segment_rows_def Let_def split: if_splits)
qed

section \<open>Replacing segments\<close>

text \<open>
  Publishing a generation that stores the same events in other segments: the handle as it was when
  an error follows, the handle that adopts it otherwise.
\<close>

lemma replace_inv:
  assumes "db_inv env rd db disk evss md evssd" and "manifest_ok env rd (dk_segments disk) m evss'"
    and "mf_generation m = Suc (mf_generation (db_manifest db))" and "mf_last_source_seq m = mf_last_source_seq (db_manifest db)"
    and "mset (concat evss') = mset (concat evss)"
    and "\<forall>t \<in> set (mf_tombstones (db_manifest db)). base_name (ts_file t) \<notin> sm_file ` set (mf_segments m)"
    and "newest env mfdir m"
  shows "db_inv env rd db (disk\<lparr>dk_manifest := mfdir\<rparr>) evss m evss'"
    and "cache_ok (db\<lparr>db_manifest := m, db_segment_ids := c\<rparr>) evss' \<Longrightarrow>
      db_inv env rd (db\<lparr>db_manifest := m, db_segment_ids := c\<rparr>) (disk\<lparr>dk_manifest := mfdir\<rparr>) evss' m evss'"
proof -
  note inv = db_invD [OF assms(1)]
  note h = handle_okD [OF inv(4)]
  let ?mem = "mt_events (db_memtable db)" and ?W = "wal_events (en_crc env) (en_from_slice env) (dk_wal disk)"
  have same: "set (concat evss') = set (concat evss)"
    using assms(5) by (rule mset_eq_setD)
  have dist: "distinct (map f (concat evss' @ ?mem))" if "distinct (map f (concat evss @ ?mem))" for f :: "Event \<Rightarrow> 'b"
    using that mset_eq_imp_distinct_iff [of "map f (concat evss' @ ?mem)" "map f (concat evss @ ?mem)"] assms(5)
    by (metis mset_append mset_map)
  have ids: "distinct (map ev_event_id (concat evss'))"
    using dist [OF h(4)] by simp
  have W: "\<forall>ev \<in> set ?W. ev \<in> set (concat evss) \<or> ev \<in> set ?mem \<and> mf_last_source_seq m < ev_source_seq ev"
    using inv(11) h(8) unfolding disk_events_ok_def assms(4) by blast
  have M: "set ?mem \<subseteq> set ?W"
    using inv(11) unfolding disk_events_ok_def by blast
  have lt: "mf_last_source_seq m < db_next_seq db"
    using h(9) by (simp add: assms(4))
  have e: "disk_events_ok env (dk_wal disk) m (concat evss) ?mem (concat evss')"
    "disk_events_ok env (dk_wal disk) m (concat evss') ?mem (concat evss')"
    unfolding disk_events_ok_def same using ids W M by blast+
  show "db_inv env rd db (disk\<lparr>dk_manifest := mfdir\<rparr>) evss m evss'"
    unfolding db_inv_def using inv assms(2,3,6,7) lt e by simp
  assume c: "cache_ok (db\<lparr>db_manifest := m, db_segment_ids := c\<rparr>) evss'"
  have "\<forall>ev \<in> set (concat evss' @ ?mem). ev_source_seq ev < db_next_seq db"
    using h(6) same by auto
  then have "handle_ok env rd (db\<lparr>db_manifest := m, db_segment_ids := c\<rparr>) (dk_segments disk) evss'"
    unfolding handle_ok_def using assms(2) c h(3,7,8) dist [OF h(4)] dist [OF h(5)] lt by (simp add: assms(4))
  then show "db_inv env rd (db\<lparr>db_manifest := m, db_segment_ids := c\<rparr>) (disk\<lparr>dk_manifest := mfdir\<rparr>) evss' m evss'"
    unfolding db_inv_def using inv(1-3) assms(2,7) manifest_okD(3) [OF assms(2)] lt e by simp
qed

text \<open>
  The outputs a rewrite lists in the place of its inputs: written under new ids and new names, holding
  rows of events the handle numbered before.
\<close>

definition outputs_ok :: "Env \<Rightarrow> blob_reader \<Rightarrow> seg_dir \<Rightarrow> Manifest \<Rightarrow> SegmentMeta list \<Rightarrow> Event list list \<Rightarrow> bool" where
  "outputs_ok env rd d m outs ess \<longleftrightarrow>
     list_all2 (seg_holds env rd d) outs ess \<and> distinct (map sm_segment_id outs) \<and>
     sm_segment_id ` set outs \<inter> sm_segment_id ` set (mf_segments m) = {} \<and>
     names_ok (mf_segments m @ outs) \<and>
     sm_file ` set outs \<inter> (\<lambda>t. base_name (ts_file t)) ` set (mf_tombstones m) = {}"

definition replaces ::
  "Manifest \<Rightarrow> SegmentMeta list \<Rightarrow> SegmentMeta list \<Rightarrow> SegmentMeta list \<Rightarrow> SegmentMeta list \<Rightarrow> Manifest \<Rightarrow> bool"
where
  "replaces m xs ins outs ys m' \<longleftrightarrow>
     mf_segments m = xs @ ins @ ys \<and> mf_segments m' = xs @ outs @ ys \<and>
     (\<exists>g. mf_tombstones m' = mf_tombstones m @ map (\<lambda>s. \<lparr>ts_file = sm_file s, ts_since_generation = g\<rparr>) ins) \<and>
     mf_last_source_seq m' = mf_last_source_seq m \<and> mf_format_version m' = mf_format_version m \<and>
     mf_generation m' = Suc (mf_generation m)"

lemma replaces_manifest_ok:
  assumes "manifest_ok env rd d m evss" and "replaces m xs ins outs ys m'" and "outputs_ok env rd d m outs eo"
    and "evss = ex @ ei @ ey" and "length ex = length xs" and "length ei = length ins"
    and "set (concat eo) \<subseteq> set (concat ei)" and "Suc (mf_generation m) < 2 ^ 64"
  shows "manifest_ok env rd d m' (ex @ eo @ ey)"
    and "\<forall>t \<in> set (mf_tombstones m). base_name (ts_file t) \<notin> sm_file ` set (mf_segments m')"
proof -
  note old = manifest_okD [OF assms(1)]
  note r = assms(2) [unfolded replaces_def]
  note o = assms(3) [unfolded outputs_ok_def]
  have hold: "list_all2 (seg_holds env rd d) (xs @ ins @ ys) (ex @ ei @ ey)" "distinct (map sm_segment_id (xs @ ins @ ys))"
    using old(1) r assms(4) by (simp_all add: segs_hold_def)
  then have parts: "list_all2 (seg_holds env rd d) xs ex" "list_all2 (seg_holds env rd d) ys ey"
    using assms(5,6) by (simp_all add: list_all2_append)
  have dist: "distinct (map sm_segment_id (xs @ outs @ ys))"
    using hold(2) o r by (auto simp: image_iff)
  have "list_all2 (seg_holds env rd d) (xs @ outs @ ys) (ex @ eo @ ey)"
    using parts o by (auto intro!: list_all2_appendI)
  then have sh: "segs_hold env rd d (mf_segments m') (ex @ eo @ ey)"
    unfolding segs_hold_def using dist r by simp
  have nm: "names_ok (mf_segments m')"
    using o r by (auto simp: names_ok_def)
  have files: "sm_file s \<notin> sm_file ` set (xs @ outs @ ys)" if "s \<in> set ins" for s
    using that o r by (auto simp: names_ok_def image_iff)
  have base: "base_name (sm_file s) = sm_file s" if "s \<in> set ins" for s
    using that o r by (auto simp: names_ok_def)
  show tomb: "\<forall>t \<in> set (mf_tombstones m). base_name (ts_file t) \<notin> sm_file ` set (mf_segments m')"
    using old(3) o r by (auto simp: image_iff)
  have "\<forall>t \<in> set (mf_tombstones m'). base_name (ts_file t) \<notin> sm_file ` set (mf_segments m')"
  proof
    fix t
    assume "t \<in> set (mf_tombstones m')"
    then consider "t \<in> set (mf_tombstones m)" | s where "s \<in> set ins" "ts_file t = sm_file s"
      using r by auto
    then show "base_name (ts_file t) \<notin> sm_file ` set (mf_segments m')"
    proof cases
      case 2
      then show ?thesis
        using files base r by metis
    qed (use tomb in blast)
  qed
  moreover have "\<forall>ev \<in> set (concat (ex @ eo @ ey)). ev_source_seq ev \<le> mf_last_source_seq m'"
    using old(4) assms(7) unfolding assms(4) concat_append set_append conjunct1 [OF conjunct2 [OF conjunct2 [OF conjunct2 [OF r]]]]
    by blast
  ultimately show "manifest_ok env rd d m' (ex @ eo @ ey)"
    unfolding manifest_ok_def using sh nm old(5) r assms(8) by simp
qed

text \<open>The id sets of the listed segments after a replacement.\<close>

lemma replaces_cache_ok:
  assumes "handle_ok env rd db d evss" and "replaces (db_manifest db) xs ins outs ys m'" and "outputs_ok env rd d (db_manifest db) outs eo"
    and "evss = ex @ ei @ ey" and "length ex = length xs" and "length ei = length ins"
    and "\<And>s evs. (s, evs) \<in> set (zip outs eo) \<Longrightarrow> c (sm_segment_id s) = Some (IdSet_from_iter (map ev_event_id evs))"
    and "\<And>sid. sid \<notin> sm_segment_id ` set ins \<Longrightarrow> sid \<notin> sm_segment_id ` set outs \<Longrightarrow> c sid = db_segment_ids db sid"
  shows "cache_ok (db\<lparr>db_manifest := m', db_segment_ids := c\<rparr>) (ex @ eo @ ey)"
proof -
  note h = handle_okD [OF assms(1)]
  note r = assms(2) [unfolded replaces_def]
  note o = assms(3) [unfolded outputs_ok_def]
  have dist: "distinct (map sm_segment_id (xs @ ins @ ys))"
    using manifest_okD(1) [OF h(1)] r by (simp add: segs_hold_def)
  have old: "db_segment_ids db (sm_segment_id s) \<in> {None, Some (IdSet_from_iter (map ev_event_id evs))}"
    if "(s, evs) \<in> set (zip xs ex) \<union> set (zip ys ey)" for s evs
    using h(2) that r assms(4-6) unfolding cache_ok_def by auto
  have same: "c (sm_segment_id s) = db_segment_ids db (sm_segment_id s)" if "s \<in> set xs \<union> set ys" for s
    using that dist o r by (intro assms(8)) (auto simp: image_iff)
  have "c (sm_segment_id s) \<in> {None, Some (IdSet_from_iter (map ev_event_id evs))}"
    if "(s, evs) \<in> set (zip xs ex) \<union> set (zip outs eo) \<union> set (zip ys ey)" for s evs
  proof (cases "(s, evs) \<in> set (zip outs eo)")
    case False
    then have "(s, evs) \<in> set (zip xs ex) \<union> set (zip ys ey)" "s \<in> set xs \<union> set ys"
      using that set_zip_leftD [of s evs] by auto
    then show ?thesis
      using old [of s evs] same [of s] by simp
  qed (simp add: assms(7))
  moreover have "zip (xs @ outs @ ys) (ex @ eo @ ey) = zip xs ex @ zip outs eo @ zip ys ey"
    using assms(5) list_all2_lengthD [OF conjunct1 [OF o]] by simp
  ultimately show ?thesis
    using r unfolding cache_ok_def by auto
qed

text \<open>The manifest of a compaction.\<close>

lemma seg_position_append:
  "sid \<notin> sm_segment_id ` set xs \<Longrightarrow> sm_segment_id s = sid \<Longrightarrow> seg_position sid (xs @ s # ys) = Some (length xs)"
  by (induction xs) auto

lemma compact_replaces:
  assumes "mf_segments m = xs @ ins @ ys" and "pr_inputs run = ins" and "ins \<noteq> []"
    and "distinct (map sm_segment_id (mf_segments m))" and "m'\<lparr>mf_checksum := None\<rparr> = (compact_manifest now m run meta)\<lparr>mf_checksum := None\<rparr>"
  shows "replaces m xs ins [meta] ys m'"
proof -
  obtain s ss where ins: "ins = s # ss"
    using assms(3) by (cases ins) auto
  have dist: "distinct (map sm_segment_id (xs @ ins @ ys))"
    using assms(1,4) by simp
  have pos: "seg_position (sm_segment_id s) (mf_segments m) = Some (length xs)"
    using dist by (simp add: assms(1) ins seg_position_append)
  have ret: "filter (\<lambda>s. sm_segment_id s \<notin> sm_segment_id ` set ins) (mf_segments m) = xs @ ys"
    using dist unfolding assms(1) filter_append
    by (simp add: filter_empty_conv) (metis (no_types, lifting) Int_emptyI Un_iff disjoint_iff filter_True imageI)
  have f: "g m' = g (compact_manifest now m run meta)"
    if "\<And>x. g (x\<lparr>mf_checksum := None\<rparr>) = g x" for g :: "Manifest \<Rightarrow> 'b"
    using arg_cong [OF assms(5), of g] that by simp
  have "mf_segments m' = xs @ [meta] @ ys"
    using f [of mf_segments] pos ret by (simp add: compact_manifest_def Let_def assms(2) insert_at_def ins [symmetric]) (simp add: ins)
  then show ?thesis
    unfolding replaces_def
    using assms(1) f [of mf_tombstones] f [of mf_last_source_seq] f [of mf_format_version] f [of mf_generation]
    by (auto simp: compact_manifest_def Let_def assms(2))
qed

text \<open>What a compaction is handed: a fresh segment id and room for one more generation.\<close>

definition compact_io_ok :: "Env \<Rightarrow> Database \<Rightarrow> Disk \<Rightarrow> CompactIo \<Rightarrow> bool" where
  "compact_io_ok env db disk io \<longleftrightarrow>
     Suc (mf_generation (db_manifest db)) < 2 ^ 64 \<and>
     segment_file_name (en_seg env) (ci_segment_id io) \<notin> fst ` set (dk_segments disk) \<and>
     ci_segment_id io \<notin> sm_segment_id ` set (mf_segments (db_manifest db)) \<and>
     segment_file_name (en_seg env) (ci_segment_id io) \<notin>
       (\<lambda>t. base_name (ts_file t)) ` set (mf_tombstones (db_manifest db))"

text \<open>The last part of a compaction, once the output is written.\<close>

lemma replaced_keeps:
  assumes "env_ok env rd" and "db_inv env rd db disk evss md evssd" and "Suc (mf_generation (db_manifest db)) < 2 ^ 64"
    and "\<And>m. m\<lparr>mf_checksum := None\<rparr> = nxt\<lparr>mf_checksum := None\<rparr> \<Longrightarrow> replaces (db_manifest db) xs ins outs ys m"
    and "outputs_ok env rd (dk_segments disk) (db_manifest db) outs eo"
    and "evss = ex @ ei @ ey" and "length ex = length xs" and "length ei = length ins"
    and "mset (concat eo) = mset (concat ei)"
    and "\<And>s evs. (s, evs) \<in> set (zip outs eo) \<Longrightarrow> c (sm_segment_id s) = Some (IdSet_from_iter (map ev_event_id evs))"
    and "\<And>sid. sid \<notin> sm_segment_id ` set ins \<Longrightarrow> sid \<notin> sm_segment_id ` set outs \<Longrightarrow> c sid = db_segment_ids db sid"
    and "Manifest_write (en_crc env) (en_mf_to_vec env) (en_mf_pretty env) io rmfail nxt (dk_manifest disk) = (res, mfdir)"
  shows "keeps env rd db (disk\<lparr>dk_manifest := mfdir\<rparr>) (set (concat evss @ mt_events (db_memtable db))) \<and>
    (\<forall>m. res = Ok m \<longrightarrow>
       db_inv env rd (db\<lparr>db_manifest := m, db_segment_ids := c\<rparr>) (disk\<lparr>dk_manifest := mfdir\<rparr>) (ex @ eo @ ey) m (ex @ eo @ ey))"
proof -
  note inv = db_invD [OF assms(2)]
  have ms: "mset (concat (ex @ eo @ ey)) = mset (concat evss)"
    using assms(9) by (simp add: assms(6))
  have sub: "set (concat eo) \<subseteq> set (concat ei)"
    using mset_eq_setD [OF assms(9)] by simp
  have nxt: "replaces (db_manifest db) xs ins outs ys nxt"
    by (rule assms(4)) simp
  then have "mf_generation nxt = Suc (mf_generation (db_manifest db))" "mf_format_version nxt = mf_format_version (db_manifest db)"
    by (simp_all add: replaces_def)
  from publish_effect [OF assms(1-3) this assms(12)] show ?thesis
  proof
    assume "(\<exists>e. res = Err e) \<and> newest env mfdir md"
    then show ?thesis
      using keepsI [OF db_inv_manifest_dir [OF assms(2), of mfdir]] by auto
  next
    assume "\<exists>m. m\<lparr>mf_checksum := None\<rparr> = nxt\<lparr>mf_checksum := None\<rparr> \<and> newest env mfdir m \<and> ((\<exists>e. res = Err e) \<or> res = Ok m)"
    then obtain m where m: "m\<lparr>mf_checksum := None\<rparr> = nxt\<lparr>mf_checksum := None\<rparr>" "newest env mfdir m"
      "(\<exists>e. res = Err e) \<or> res = Ok m"
      by blast
    note rep = assms(4) [OF m(1)]
    note ok = replaces_manifest_ok [OF handle_okD(1) [OF inv(4)] rep assms(5-8) sub assms(3)]
    have g: "mf_generation m = Suc (mf_generation (db_manifest db))" "mf_last_source_seq m = mf_last_source_seq (db_manifest db)"
      using rep by (simp_all add: replaces_def)
    note r = replace_inv [OF assms(2) ok(1) g ms ok(2) m(2)]
    note cache = replaces_cache_ok [OF inv(4) rep assms(5-8,10,11)]
    show ?thesis
      using keepsI [OF r(1)] r(2) [OF cache] m(3) by auto
  qed
qed

text \<open>The run a plan puts first, and the events of its inputs.\<close>

lemma first_run:
  assumes "db_compaction_plan env flt policy db disk = Ok plan" and "pl_runs plan = run # rest"
    and "length evss = length (mf_segments (db_manifest db))"
  obtains xs ys ex ei ey where "mf_segments (db_manifest db) = xs @ pr_inputs run @ ys" and "pr_inputs run \<noteq> []"
    and "evss = ex @ ei @ ey" and "length ex = length xs" and "length ei = length (pr_inputs run)"
proof -
  obtain formats where "plan = compaction_plan (mf_segments (db_manifest db)) formats policy (encryption_active env)"
    using assms(1) by (auto simp: db_compaction_plan_def split: sum.splits)
  from plan_ok [OF this] have run: "pr_inputs run = slice (pr_first_index run) (pr_first_index run + length (pr_inputs run)) (mf_segments (db_manifest db))"
    "2 \<le> length (pr_inputs run)"
    by (auto simp: assms(2))
  define i where "i = pr_first_index run"
  define n where "n = length (pr_inputs run)"
  let ?segs = "mf_segments (db_manifest db)"
  have ins: "pr_inputs run = take n (drop i ?segs)"
    using run(1) by (simp add: slice_def i_def n_def)
  have segs: "?segs = take i ?segs @ pr_inputs run @ drop n (drop i ?segs)"
    unfolding ins by (metis append_take_drop_id)
  have "evss = take i evss @ take n (drop i evss) @ drop n (drop i evss)"
    by (metis append_take_drop_id)
  then show thesis
    using that [OF segs] run(2) assms(3) ins by auto
qed

lemma compact_keeps:
  assumes "env_ok env rd" and "db_inv env rd db disk evss md evssd" and "compact_io_ok env db disk io"
    and "compact env io policy db disk = (res, db', disk')"
  shows "keeps env rd db' disk' (set (concat evss @ mt_events (db_memtable db))) \<and> db_opts db' = db_opts db \<and>
    mt_events (db_memtable db') = mt_events (db_memtable db)"
proof -
  note inv = db_invD [OF assms(2)]
  note h = handle_okD [OF inv(4)]
  note io = assms(3) [unfolded compact_io_ok_def]
  let ?A = "set (concat evss @ mt_events (db_memtable db))" and ?m = "db_manifest db"
  note c = compact_def [of env io policy db disk, unfolded assms(4) require_writer_def] inv(2)
  have unchanged: "keeps env rd db disk ?A"
    by (rule keepsI [OF assms(2)])
  show ?thesis
  proof (cases "\<exists>run rest plan rows0. db_compaction_plan env (ci_read_fails io) policy db disk = Ok plan \<and> pl_runs plan = run # rest \<and>
      read_inputs (en_seg env) (ci_read_fails io) (dk_segments disk) (pr_inputs run) = Ok rows0 \<and>
      find (\<lambda>r. CANONICAL_SCHEMA_VERSION < ev_schema_version (st_event r)) rows0 = None")
    case False
    then have "\<exists>r. (res, db', disk') = (r, db, disk)"
      using c by (auto split: sum.splits list.splits option.splits)
    then show ?thesis
      using unchanged by auto
  next
    case True
    then obtain run rest plan rows0 where p: "db_compaction_plan env (ci_read_fails io) policy db disk = Ok plan"
      "pl_runs plan = run # rest" "read_inputs (en_seg env) (ci_read_fails io) (dk_segments disk) (pr_inputs run) = Ok rows0"
      "find (\<lambda>r. CANONICAL_SCHEMA_VERSION < ev_schema_version (st_event r)) rows0 = None"
      by blast
    obtain xs ys ex ei ey where sp: "mf_segments ?m = xs @ pr_inputs run @ ys" "pr_inputs run \<noteq> []" "evss = ex @ ei @ ey"
      "length ex = length xs" "length ei = length (pr_inputs run)"
      using first_run [OF p(1,2)] segs_hold_length [OF manifest_okD(1) [OF h(1)]] by metis
    have hold: "list_all2 (seg_holds env rd (dk_segments disk)) (pr_inputs run) ei" "distinct (map sm_segment_id (mf_segments ?m))"
      using manifest_okD(1) [OF h(1)] sp by (simp_all add: segs_hold_def list_all2_append)
    let ?rows = "sort_key (\<lambda>r. ev_source_seq (st_event r)) rows0" and ?evs = "sort_key ev_source_seq (concat ei)"
    have rows: "list_all2 (source_row (se_serde (en_seg env)) rd) ?evs ?rows" "map (\<lambda>r. ev_event_id (st_event r)) ?rows = map ev_event_id ?evs"
      "\<forall>ev \<in> set ?evs. canonical_event ev"
      using sorted_rows [OF assms(1) hold(1) p(3) refl refl] by blast+
    obtain r1 segs where wr: "write_segment_rows (en_seg env) (ci_segment io) (ci_segment_id io) ?rows (en_sink env) (dk_segments disk) = (r1, segs)"
      by (cases "write_segment_rows (en_seg env) (ci_segment io) (ci_segment_id io) ?rows (en_sink env) (dk_segments disk)")
    let ?disk1 = "disk\<lparr>dk_segments := segs\<rparr>"
    have inv1: "db_inv env rd db ?disk1 evss md evssd"
      using write_segment_rows_frame [OF wr] io by (intro db_inv_segments [OF assms(2)]) blast
    show ?thesis
    proof (cases r1)
      case (Inl e)
      then have "(res, db', disk') = (Err e, db, ?disk1)"
        using c p wr by simp
      then show ?thesis
        using keepsI [OF inv1] by simp
    next
      case meta: (Inr meta)
      note w = write_segment_rows_Ok [OF assms(1) rows(1,3) wr [unfolded meta]]
      have outs: "outputs_ok env rd (dk_segments ?disk1) ?m [meta] [?evs]"
        using w io fresh_names_ok [OF assms(1) h(1) _ w(3)] by (simp add: outputs_ok_def)
      let ?next = "compact_manifest (ci_now io) ?m run meta"
      let ?c = "(forget_ids (map sm_segment_id (pr_inputs run)) (db_segment_ids db))
        (sm_segment_id meta \<mapsto> IdSet_from_iter (map (\<lambda>r. ev_event_id (st_event r)) ?rows))"
      obtain r2 mfdir where mw: "Manifest_write (en_crc env) (en_mf_to_vec env) (en_mf_pretty env) (ci_manifest io) (ci_prune_fails io)
          ?next (dk_manifest disk) = (r2, mfdir)"
        by (cases "Manifest_write (en_crc env) (en_mf_to_vec env) (en_mf_pretty env) (ci_manifest io) (ci_prune_fails io)
          ?next (dk_manifest disk)")
      let ?disk2 = "disk\<lparr>dk_segments := segs, dk_manifest := mfdir\<rparr>"
      have "?c (sm_segment_id s) = Some (IdSet_from_iter (map ev_event_id evs))" if "(s, evs) \<in> set (zip [meta] [?evs])" for s evs
        using that by (simp add: rows(2))
      moreover have "?c sid = db_segment_ids db sid"
        if "sid \<notin> sm_segment_id ` set (pr_inputs run)" "sid \<notin> sm_segment_id ` set [meta]" for sid
        using that by (simp add: forget_ids_def)
      moreover have "Manifest_write (en_crc env) (en_mf_to_vec env) (en_mf_pretty env) (ci_manifest io) (ci_prune_fails io)
          ?next (dk_manifest ?disk1) = (r2, mfdir)"
        using mw by simp
      moreover have "mset (concat [?evs]) = mset (concat ei)"
        by simp
      ultimately have "keeps env rd db (?disk1\<lparr>dk_manifest := mfdir\<rparr>) ?A \<and> (\<forall>m. r2 = Ok m \<longrightarrow>
          db_inv env rd (db\<lparr>db_manifest := m, db_segment_ids := ?c\<rparr>) (?disk1\<lparr>dk_manifest := mfdir\<rparr>) (ex @ [?evs] @ ey) m (ex @ [?evs] @ ey))"
        using compact_replaces [OF sp(1) refl sp(2) hold(2)] outs sp(3-5)
        by (intro replaced_keeps [OF assms(1) inv1 conjunct1 [OF io]])
      then have k: "keeps env rd db ?disk2 ?A"
        "\<And>m. r2 = Ok m \<Longrightarrow> db_inv env rd (db\<lparr>db_manifest := m, db_segment_ids := ?c\<rparr>) ?disk2 (ex @ [?evs] @ ey) m (ex @ [?evs] @ ey)"
        by simp_all
      show ?thesis
      proof (cases r2)
        case (Inl e)
        then have "(res, db', disk') = (Err e, db, ?disk2)"
          using c p wr meta mw by simp
        then show ?thesis
          using k(1) by simp
      next
        case (Inr m)
        let ?db1 = "db\<lparr>db_manifest := m, db_segment_ids := ?c\<rparr>"
        obtain r3 db2 disk2 where gc: "collect_garbage (ci_gc_fails io) ?db1 ?disk2 = (r3, db2, disk2)"
          by (cases "collect_garbage (ci_gc_fails io) ?db1 ?disk2")
        note g = collect_garbage_inv [OF k(2) [OF Inr] gc]
        have "db' = db2" "disk' = disk2"
          using c p wr meta mw Inr gc by (auto simp: Let_def split: sum.splits)
        moreover have "set (concat (ex @ [?evs] @ ey) @ mt_events (db_memtable db)) = ?A"
          by (auto simp: sp(3))
        ultimately show ?thesis
          using keepsI [OF conjunct1 [OF conjunct2 [OF g]]] g by simp
      qed
    qed
  qed
qed

end
