(* ===== verification/Recovery.thy ===== *)
theory Recovery
  imports Maintain
begin

text \<open>
  The database as a state machine: creating, opening, ingesting, flushing, compacting and collecting garbage, with
  every fault the operating system may add, refine an abstract set of stored events. What a scan shows
  survives a crash between any two steps, and a crash in the middle of an append keeps a prefix of the
  batch. Sources: \<open>attemptdb-storage/src/db.rs\<close> over the components below it.
\<close>

section \<open>What a reader sees\<close>

definition view :: "Env \<Rightarrow> ScanFilter \<Rightarrow> Database \<Rightarrow> Disk \<Rightarrow> storage_error + Event list" where
  "view env f db disk = map_sum id (map stored_form) (db_scan env (\<lambda>_. False) f db disk)"

lemma stored_form_idem [simp]: "stored_form (stored_form ev) = stored_form ev"
  by (auto simp: stored_form_def nonempty_content_def split: option.splits)

lemma scan_order_stored_form [simp]: "scan_order (stored_form ev) = scan_order ev"
  by (simp add: scan_order_def stored_form_def)

lemma sort_key_map: "sort_key f (map g xs) = map g (sort_key (\<lambda>x. f (g x)) xs)"
proof (induction xs)
  case (Cons x xs)
  have "insort_key f (g x) (map g ys) = map g (insort_key (\<lambda>x. f (g x)) x ys)" for ys
    by (induction ys) auto
  then show ?case
    using Cons by simp
qed simp

lemma scan_spec_map: "scan_spec f (map stored_form xs) = map stored_form (scan_spec f xs)"
  by (auto simp: scan_spec_def Let_def filter_map o_def sort_key_map drop_map split: option.splits)

lemma scan_spec_cong:
  assumes "mset xs = mset ys" and "distinct (map ev_source_seq xs)"
  shows "scan_spec f xs = scan_spec f ys"
proof -
  let ?P = "filter (matches f)"
  have "inj_on scan_order (set (?P xs))"
    using assms(2) by (auto simp: distinct_map inj_on_def scan_order_def)
  moreover have "mset (?P xs) = mset (sort_key scan_order (?P ys))"
    using assms(1) by simp
  ultimately have "sort_key scan_order (?P xs) = sort_key scan_order (?P ys)"
    by (intro sort_key_inj_key_eq) simp_all
  then show ?thesis
    by (simp add: scan_spec_def)
qed

lemma view_eq:
  assumes "env_ok env rd" and "handle_ok env rd db (dk_segments disk) evss"
  shows "view env f db disk = Ok (scan_spec f (map stored_form (concat evss @ mt_events (db_memtable db))))"
proof -
  have "list_all2 (seg_holds env rd (dk_segments disk)) (mf_segments (db_manifest db)) evss"
    using manifest_okD(1) [OF handle_okD(1) [OF assms(2)]] by (simp add: segs_hold_def)
  note eq = db_scan_eq [OF assms(1) this, of f]
  show ?thesis
    unfolding view_def eq by (simp add: scan_spec_map [symmetric] o_def)
qed

text \<open>Handles that keep the same events show the same.\<close>

lemma same_view:
  assumes "env_ok env rd" and "handle_ok env rd db (dk_segments disk) evss" and "handle_ok env rd db' (dk_segments disk') evss'"
    and "set (concat evss @ mt_events (db_memtable db)) = set (concat evss' @ mt_events (db_memtable db'))"
  shows "view env f db disk = view env f db' disk'"
proof -
  let ?xs = "concat evss @ mt_events (db_memtable db)" and ?ys = "concat evss' @ mt_events (db_memtable db')"
  have "distinct ?xs" "distinct ?ys"
    using handle_okD(4) [OF assms(2)] handle_okD(4) [OF assms(3)] by (metis distinct_map)+
  then have "mset ?xs = mset ?ys"
    using assms(4) set_eq_iff_mset_eq_distinct by blast
  then have "scan_spec f (map stored_form ?xs) = scan_spec f (map stored_form ?ys)"
    using handle_okD(5) [OF assms(2)] unfolding scan_spec_map by (metis scan_spec_cong)
  then show ?thesis
    using view_eq [OF assms(1,2)] view_eq [OF assms(1,3)] by simp
qed

lemma keeps_view:
  assumes "env_ok env rd" and "keeps env rd db disk A" and "keeps env rd db' disk' A"
  shows "view env f db disk = view env f db' disk'"
  using assms(2,3) same_view [OF assms(1)] db_invD(4) unfolding keeps_def by metis

text \<open>A reopened handle keeps what the disk held.\<close>

lemma reopen_keeps:
  assumes "env_ok env rd" and "keeps env rd db disk A" and "\<not> oo_read_only opts" and "open_io_ok env opts io"
  shows "\<exists>db' disk'. db_open env opts io disk = (Ok db', disk') \<and> keeps env rd db' disk' A \<and> db_opts db' = opts"
proof -
  obtain evss md evssd where inv: "db_inv env rd db disk evss md evssd" "set (concat evss @ mt_events (db_memtable db)) = A"
    using assms(2) unfolding keeps_def by blast
  obtain db' disk' where "db_open env opts io disk = (Ok db', disk')" "db_inv env rd db' disk' evssd md evssd"
    "set (concat evssd @ mt_events (db_memtable db')) = A" "db_opts db' = opts"
    using db_open_writer [OF assms(1) db_inv_disk [OF inv(1)] assms(3,4)] inv(2) by auto
  then show ?thesis
    unfolding keeps_def by blast
qed

section \<open>Creating a database\<close>

definition empty_disk :: Disk where
  "empty_disk = \<lparr>dk_identity = None, dk_wal = [], dk_manifest = [], dk_segments = []\<rparr>"

lemma create_disk_inv:
  assumes "env_ok env rd" and "db_create env mio identity_ok sync_ok db_id device_id now empty_disk = (res, disk)"
    and "dk_identity disk \<noteq> None"
  shows "\<exists>md. disk_inv env rd disk md [] {}"
proof -
  let ?m = "(Manifest_initial db_id device_id now)\<lparr>mf_generation := 1\<rparr>"
  obtain r mfdir where wr: "Manifest_write (en_crc env) (en_mf_to_vec env) (en_mf_pretty env) mio (\<lambda>_. False) ?m [] = (r, mfdir)"
    by (cases "Manifest_write (en_crc env) (en_mf_to_vec env) (en_mf_pretty env) mio (\<lambda>_. False) ?m []")
  obtain m where r: "r = Ok m" and disk: "dk_wal disk = []" "dk_segments disk = []" "dk_manifest disk = mfdir"
    using assms(2,3) wr by (auto simp: db_create_def empty_disk_def Let_def split: sum.splits if_splits)
  have codec: "\<forall>bs m'. en_mf_pretty env m' = Inr bs \<longrightarrow> en_mf_from_slice env bs = Inr m'"
    using assms(1) by (simp add: env_ok_def)
  have g: "gens_upto (mf_generation ?m) []" "mf_generation ?m < 2 ^ 64" "mf_format_version ?m = MANIFEST_FORMAT_VERSION"
    by (simp_all add: gens_upto_def Manifest_initial_def)
  note eff = write_effect [OF wr codec g]
  obtain bs where m: "m\<lparr>mf_checksum := None\<rparr> = ?m\<lparr>mf_checksum := None\<rparr>"
    and f: "(mf_generation ?m, bs) \<in> set (list_generations mfdir) \<and>
       (\<forall>x \<in> set (list_generations mfdir). x = (mf_generation ?m, bs) \<or> fst x < mf_generation ?m) \<and>
       (\<forall>exists_seg. (\<forall>s \<in> set (mf_segments ?m). exists_seg (sm_file s)) \<longrightarrow>
          manifest_load_file (en_crc env) (en_mf_to_vec env) (en_mf_from_slice env) exists_seg bs = Ok m)"
    using conjunct2 [OF eff] r by (auto simp del: split_paired_All)
  have fields: "mf_generation m = mf_generation ?m" "mf_segments m = mf_segments ?m" "mf_tombstones m = mf_tombstones ?m"
    "mf_format_version m = mf_format_version ?m" "mf_last_source_seq m = mf_last_source_seq ?m"
    using arg_cong [OF m, of mf_generation] arg_cong [OF m, of mf_segments] arg_cong [OF m, of mf_tombstones]
      arg_cong [OF m, of mf_format_version] arg_cong [OF m, of mf_last_source_seq] by simp_all
  have "newest env mfdir m"
    unfolding newest_def newest_file_def fields using f conjunct1 [OF eff] by blast
  moreover have "manifest_ok env rd [] m []"
    unfolding manifest_ok_def fields by (simp add: segs_hold_def names_ok_def Manifest_initial_def)
  moreover have "wal_events (en_crc env) (en_from_slice env) [] = []"
    by (simp add: wal_events_def list_numbers_def List.map_filter_simps)
  ultimately show ?thesis
    unfolding disk_inv_def using assms(3) by (intro exI [of _ m]) (simp add: disk wal_dir_ok_def)
qed

section \<open>A crash in the middle of an append\<close>

lemma wal_file_ok_take:
  assumes "wal_file_ok file"
  shows "wal_file_ok (take n file)"
proof (cases "length (take n file) < FILE_HEADER_LEN")
  case False
  then obtain h cs where h: "header_ok MAGIC_WAL h" "file = FileHeader_encode h @ cs"
    using assms by (auto simp: wal_file_ok_def)
  have "take n file = FileHeader_encode h @ take (n - FILE_HEADER_LEN) cs"
    using False h by simp
  then show ?thesis
    using h(1) by (auto simp: wal_file_ok_def)
qed (simp add: wal_file_ok_def)

lemma crash_dir_ok:
  assumes "wal_ok crc w d"
  shows "wal_dir_ok (crash_active w n d)"
proof -
  have d: "wal_dir_ok d" "wal_active_number w \<in> set (list_numbers d)"
    using assms newest_mem by (auto simp: wal_ok_def)
  then have "wal_active_number w < 2 ^ 64"
    using list_numbers_ok(3) by blast
  moreover obtain bs where "map_of d (wal_file_name (wal_active_number w)) = Some bs" "wal_file_ok bs"
    using dir_member [OF d] by blast
  ultimately show ?thesis
    unfolding crash_active_def using d(1) by (intro wal_dir_ok_set wal_file_ok_take) (simp_all add: dir_get_def)
qed

text \<open>The disk after an append of a batch of which \<open>n\<close> bytes of the active file survive.\<close>

definition torn_ingest ::
  "Env \<Rightarrow> (string \<Rightarrow> bool) \<Rightarrow> Timestamp \<Rightarrow> Event list \<Rightarrow> nat \<Rightarrow> Database \<Rightarrow> Disk \<Rightarrow> Disk \<Rightarrow> bool"
where
  "torn_ingest env flt now events n db disk disk' \<longleftrightarrow>
     (\<exists>rep records batch db1 w b w' waldir.
        ingest_loop env flt (dk_segments disk) now [] IngestReport_default [] [] events db = (Ok (rep, records, batch), db1) \<and>
        db_wal db = Some w \<and> Wal_append_records (en_crc env) WriteAll w (dk_wal disk) records = (Ok b, w', waldir) \<and>
        fw_len (wal_active w) \<le> n \<and> disk' = disk\<lparr>dk_wal := crash_active w' n waldir\<rparr>)"

lemma torn_disk_inv:
  assumes "codecs_ok env rd" and "db_inv env rd db disk evss md evssd" and "\<forall>ev \<in> set events. acceptable ev"
    and "torn_ingest env flt now events n db disk disk'"
  shows "\<exists>rs news ks.
    batch_news env (ev_event_id ` set (concat evss @ mt_events (db_memtable db))) (db_next_seq db) events rs news \<and>
    prefix ks news \<and> disk_inv env rd disk' md evssd (set (concat evss @ mt_events (db_memtable db)) \<union> set ks)"
proof -
  note inv = db_invD [OF assms(2)]
  note h = handle_okD [OF inv(4)]
  let ?A = "set (concat evss @ mt_events (db_memtable db))"
  let ?W = "wal_events (en_crc env) (en_from_slice env)"
  have eok: "env_ok env rd"
    using assms(1) by (simp add: codecs_ok_def)
  obtain rep rs news db1 w b w' waldir where
    t: "ingest_loop env flt (dk_segments disk) now [] IngestReport_default [] [] events db = (Ok (rep, rs, news), db1)"
      "db_wal db = Some w" "Wal_append_records (en_crc env) WriteAll w (dk_wal disk) rs = (Ok b, w', waldir)"
      "fw_len (wal_active w) \<le> n" "disk' = disk\<lparr>dk_wal := crash_active w' n waldir\<rparr>"
    using assms(4) unfolding torn_ingest_def by blast
  have b: "batch_news env (ev_event_id ` ?A) (db_next_seq db) events rs news"
    using ingest_loop_ok [OF eok manifest_okD(1) [OF h(1)] h(2,3) t(1)] by (auto simp: loop_ok_def)
  note news = news_ok [OF assms(1) b assms(3)]
  have w: "wal_ok (en_crc env) w (dk_wal disk)"
    using inv(3) t(2) by auto
  obtain ks where ks: "prefix ks news" "?W (crash_active w' n waldir) = ?W (dk_wal disk) @ ks" "wal_ok (en_crc env) w' waldir"
    using append_effect [OF w news(2)] t(3,4) by auto
  have sub: "set ks \<subseteq> set news"
    using ks(1) by (auto simp: prefix_def)
  note n = news_distinct [OF inv(4) b order_refl]
  note d = disk_invD [OF db_inv_disk [OF assms(2)]]
  have "inj_on f (?A \<union> set ks)" if "distinct (map f ((concat evss @ mt_events (db_memtable db)) @ news))" for f :: "Event \<Rightarrow> 'x"
    using distinct_map_inj [OF that] sub by (auto intro: inj_on_subset)
  then have "inj_on ev_event_id (?A \<union> set ks)" "inj_on ev_source_seq (?A \<union> set ks)"
    using n(2,3) by blast+
  moreover have "\<forall>ev \<in> set (?W (crash_active w' n waldir)).
      ev \<in> set (concat evssd) \<or> mf_last_source_seq md < ev_source_seq ev \<and> event_ok env ev"
    using d(6) sub n(1) inv(10) news(1) unfolding ks(2) set_append by (metis UnE less_le_trans subsetD)
  moreover have "?A \<union> set ks = set (concat evssd) \<union> set (?W (crash_active w' n waldir))"
    using d(7) unfolding ks(2) set_append by blast
  ultimately have "disk_inv env rd disk' md evssd (?A \<union> set ks)"
    unfolding disk_inv_def t(5) using d(1,3-5) crash_dir_ok [OF ks(3)] by simp
  then show ?thesis
    using b ks(1) by blast
qed

section \<open>The state machine and its specification\<close>

datatype db_op = OpIngest "Event list" | OpTorn "Event list" | OpFlush | OpCompact CompactionPolicy | OpCollect | OpReopen

text \<open>
  The steps of a writer. \<open>OpTorn\<close> is a crash in the middle of an append, followed by a reopening;
  \<open>OpReopen\<close> is a crash (or a close) between two operations, followed by a reopening.
\<close>

inductive db_step :: "Env \<Rightarrow> Database \<times> Disk \<Rightarrow> db_op \<Rightarrow> Database \<times> Disk \<Rightarrow> bool" for env where
  step_ingest:
    "\<forall>ev \<in> set events. acceptable ev \<Longrightarrow> clean_write io \<Longrightarrow> oo_durability (db_opts db) = Strict \<longrightarrow> sync_ok \<Longrightarrow>
     flush_io_ok env db disk fio \<Longrightarrow> ingest env flt now io sync_ok fio events db disk = (res, db', disk') \<Longrightarrow>
     db_step env (db, disk) (OpIngest events) (db', disk')"
| step_torn:
    "\<forall>ev \<in> set events. acceptable ev \<Longrightarrow> torn_ingest env flt now events n db disk disk1 \<Longrightarrow>
     \<not> oo_read_only opts \<Longrightarrow> open_io_ok env opts io \<Longrightarrow> db_open env opts io disk1 = (Ok db', disk') \<Longrightarrow>
     db_step env (db, disk) (OpTorn events) (db', disk')"
| step_flush:
    "flush_io_ok env db disk fio \<Longrightarrow> flush env fio db disk = (res, db', disk') \<Longrightarrow>
     db_step env (db, disk) OpFlush (db', disk')"
| step_compact:
    "compact_io_ok env db disk cio \<Longrightarrow> compact env cio policy db disk = (res, db', disk') \<Longrightarrow>
     db_step env (db, disk) (OpCompact policy) (db', disk')"
| step_collect:
    "collect_garbage fails db disk = (res, db', disk') \<Longrightarrow> db_step env (db, disk) OpCollect (db', disk')"
| step_reopen:
    "\<not> oo_read_only opts \<Longrightarrow> open_io_ok env opts io \<Longrightarrow> db_open env opts io disk = (Ok db', disk') \<Longrightarrow>
     db_step env (db, disk) OpReopen (db', disk')"

inductive_cases db_step_ingestE: "db_step env (db, disk) (OpIngest events) (db', disk')"
inductive_cases db_step_tornE: "db_step env (db, disk) (OpTorn events) (db', disk')"
inductive_cases db_step_flushE: "db_step env (db, disk) OpFlush (db', disk')"
inductive_cases db_step_compactE: "db_step env (db, disk) (OpCompact policy) (db', disk')"
inductive_cases db_step_collectE: "db_step env (db, disk) OpCollect (db', disk')"
inductive_cases db_step_reopenE: "db_step env (db, disk) OpReopen (db', disk')"

text \<open>
  The specification: a set of events. Ingesting adds new events made from those handed in, a torn
  ingest adds a prefix of them, nothing else changes the set.
\<close>

inductive spec_step :: "Env \<Rightarrow> Event set \<Rightarrow> db_op \<Rightarrow> Event set \<Rightarrow> bool" for env where
  spec_ingest: "batch_news env (ev_event_id ` A) seq events rs news \<Longrightarrow> spec_step env A (OpIngest events) (A \<union> set news)"
| spec_torn:
    "batch_news env (ev_event_id ` A) seq events rs news \<Longrightarrow> prefix ks news \<Longrightarrow> spec_step env A (OpTorn events) (A \<union> set ks)"
| spec_flush: "spec_step env A OpFlush A"
| spec_compact: "spec_step env A (OpCompact policy) A"
| spec_collect: "spec_step env A OpCollect A"
| spec_reopen: "spec_step env A OpReopen A"

lemma db_step_refines:
  assumes "codecs_ok env rd" and "keeps env rd db disk A" and "db_step env (db, disk) op (db', disk')"
  shows "\<exists>A'. spec_step env A op A' \<and> keeps env rd db' disk' A'"
proof -
  have eok: "env_ok env rd"
    using assms(1) by (simp add: codecs_ok_def)
  obtain evss md evssd where inv: "db_inv env rd db disk evss md evssd"
    and A: "set (concat evss @ mt_events (db_memtable db)) = A"
    using assms(2) unfolding keeps_def by blast
  show ?thesis
  proof (cases op)
    case (OpIngest events)
    from assms(3) [unfolded OpIngest] show ?thesis
    proof (rule db_step_ingestE)
      fix io sync_ok fio flt now res
      assume "\<forall>ev \<in> set events. acceptable ev" "clean_write io" "oo_durability (db_opts db) = Strict \<longrightarrow> sync_ok"
        "flush_io_ok env db disk fio" "ingest env flt now io sync_ok fio events db disk = (res, db', disk')"
      from ingest_keeps [OF assms(1) inv this] show ?thesis
        unfolding ingested_def A OpIngest by (metis spec_ingest)
    qed
  next
    case (OpTorn events)
    from assms(3) [unfolded OpTorn] show ?thesis
    proof (rule db_step_tornE)
      fix flt now n disk1 opts io
      assume t: "\<forall>ev \<in> set events. acceptable ev" "torn_ingest env flt now events n db disk disk1"
        and o: "\<not> oo_read_only opts" "open_io_ok env opts io" "db_open env opts io disk1 = (Ok db', disk')"
      obtain rs news ks where "batch_news env (ev_event_id ` A) (db_next_seq db) events rs news" "prefix ks news"
        and "disk_inv env rd disk1 md evssd (A \<union> set ks)"
        using torn_disk_inv [OF assms(1) inv t] unfolding A by blast
      moreover then have "keeps env rd db' disk' (A \<union> set ks)"
        using db_open_writer [OF eok _ o(1,2)] o(3) unfolding keeps_def by fastforce
      ultimately show ?thesis
        unfolding OpTorn by (metis spec_torn)
    qed
  next
    case OpFlush
    then show ?thesis
      using assms(3) flush_keeps [OF eok inv] A by (auto elim!: db_step_flushE intro: spec_flush)
  next
    case (OpCompact policy)
    from assms(3) [unfolded OpCompact] show ?thesis
    proof (rule db_step_compactE)
      fix cio res
      assume "compact_io_ok env db disk cio" "compact env cio policy db disk = (res, db', disk')"
      from compact_keeps [OF eok inv this] show ?thesis
        using A unfolding OpCompact by (metis spec_compact)
    qed
  next
    case OpCollect
    from assms(3) [unfolded OpCollect] show ?thesis
    proof (rule db_step_collectE)
      fix fails res
      assume "collect_garbage fails db disk = (res, db', disk')"
      from collect_garbage_inv [OF inv this] show ?thesis
        using keepsI [of env rd db' disk' evss md evssd] A unfolding OpCollect by (metis spec_collect)
    qed
  next
    case OpReopen
    then show ?thesis
      using assms(3) reopen_keeps [OF eok assms(2)] by (fastforce elim!: db_step_reopenE intro: spec_reopen)
  qed
qed

text \<open>The states a database reaches from its creation.\<close>

definition db_init :: "Env \<Rightarrow> blob_reader \<Rightarrow> Database \<times> Disk \<Rightarrow> bool" where
  "db_init env rd s \<longleftrightarrow>
     codecs_ok env rd \<and>
     (\<exists>mio identity_ok sync_ok db_id device_id now res disk opts io.
        db_create env mio identity_ok sync_ok db_id device_id now empty_disk = (res, disk) \<and> dk_identity disk \<noteq> None \<and>
        \<not> oo_read_only opts \<and> open_io_ok env opts io \<and> db_open env opts io disk = (Ok (fst s), snd s))"

definition db_good :: "Env \<Rightarrow> blob_reader \<Rightarrow> Database \<times> Disk \<Rightarrow> bool" where
  "db_good env rd s \<longleftrightarrow> codecs_ok env rd \<and> (\<exists>A. keeps env rd (fst s) (snd s) A)"

lemma db_init_keeps:
  assumes "db_init env rd s"
  shows "codecs_ok env rd \<and> keeps env rd (fst s) (snd s) {}"
proof -
  obtain mio identity_ok sync_ok db_id device_id now res disk opts io where
    c: "db_create env mio identity_ok sync_ok db_id device_id now empty_disk = (res, disk)" "dk_identity disk \<noteq> None"
    and o: "\<not> oo_read_only opts" "open_io_ok env opts io" "db_open env opts io disk = (Ok (fst s), snd s)"
    and codecs: "codecs_ok env rd"
    using assms unfolding db_init_def by blast
  have eok: "env_ok env rd"
    using codecs by (simp add: codecs_ok_def)
  obtain md where "disk_inv env rd disk md [] {}"
    using create_disk_inv [OF eok c] by blast
  then show ?thesis
    using db_open_writer [OF eok _ o(1,2)] o(3) codecs unfolding keeps_def by fastforce
qed

interpretation dbs: transition_system "db_init env rd" "db_step env" "db_good env rd" for env rd
proof
  show "db_good env rd s" if "db_init env rd s" for s
    using db_init_keeps [OF that] by (auto simp: db_good_def)
  show "db_good env rd t" if "db_good env rd s" "db_step env s l t" for s l t
    using that db_step_refines [of env rd "fst s" "snd s" _ l "fst t" "snd t"] by (auto simp: db_good_def)
qed

inductive spec_run :: "Env \<Rightarrow> Event set \<Rightarrow> db_op list \<Rightarrow> Event set \<Rightarrow> bool" for env where
  spec_nil: "spec_run env A [] A"
| spec_cons: "spec_step env A op B \<Longrightarrow> spec_run env B ops C \<Longrightarrow> spec_run env A (op # ops) C"

lemma run_refines:
  assumes "codecs_ok env rd" and "dbs.run env s ops t" and "keeps env rd (fst s) (snd s) A"
  shows "\<exists>B. spec_run env A ops B \<and> keeps env rd (fst t) (snd t) B"
  using assms(2,3)
proof (induction arbitrary: A rule: dbs.run.induct)
  case (run_nil s)
  then show ?case
    by (metis spec_nil)
next
  case (run_cons s op t ops u)
  obtain B where "spec_step env A op B" "keeps env rd (fst t) (snd t) B"
    using db_step_refines [OF assms(1) run_cons.prems, of op "fst t" "snd t"] run_cons.hyps(1) by auto
  then show ?case
    using run_cons.IH by (metis spec_cons)
qed

lemma keeps_shows:
  assumes "env_ok env rd" and "keeps env rd db disk A"
  shows "\<exists>xs. set xs = A \<and> distinct (map ev_event_id xs) \<and> (\<forall>f. view env f db disk = Ok (scan_spec f (map stored_form xs)))"
  using assms(2) view_eq [OF assms(1)] db_invD(4) handle_okD(4) unfolding keeps_def by metis

lemma keeps_list:
  assumes "env_ok env rd" and "keeps env rd db disk (set xs)" and "distinct xs"
  shows "view env f db disk = Ok (scan_spec f (map stored_form xs))"
proof -
  obtain evss md evssd where inv: "db_inv env rd db disk evss md evssd"
    and A: "set (concat evss @ mt_events (db_memtable db)) = set xs"
    using assms(2) unfolding keeps_def by blast
  note h = handle_okD [OF db_invD(4) [OF inv]]
  have "distinct (concat evss @ mt_events (db_memtable db))"
    using h(4) by (metis distinct_map)
  then have "mset (concat evss @ mt_events (db_memtable db)) = mset xs"
    using A assms(3) set_eq_iff_mset_eq_distinct by blast
  then have "scan_spec f (concat evss @ mt_events (db_memtable db)) = scan_spec f xs"
    using h(5) by (rule scan_spec_cong)
  then show ?thesis
    using view_eq [OF assms(1) db_invD(4) [OF inv]] unfolding scan_spec_map by simp
qed

text \<open>A reader replays the log in memory.\<close>

lemma reader_opens:
  assumes "env_ok env rd" and "keeps env rd db disk A" and "oo_read_only opts" and "open_io_ok env opts io"
  shows "\<exists>db'. db_open env opts io disk = (Ok db', disk) \<and> (\<forall>f. view env f db' disk = view env f db disk)"
proof -
  obtain evss md evssd where inv: "db_inv env rd db disk evss md evssd"
    and A: "set (concat evss @ mt_events (db_memtable db)) = A"
    using assms(2) unfolding keeps_def by blast
  note dinv = db_inv_disk [OF inv, unfolded A]
  note d = disk_invD [OF dinv]
  obtain rec n where scan: "scan_dir (en_crc env) (\<lambda>_ _. False) (en_from_slice env) (dk_wal disk) = Ok (rec, n)"
    "wr_events rec = wal_events (en_crc env) (en_from_slice env) (dk_wal disk)"
    using scan_dir_events [OF d(2), of "en_crc env" "en_from_slice env"] by blast
  have io: "oi_wal_fails io = (\<lambda>_ _. False)" "oi_read_fails io = (\<lambda>_. False)"
    using assms(4) by (simp_all add: open_io_ok_def)
  obtain ws3 where keys: "note_missing_blob_keys (en_held env) (oi_sample io) = Ok ws3"
    using assms(4) by (auto simp: open_io_ok_def)
  obtain db_id device_id where ident: "dk_identity disk = Some (db_id, device_id)"
    using d(1) by auto
  have load: "load_manifest env disk = Ok (Some (md, []))"
    by (rule load_newest [OF d(4,3)])
  have wal: "recover_wal env opts io (dk_wal disk) = Ok (None, rec, dk_wal disk)"
    using assms(3) scan(1) by (simp add: recover_wal_def io Wal_scan_def)
  let ?ws = "[] @ [] @ note_unreferenced_segments md (dk_segments disk) @ ws3 @ recovery_warnings rec"
  obtain db1 where db1: "replay_loop env (\<lambda>_. False) (dk_segments disk) (durable_seq md) (wr_events rec) (opened opts md ?ws) = (Ok (), db1)"
    "handle_ok env rd db1 (dk_segments disk) evssd" "set (concat evssd @ mt_events (db_memtable db1)) = A"
    using replay_opened [OF assms(1) dinv, of opts ?ws] unfolding scan(2) by blast
  have "open_existing env opts io db_id device_id disk = (Ok (db1\<lparr>db_wal := None\<rparr>), disk)"
    unfolding open_existing_def using assms(3) load keys wal io(2) db1(1) by simp
  then have "db_open env opts io disk = (Ok (db1\<lparr>db_wal := None\<rparr>), disk)"
    using ident assms(3) by (simp add: db_open_def)
  moreover have "handle_ok env rd (db1\<lparr>db_wal := None\<rparr>) (dk_segments disk) evssd"
    using db1(2) by (simp add: handle_ok_def cache_ok_def)
  ultimately show ?thesis
    using same_view [OF assms(1) _ db_invD(4) [OF inv], of "db1\<lparr>db_wal := None\<rparr>" disk evssd] db1(3) A by simp
qed

section \<open>A concrete database\<close>

definition sample_seg_env :: SegEnv where
  "sample_seg_env = \<lparr>se_serde = sample_serde, se_simple = \<lambda>_. ''0'', se_len = \<lambda>_. 1, se_sha256 = \<lambda>_. ''h''\<rparr>"

definition sample_ingested :: Event where
  "sample_ingested = sample_event\<lparr>ev_source_seq := 1, ev_hlc := fst (hlc_next (resume_from 0) 1700000000000000),
     ev_ingested_at := Some 1700000000000000\<rparr>"

definition sample_env :: Env where
  "sample_env =
     \<lparr>en_seg = sample_seg_env, en_crc = \<lambda>_. 5,
      en_to_vec = \<lambda>ev. if ev = sample_ingested then Inr [1, 2, 3] else Inl (),
      en_from_slice = \<lambda>bs. if bs = [1, 2, 3] then Inr sample_ingested else Inl (),
      en_mf_to_vec = sample_manifest_to_vec, en_mf_pretty = sample_manifest_to_vec,
      en_mf_from_slice = sample_manifest_from_slice, en_secret = \<lambda>_. False,
      en_sink = None, en_reader = Some sample_reader, en_held = \<lambda>_. True\<rparr>"

definition sample_open_io :: OpenIo where
  "sample_open_io =
     \<lparr>oi_locked = False, oi_now = 1700000000000000, oi_fresh = sample_header, oi_read_fails = \<lambda>_. False,
      oi_wal_fails = \<lambda>_ _. False, oi_gc_fails = \<lambda>_. False, oi_sample = Ok [], oi_create = MfAll,
      oi_identity_ok = True, oi_root_sync_ok = True, oi_db_id = 1, oi_device_id = 2\<rparr>"

definition created_disk :: Disk where
  "created_disk = \<lparr>dk_identity = Some (1, 2), dk_wal = [], dk_manifest = [(manifest_file_name 1, [2])], dk_segments = []\<rparr>"

lemma sample_created: "db_create sample_env MfAll True True 1 2 1700000000000000 empty_disk = (Ok (), created_disk)"
proof -
  have [simp]: "sample_manifest\<lparr>mf_checksum := Some 5\<rparr> \<noteq> sample_manifest"
    by (simp add: sample_manifest_def Manifest_initial_def)
  have [simp]: "mf_generation sample_manifest = 1"
    by (simp add: sample_manifest_def)
  show ?thesis
    unfolding db_create_def Manifest_write_def sample_manifest_def [symmetric]
    by (simp add: sample_env_def empty_disk_def created_disk_def compute_checksum_def canonical_bytes_def
      sample_checksum sample_manifest_to_vec_def dir_set_def prune_generations_def KEEP_GENERATIONS_def)
qed

lemma sample_env_ok: "codecs_ok sample_env sample_reader"
  by (auto simp: codecs_ok_def env_ok_def sample_env_def sample_seg_env_def sample_serde_ok blobs_ok_def
      sample_manifest_to_vec_def sample_manifest_from_slice_def split: if_splits)

definition opened_db :: Database where
  "opened_db = (opened OpenOptions_default (sample_manifest\<lparr>mf_checksum := Some 5\<rparr>) [])
     \<lparr>db_wal := Some \<lparr>wal_active = \<lparr>fw_header = sample_header, fw_len = FILE_HEADER_LEN\<rparr>, wal_active_number = 1\<rparr>\<rparr>"

definition opened_disk :: Disk where
  "opened_disk = created_disk\<lparr>dk_wal := [(wal_file_name 1, FileHeader_encode sample_header)]\<rparr>"

lemma sample_wal_fresh: "Wal_open (\<lambda>_. 5) (\<lambda>_ _. False) f sample_header [] =
  Ok (\<lparr>wal_active = \<lparr>fw_header = sample_header, fw_len = FILE_HEADER_LEN\<rparr>, wal_active_number = 1\<rparr>, WalRecovery_default, [(wal_file_name 1, FileHeader_encode sample_header)])"
  by (simp add: Wal_open_def scan_dir_def list_numbers_def List.map_filter_simps dir_get_def dir_set_def FrameWriter_open_def open_trusted_def FILE_HEADER_LEN_def)

lemma gen1_not_temp: "\<not> is_temp_name (manifest_file_name 1)"
  by code_simp

lemma sample_loaded: "load_manifest sample_env created_disk = Ok (Some (sample_manifest\<lparr>mf_checksum := Some 5\<rparr>, []))"
proof -
  have m: "mf_format_version sample_manifest = MANIFEST_FORMAT_VERSION" "mf_segments sample_manifest = []"
    by (simp_all add: sample_manifest_def Manifest_initial_def)
  have "manifest_load_file (\<lambda>_. 5) sample_manifest_to_vec sample_manifest_from_slice ex [2] = Ok (sample_manifest\<lparr>mf_checksum := Some 5\<rparr>)" for ex
    by (simp add: manifest_load_file_def sample_manifest_from_slice_def compute_checksum_def canonical_bytes_def
      sample_manifest_to_vec_def sample_checksum m)
  then show ?thesis
    by (simp add: load_manifest_def load_latest_def created_disk_def list_generations_simps generation_of_file_name sample_env_def)
qed

lemma sample_opened: "db_open sample_env OpenOptions_default sample_open_io created_disk = (Ok opened_db, opened_disk)"
proof -
  have ident: "dk_identity created_disk = Some (1, 2)"
    by (simp add: created_disk_def)
  have clean: "remove_stale_temp_files created_disk = (created_disk, [])"
    using gen1_not_temp by (simp add: remove_stale_temp_files_def created_disk_def)
  have orph: "note_unreferenced_segments m (dk_segments created_disk) = []" for m
    by (simp add: note_unreferenced_segments_def created_disk_def)
  have keys: "note_missing_blob_keys (en_held sample_env) (oi_sample sample_open_io) = Ok []"
    by (simp add: note_missing_blob_keys_def sample_open_io_def)
  have wal: "recover_wal sample_env OpenOptions_default sample_open_io (dk_wal created_disk) =
      Ok (Some \<lparr>wal_active = \<lparr>fw_header = sample_header, fw_len = FILE_HEADER_LEN\<rparr>, wal_active_number = 1\<rparr>,
        WalRecovery_default, [(wal_file_name 1, FileHeader_encode sample_header)])"
    by (simp add: recover_wal_def OpenOptions_default_def sample_open_io_def created_disk_def sample_env_def sample_wal_fresh)
  have ro: "\<not> oo_read_only OpenOptions_default" "\<not> oi_locked sample_open_io"
    by (simp_all add: OpenOptions_default_def sample_open_io_def)
  have "open_existing sample_env OpenOptions_default sample_open_io 1 2 created_disk = (Ok opened_db, opened_disk)"
    using ro by (simp add: open_existing_def clean sample_loaded orph keys wal WalRecovery_default_def recovery_warnings_def
        collect_garbage_def require_writer_def opened_def sample_manifest_def Manifest_initial_def opened_db_def opened_disk_def)
  then show ?thesis
    using ro by (simp add: db_open_def ident)
qed

lemma sample_init: "db_init sample_env sample_reader (opened_db, opened_disk)"
proof -
  have "open_io_ok sample_env OpenOptions_default sample_open_io"
    by (simp add: open_io_ok_def sample_open_io_def note_missing_blob_keys_def)
  moreover have "\<not> oo_read_only OpenOptions_default"
    by (simp add: OpenOptions_default_def)
  moreover have "dk_identity created_disk \<noteq> None"
    by (simp add: created_disk_def)
  ultimately show ?thesis
    unfolding db_init_def using sample_env_ok sample_created sample_opened by (metis fst_conv snd_conv)
qed
definition sample_flush_io :: FlushIo where
  "sample_flush_io =
     \<lparr>fi_sync_ok = True, fi_segment_id = 9, fi_segment = PubAll, fi_rotate = RotateOk, fi_fresh = sample_header,
      fi_now = 1700000000000000, fi_manifest = MfAll, fi_prune_fails = \<lambda>_. False, fi_wal_rm_fails = \<lambda>_. False,
      fi_wal_sync_ok = True, fi_gc_fails = \<lambda>_. False\<rparr>"

lemma sample_flush_ok: "flush_io_ok sample_env opened_db opened_disk sample_flush_io"
  by (simp add: flush_io_ok_def sample_flush_io_def opened_db_def opened_def opened_disk_def created_disk_def sample_manifest_def Manifest_initial_def)

lemma sample_acceptable: "acceptable sample_event"
  by (simp add: acceptable_def canonical_event_def sample_event_def Event_new_def Provider_from_str_names)

definition stored_state :: "Database \<times> Disk" where
 "stored_state = snd (ingest sample_env (\<lambda>_. False) 1700000000000000 WriteAll True sample_flush_io [sample_event] opened_db opened_disk)"
lemma sample_stamp: "stamp sample_env 1700000000000000 opened_db sample_event = (0, sample_ingested, opened_db\<lparr>db_next_seq := 2, db_hlc := snd (hlc_next (resume_from 0) 1700000000000000)\<rparr>)"
  by (simp add: stamp_def sample_ingested_def opened_db_def opened_def sample_manifest_def Manifest_initial_def case_prod_beta
     apply_capture_mode_def sample_event_def Event_new_def sanitise_attrs_def sanitise_def Let_def persists_content_locally_def)

definition sample_record :: Record where
  "sample_record = \<lparr>r_type = record_type_EVENT, r_codec = CodecId_Json, r_flags = 0, r_payload = [1, 2, 3], r_offset = 0\<rparr>"

lemma sample_loop: "ingest_loop sample_env (\<lambda>_. False) (dk_segments opened_disk) 1700000000000000 [] IngestReport_default [] [] [sample_event] opened_db =
    (Ok (IngestReport_default, [sample_record], [sample_ingested]), opened_db\<lparr>db_next_seq := 2, db_hlc := snd (hlc_next (resume_from 0) 1700000000000000)\<rparr>)"
proof -
  have known: "is_known (\<lambda>_. False) (dk_segments opened_disk) eid opened_db = (Ok False, opened_db)" for eid
    by (simp add: is_known_def is_known_at_def opened_db_def opened_def MemTable_contains_def MemTable_new_def sample_manifest_def Manifest_initial_def)
  have rec: "Record_event (encode_event (en_to_vec sample_env)) sample_ingested = Ok sample_record"
    by (simp add: Record_event_def encode_event_def sample_env_def check_payload_len_def MAX_RECORD_PAYLOAD_def sample_record_def)
  show ?thesis
    by (simp add: known sample_stamp rec IngestReport_default_def)
qed

lemma opened_db_fields: "db_opts opened_db = OpenOptions_default" "db_memtable opened_db = MemTable_new"
    "db_wal opened_db = Some \<lparr>wal_active = \<lparr>fw_header = sample_header, fw_len = FILE_HEADER_LEN\<rparr>, wal_active_number = 1\<rparr>"
  by (simp_all add: opened_db_def opened_def)

lemma sample_ingest: "\<exists>rep. ingest sample_env (\<lambda>_. False) 1700000000000000 WriteAll True sample_flush_io [sample_event] opened_db opened_disk = (Ok rep, stored_state) \<and> ir_accepted rep = 1"
  and sample_stored: "mt_events (db_memtable (fst stored_state)) = [sample_ingested]" "db_manifest (fst stored_state) = db_manifest opened_db"
proof -
  let ?rep = "IngestReport_default\<lparr>ir_bytes := sum_list (map encoded_len [sample_record]), ir_accepted := 1\<rparr>"
  let ?r = "ingest sample_env (\<lambda>_. False) 1700000000000000 WriteAll True sample_flush_io [sample_event] opened_db opened_disk"
  have r: "fst ?r = Ok ?rep" "mt_events (db_memtable (fst (snd ?r))) = [sample_ingested]" "db_manifest (fst (snd ?r)) = db_manifest opened_db"
    unfolding ingest_def require_writer_def sample_loop opened_db_fields
    by (simp_all add: OpenOptions_default_def Wal_append_records_def FrameWriter_append_def Let_def opened_db_fields check_payload_len_def
      MAX_RECORD_PAYLOAD_def MemTable_len_def MemTable_push_def MemTable_new_def encoded_len_def RECORD_HEADER_LEN_def sample_record_def)
  then show "\<exists>rep. ?r = (Ok rep, stored_state) \<and> ir_accepted rep = 1"
    by (intro exI [of _ ?rep]) (simp add: stored_state_def prod_eq_iff)
  show "mt_events (db_memtable (fst stored_state)) = [sample_ingested]" "db_manifest (fst stored_state) = db_manifest opened_db"
    using r by (simp_all add: stored_state_def)
qed

lemma sample_open_ok: "\<not> oo_read_only OpenOptions_default" "open_io_ok sample_env OpenOptions_default sample_open_io"
  by (simp_all add: OpenOptions_default_def open_io_ok_def sample_open_io_def note_missing_blob_keys_def)

lemma sample_run: "dbs.run sample_env (opened_db, opened_disk) [OpIngest [sample_event]] stored_state"
proof -
  obtain rep where "ingest sample_env (\<lambda>_. False) 1700000000000000 WriteAll True sample_flush_io [sample_event] opened_db opened_disk =
      (Ok rep, stored_state)"
    using sample_ingest by blast
  then have "db_step sample_env (opened_db, opened_disk) (OpIngest [sample_event]) (fst stored_state, snd stored_state)"
    using sample_acceptable sample_flush_ok by (intro step_ingest) auto
  then show ?thesis
    by (auto intro: dbs.run.intros)
qed

text \<open>A handle with one segment.\<close>

lemma sample_segment_written: "\<exists>m d. write_segment_with sample_seg_env PubAll 9 [sample_event] None [] = (Ok m, d)"
  by (simp add: write_segment_with_def write_segment_impl_def build_row_def Builders_push_def RowRef_from_event_def
      sample_seg_env_def sample_serde_def sample_event_def Event_new_def to_text_def put_text_def push_content_def
      nonempty_content_def Let_def)

definition segment_disk :: Disk where
  "segment_disk = opened_disk\<lparr>dk_segments := snd (write_segment_with sample_seg_env PubAll 9 [sample_event] None [])\<rparr>"

definition segment_db :: Database where
  "segment_db = opened_db\<lparr>db_manifest := (db_manifest opened_db)\<lparr>mf_segments :=
     [projr (fst (write_segment_with sample_seg_env PubAll 9 [sample_event] None []))]\<rparr>\<rparr>"

lemma sample_segment_holds:
  "list_all2 (seg_holds sample_env sample_reader (dk_segments segment_disk)) (mf_segments (db_manifest segment_db)) [[sample_event]]"
proof -
  obtain m d where w: "write_segment_with sample_seg_env PubAll 9 [sample_event] None [] = (Ok m, d)"
    using sample_segment_written by blast
  have e: "en_seg sample_env = sample_seg_env" "en_sink sample_env = None" "env_ok sample_env sample_reader"
    using sample_env_ok by (simp_all add: sample_env_def codecs_ok_def)
  have "seg_holds sample_env sample_reader d m [sample_event]"
    using write_segment_with_Ok(1) [OF e(3), of "[sample_event]" PubAll 9 "[]" m d] sample_acceptable w
    by (simp add: e acceptable_def)
  then show ?thesis
    by (simp add: segment_disk_def segment_db_def w)
qed

section \<open>Theorems\<close>





text \<open>
  C5: a scan returns exactly the matching events. Skipping segments by their metadata (time window,
  projects, providers) loses nothing: the result is that of filtering every stored event, the
  segments' followed by the memtable's, sorted by clock and sequence number and cut to the newest
  \<open>limit\<close>.
\<close>

theorem db_scan_exact:
  assumes "env_ok env rd" and "list_all2 (seg_holds env rd (dk_segments disk)) (mf_segments (db_manifest db)) evss"
  shows "db_scan env (\<lambda>_. False) f db disk =
    Ok (scan_spec f (map stored_form (concat evss) @ mt_events (db_memtable db)))"
  by (rule db_scan_eq [OF assms])

theorem db_scan_exact_witness:
  "\<forall>f. db_scan sample_env (\<lambda>_. False) f segment_db segment_disk = Ok (scan_spec f [stored_form sample_event])"
proof -
  have "mt_events (db_memtable segment_db) = []"
    by (simp add: segment_db_def opened_db_def opened_def MemTable_new_def)
  then show ?thesis
    using db_scan_exact [OF _ sample_segment_holds] sample_env_ok by (simp add: codecs_ok_def)
qed



text \<open>
  C3: what an ingest does. Every event handed in is accounted for: it was stored before (by its id),
  it is stored now, or it is reported as rejected, and the counters add up. The new events are
  numbered consecutively from the next free number, have distinct new ids, and each is an event that
  was handed in with its order, time of ingestion, withheld content and sanitised metadata filled in
  and nothing else changed. What every scan shows grows by exactly these events.
\<close>

theorem ingest_contract:
  assumes "db_init env rd s" and "dbs.run env s ops (db, disk)" and "\<forall>ev \<in> set events. acceptable ev"
    and "clean_write io" and "oo_durability (db_opts db) = Strict \<longrightarrow> sync_ok" and "flush_io_ok env db disk fio"
    and "ingest env flt now io sync_ok fio events db disk = (Ok rep, db', disk')"
  shows "\<exists>olds news.
    (\<forall>f. view env f db disk = Ok (scan_spec f (map stored_form olds))) \<and>
    (\<forall>f. view env f db' disk' = Ok (scan_spec f (map stored_form (olds @ news)))) \<and>
    distinct (map ev_event_id (olds @ news)) \<and>
    map ev_source_seq news = [db_next_seq db..<db_next_seq db + length news] \<and>
    (\<forall>ev \<in> set news. \<exists>ev0 \<in> set events. ingested_from env ev0 ev) \<and>
    ir_accepted rep = length news \<and> ir_accepted rep + ir_duplicates rep + ir_rejected rep = length events \<and>
    (\<forall>ev \<in> set events. ev_event_id ev \<in> ev_event_id ` set (olds @ news) \<union> set (ir_rejected_ids rep))"
proof -
  have good: "db_good env rd (db, disk)"
    by (rule dbs.reachable_inv [OF assms(1,2)])
  then have codecs: "codecs_ok env rd" and eok: "env_ok env rd"
    by (simp_all add: db_good_def codecs_ok_def)
  obtain evss md evssd where inv: "db_inv env rd db disk evss md evssd"
    using good by (auto simp: db_good_def keeps_def)
  let ?olds = "concat evss @ mt_events (db_memtable db)"
  note h = handle_okD [OF db_invD(4) [OF inv]]
  obtain rs news where n: "batch_news env (ev_event_id ` set ?olds) (db_next_seq db) events rs news"
    "keeps env rd db' disk' (set ?olds \<union> set news)" "report_ok (ev_event_id ` set ?olds) events news rep"
    using ingest_keeps [OF codecs inv assms(3-7)] unfolding ingested_def by blast
  have ids: "distinct (map ev_event_id (?olds @ news))"
    by (rule news_distinct(3) [OF db_invD(4) [OF inv] n(1) order_refl])
  then have dist: "distinct ?olds" "distinct (?olds @ news)"
    by (metis distinct_map distinct_append)+
  have "view env f db disk = Ok (scan_spec f (map stored_form ?olds))" for f
    by (rule keeps_list [OF eok keepsI [OF inv] dist(1)])
  moreover have "view env f db' disk' = Ok (scan_spec f (map stored_form (?olds @ news)))" for f
    using keeps_list [OF eok _ dist(2), of db' disk' f] n(2) by (simp only: set_append)
  moreover have "\<forall>ev \<in> set events. ev_event_id ev \<in> ev_event_id ` set (?olds @ news) \<union> set (ir_rejected_ids rep)"
    using n(3) unfolding report_ok_def set_append [of ?olds news] image_Un [of _ "set ?olds" "set news"] by blast
  ultimately show ?thesis
    using ids n(1,3) unfolding report_ok_def batch_news_def by (intro exI [of _ ?olds] exI [of _ news]) blast
qed

theorem ingest_contract_witness:
  "\<exists>rep olds news.
    ingest sample_env (\<lambda>_. False) 1700000000000000 WriteAll True sample_flush_io [sample_event] opened_db opened_disk =
      (Ok rep, stored_state) \<and>
    (\<forall>f. view sample_env f (fst stored_state) (snd stored_state) = Ok (scan_spec f (map stored_form (olds @ news)))) \<and>
    length news = 1 \<and> ir_accepted rep = 1"
proof -
  obtain rep where rep: "ingest sample_env (\<lambda>_. False) 1700000000000000 WriteAll True sample_flush_io [sample_event] opened_db opened_disk =
      (Ok rep, fst stored_state, snd stored_state)" "ir_accepted rep = 1"
    using sample_ingest by auto
  have "\<forall>ev \<in> set [sample_event]. acceptable ev"
    using sample_acceptable by simp
  from ingest_contract [OF sample_init dbs.run.run_nil this _ _ sample_flush_ok rep(1)] obtain olds news where
    "\<forall>f. view sample_env f (fst stored_state) (snd stored_state) = Ok (scan_spec f (map stored_form (olds @ news)))"
    "ir_accepted rep = length news"
    by auto
  then show ?thesis
    using rep by (intro exI [of _ rep] exI [of _ olds] exI [of _ news]) simp
qed

end
