(* ===== verification/Purge.thy ===== *)
theory Purge
  imports Recovery
begin

text \<open>
  Rewriting segments without the rows a rule refuses (\<open>purge_some\<close>, \<open>purge_chunked\<close> and \<open>purge\<close> of
  \<open>attemptdb-storage/src/db.rs\<close>). A purge flushes, reads every listed segment, leaves clean ones alone and
  writes the others again in chunks of kept rows, one manifest generation per rewritten segment. The
  theorems say what a purge leaves, whether or not it fails half-way, provided the log holds no
  refused event, and what happens when it does.
\<close>

section \<open>The report and the arguments\<close>

definition PURGE_CHUNK_ROWS :: nat where
  "PURGE_CHUNK_ROWS = 16384"

record PurgeReport =
  pg_segments_rewritten :: nat
  pg_segments_removed :: nat
  pg_segments_written :: nat
  pg_events_kept :: nat
  pg_events_dropped :: nat
  pg_generation :: nat
  pg_clean_segments :: "uuid list"

definition PurgeReport_default :: PurgeReport where
  "PurgeReport_default =
     \<lparr>pg_segments_rewritten = 0, pg_segments_removed = 0, pg_segments_written = 0, pg_events_kept = 0,
      pg_events_dropped = 0, pg_generation = 0, pg_clean_segments = []\<rparr>"

definition absorb :: "PurgeReport \<Rightarrow> PurgeReport \<Rightarrow> PurgeReport" where
  "absorb rep other =
     \<lparr>pg_segments_rewritten = pg_segments_rewritten rep + pg_segments_rewritten other,
      pg_segments_removed = pg_segments_removed rep + pg_segments_removed other,
      pg_segments_written = pg_segments_written rep + pg_segments_written other,
      pg_events_kept = pg_events_kept rep + pg_events_kept other,
      pg_events_dropped = pg_events_dropped rep + pg_events_dropped other,
      pg_generation = max (pg_generation other) (pg_generation rep),
      pg_clean_segments = pg_clean_segments rep @ pg_clean_segments other\<rparr>"

text \<open>
  What the operating system does during a purge: the segment files that cannot be opened, how many rows
  of a segment the second pass gets before a read fails, the ids and the publications of the chunks
  written for a segment, and the publication of its generation.
\<close>

record PurgeIo =
  pi_flush :: FlushIo
  pi_read_fails :: "string \<Rightarrow> bool"
  pi_stream_fails :: "uuid \<Rightarrow> nat option"
  pi_segment_id :: "uuid \<Rightarrow> nat \<Rightarrow> uuid"
  pi_segment :: "uuid \<Rightarrow> nat \<Rightarrow> publish_io"
  pi_now :: "uuid \<Rightarrow> Timestamp"
  pi_manifest :: "uuid \<Rightarrow> manifest_io"
  pi_prune_fails :: "uuid \<Rightarrow> string \<Rightarrow> bool"
  pi_gc_fails :: "uuid \<Rightarrow> string \<Rightarrow> bool"

section \<open>One segment\<close>

text \<open>The first pass: how many rows, how many of them refused.\<close>

definition purge_first_pass ::
  "SegEnv \<Rightarrow> (string \<Rightarrow> bool) \<Rightarrow> seg_dir \<Rightarrow> (Event \<Rightarrow> bool) \<Rightarrow> SegmentMeta \<Rightarrow> storage_error + nat \<times> nat"
where
  "purge_first_pass env flt d keep meta =
     (case read_segment_events_with env flt None d (sm_file meta) of
        Err e \<Rightarrow> Err e
      | Ok evs \<Rightarrow>
          case find (\<lambda>ev. CANONICAL_SCHEMA_VERSION < ev_schema_version ev) evs of
            Some ev \<Rightarrow> Err (UnsupportedFormat ''event schema'' (ev_schema_version ev) CANONICAL_SCHEMA_VERSION)
          | None \<Rightarrow>
              if length evs \<noteq> sm_rows meta then Err (Corrupt ''segment'' ''row count'')
              else Ok (length evs, length (filter (\<lambda>ev. \<not> keep ev) evs)))"

text \<open>The closure \<open>write\<close>: the rows gathered so far become one more output.\<close>

definition purge_write ::
  "Env \<Rightarrow> PurgeIo \<Rightarrow> uuid \<Rightarrow> StoredRow list \<Rightarrow> (SegmentMeta \<times> IdSet) list \<Rightarrow> seg_dir \<Rightarrow>
   (storage_error + (SegmentMeta \<times> IdSet) list) \<times> seg_dir"
where
  "purge_write env io sid kept outputs d =
     (if kept = [] then (Ok outputs, d)
      else
        let k = length outputs in
        case write_segment_rows (en_seg env) (pi_segment io sid k) (pi_segment_id io sid k) kept (en_sink env) d of
          (Err e, d') \<Rightarrow> (Err e, d')
        | (Ok out, d') \<Rightarrow>
            (Ok (outputs @ [(out, IdSet_from_iter (map (\<lambda>r. ev_event_id (st_event r)) kept))]), d'))"

text \<open>The second pass over the rows, a chunk at a time; \<open>n\<close> rows can be read when the stream fails.\<close>

fun purge_stream ::
  "Env \<Rightarrow> PurgeIo \<Rightarrow> (Event \<Rightarrow> bool) \<Rightarrow> nat \<Rightarrow> uuid \<Rightarrow> nat option \<Rightarrow> StoredRow list \<Rightarrow> StoredRow list \<Rightarrow>
   (SegmentMeta \<times> IdSet) list \<Rightarrow> seg_dir \<Rightarrow> (storage_error + (SegmentMeta \<times> IdSet) list) \<times> seg_dir"
where
  "purge_stream env io keep chunk sid (Some 0) rows kept outputs d = (Err (Io OtherIo), d)"
| "purge_stream env io keep chunk sid n [] kept outputs d = purge_write env io sid kept outputs d"
| "purge_stream env io keep chunk sid n (r # rows) kept outputs d =
     (let n' = map_option (\<lambda>k. k - 1) n in
      if keep (st_event r) then
        let kept' = kept @ [r] in
        if chunk \<le> length kept' then
          case purge_write env io sid kept' outputs d of
            (Err e, d') \<Rightarrow> (Err e, d')
          | (Ok outputs', d') \<Rightarrow> purge_stream env io keep chunk sid n' rows [] outputs' d'
        else purge_stream env io keep chunk sid n' rows kept' outputs d
      else purge_stream env io keep chunk sid n' rows kept outputs d)"

definition purge_second_pass ::
  "Env \<Rightarrow> PurgeIo \<Rightarrow> (Event \<Rightarrow> bool) \<Rightarrow> nat \<Rightarrow> SegmentMeta \<Rightarrow> seg_dir \<Rightarrow>
   (storage_error + (SegmentMeta \<times> IdSet) list) \<times> seg_dir"
where
  "purge_second_pass env io keep chunk meta d =
     (case read_segment_rows (en_seg env) (pi_read_fails io) d (sm_file meta) of
        Err e \<Rightarrow> (Err e, d)
      | Ok rows \<Rightarrow>
          purge_stream env io keep chunk (sm_segment_id meta) (pi_stream_fails io (sm_segment_id meta)) rows [] [] d)"

definition purge_manifest :: "Timestamp \<Rightarrow> Manifest \<Rightarrow> SegmentMeta \<Rightarrow> SegmentMeta list \<Rightarrow> Manifest" where
  "purge_manifest now m meta outs =
     (let gen = mf_generation m + 1;
          position = (case seg_position (sm_segment_id meta) (mf_segments m) of Some i \<Rightarrow> i | None \<Rightarrow> 0)
      in m\<lparr>mf_generation := gen, mf_created_at := now,
           mf_segments := insert_at position outs (take position (mf_segments m) @ drop (Suc position) (mf_segments m)),
           mf_tombstones := mf_tombstones m @ [\<lparr>ts_file = sm_file meta, ts_since_generation = gen\<rparr>]\<rparr>)"

definition adopt_ids :: "(SegmentMeta \<times> IdSet) list \<Rightarrow> (uuid \<rightharpoonup> IdSet) \<Rightarrow> (uuid \<rightharpoonup> IdSet)" where
  "adopt_ids outputs m = foldl (\<lambda>m' (out, ids). m'(sm_segment_id out \<mapsto> ids)) m outputs"

text \<open>Rewriting a segment with refused rows.\<close>

definition purge_rewrite ::
  "Env \<Rightarrow> PurgeIo \<Rightarrow> (Event \<Rightarrow> bool) \<Rightarrow> nat \<Rightarrow> SegmentMeta \<Rightarrow> PurgeReport \<Rightarrow> Database \<Rightarrow> Disk \<Rightarrow>
   (storage_error + PurgeReport) \<times> Database \<times> Disk"
where
  "purge_rewrite env io keep chunk meta report db disk =
     (let sid = sm_segment_id meta in
      case purge_second_pass env io keep chunk meta (dk_segments disk) of
        (Err e, segs) \<Rightarrow> (Err e, db, disk\<lparr>dk_segments := segs\<rparr>)
      | (Ok outputs, segs) \<Rightarrow>
      case Manifest_write (en_crc env) (en_mf_to_vec env) (en_mf_pretty env) (pi_manifest io sid) (pi_prune_fails io sid)
             (purge_manifest (pi_now io sid) (db_manifest db) meta (map fst outputs)) (dk_manifest disk) of
        (Err e, mfdir) \<Rightarrow> (Err e, db, disk\<lparr>dk_segments := segs, dk_manifest := mfdir\<rparr>)
      | (Ok next, mfdir) \<Rightarrow>
          let db1 = db\<lparr>db_manifest := next, db_segment_ids := adopt_ids outputs ((db_segment_ids db)(sid := None))\<rparr>;
              report1 =
                (if outputs = [] then report\<lparr>pg_segments_removed := pg_segments_removed report + 1\<rparr>
                 else report\<lparr>pg_segments_rewritten := pg_segments_rewritten report + 1,
                             pg_segments_written := pg_segments_written report + length outputs,
                             pg_clean_segments := pg_clean_segments report @ map (\<lambda>(out, _). sm_segment_id out) outputs\<rparr>)
          in case collect_garbage (pi_gc_fails io sid) db1 (disk\<lparr>dk_segments := segs, dk_manifest := mfdir\<rparr>) of
               (Err e, db2, disk2) \<Rightarrow> (Err e, db2, disk2)
             | (Ok _, db2, disk2) \<Rightarrow> (Ok report1, db2, disk2))"

section \<open>The purge\<close>

fun purge_loop ::
  "Env \<Rightarrow> PurgeIo \<Rightarrow> (Event \<Rightarrow> bool) \<Rightarrow> nat \<Rightarrow> nat option \<Rightarrow> uuid list \<Rightarrow> nat \<Rightarrow> PurgeReport \<Rightarrow> Database \<Rightarrow> Disk \<Rightarrow>
   (storage_error + PurgeReport \<times> bool) \<times> Database \<times> Disk"
where
  "purge_loop env io keep chunk limit [] rewrites report db disk =
     (Ok (report\<lparr>pg_generation := mf_generation (db_manifest db)\<rparr>, True), db, disk)"
| "purge_loop env io keep chunk limit (sid # ids) rewrites report db disk =
     (if (case limit of Some n \<Rightarrow> n \<le> rewrites | None \<Rightarrow> False)
      then (Ok (report\<lparr>pg_generation := mf_generation (db_manifest db)\<rparr>, False), db, disk)
      else
        case find (\<lambda>s. sm_segment_id s = sid) (mf_segments (db_manifest db)) of
          None \<Rightarrow> purge_loop env io keep chunk limit ids rewrites report db disk
        | Some meta \<Rightarrow>
        case purge_first_pass (en_seg env) (pi_read_fails io) (dk_segments disk) keep meta of
          Err e \<Rightarrow> (Err e, db, disk)
        | Ok (seen, refused) \<Rightarrow>
            let report1 = report\<lparr>pg_events_kept := pg_events_kept report + (seen - refused)\<rparr> in
            if refused = 0 then
              purge_loop env io keep chunk limit ids rewrites
                (report1\<lparr>pg_clean_segments := pg_clean_segments report1 @ [sid]\<rparr>) db disk
            else
              case purge_rewrite env io keep chunk meta
                     (report1\<lparr>pg_events_dropped := pg_events_dropped report1 + refused\<rparr>) db disk of
                (Err e, db', disk') \<Rightarrow> (Err e, db', disk')
              | (Ok report', db', disk') \<Rightarrow> purge_loop env io keep chunk limit ids (Suc rewrites) report' db' disk')"

text \<open>One slice: at most \<open>limit\<close> rewrites (\<open>None\<close> for \<open>usize::MAX\<close>), the segments of \<open>skip\<close> not read.\<close>

definition purge_some ::
  "Env \<Rightarrow> PurgeIo \<Rightarrow> (Event \<Rightarrow> bool) \<Rightarrow> nat \<Rightarrow> nat option \<Rightarrow> uuid set \<Rightarrow> Database \<Rightarrow> Disk \<Rightarrow>
   (storage_error + PurgeReport \<times> bool) \<times> Database \<times> Disk"
where
  "purge_some env io keep chunk_rows limit skip db disk =
     (case require_writer db of
        Err e \<Rightarrow> (Err e, db, disk)
      | Ok _ \<Rightarrow>
      case flush env (pi_flush io) db disk of
        (Err e, db1, disk1) \<Rightarrow> (Err e, db1, disk1)
      | (Ok _, db1, disk1) \<Rightarrow>
          let ids = filter (\<lambda>sid. sid \<notin> skip) (map sm_segment_id (mf_segments (db_manifest db1)))
          in purge_loop env io keep (max chunk_rows 1) limit ids 0 PurgeReport_default db1 disk1)"

definition purge_chunked ::
  "Env \<Rightarrow> PurgeIo \<Rightarrow> (Event \<Rightarrow> bool) \<Rightarrow> nat \<Rightarrow> Database \<Rightarrow> Disk \<Rightarrow> (storage_error + PurgeReport) \<times> Database \<times> Disk"
where
  "purge_chunked env io keep chunk_rows db disk =
     (case purge_some env io keep chunk_rows None {} db disk of
        (Err e, db', disk') \<Rightarrow> (Err e, db', disk')
      | (Ok (report, _), db', disk') \<Rightarrow> (Ok report, db', disk'))"

definition purge :: "Env \<Rightarrow> PurgeIo \<Rightarrow> (Event \<Rightarrow> bool) \<Rightarrow> Database \<Rightarrow> Disk \<Rightarrow> (storage_error + PurgeReport) \<times> Database \<times> Disk" where
  "purge env io keep db disk = purge_chunked env io keep PURGE_CHUNK_ROWS db disk"

section \<open>The rows and the rule\<close>

text \<open>A rule that does not look at what a reader without keys may not see.\<close>

definition rule_ok :: "(Event \<Rightarrow> bool) \<Rightarrow> bool" where
  "rule_ok keep \<longleftrightarrow> (\<forall>ev c x. keep (ev\<lparr>ev_content := c, ev_raw := x\<rparr>) = keep ev)"

definition stored_row :: "Serde \<Rightarrow> blob_reader \<Rightarrow> Event \<Rightarrow> StoredRow \<Rightarrow> bool" where
  "stored_row sd rd ev sr \<longleftrightarrow> canonical_event ev \<and> (\<exists>r. sr = row_to_stored sd r \<and> row_ok sd rd ev r)"

lemma row_ok_plain:
  assumes "serde_ok sd" and "canonical_event ev" and "row_ok sd rd ev r"
  shows "\<exists>c x. row_to_event sd None (\<lambda>_. True) r = ev\<lparr>ev_content := c, ev_raw := x\<rparr>"
proof -
  from assms(3) obtain pt at cj rj cr rr ut where
    r: "r = canonical_row (common_cells ev pt at) cj rj cr rr (opt_str ut)"
    and a: "to_text (sd_paths sd) (if ev_paths ev = [] then None else Some (ev_paths ev)) = Ok pt"
      "sd_map sd (ev_attrs ev) = Some at"
      "to_text (sd_map sd) (if ev_unknown ev = [] then None else Some (ev_unknown ev)) = Ok ut"
    unfolding row_ok_def by blast
  note sd = serde_okD [OF assms(1)]
  have "row_to_event sd None (\<lambda>_. True) r = ev\<lparr>ev_content := (case cell_text cj of Some inl \<Rightarrow> sd_content_of sd inl | None \<Rightarrow> None),
      ev_raw := (case cell_text rj of Some inl \<Rightarrow> sd_value_of sd inl | None \<Rightarrow> None)\<rparr>"
    unfolding r row_to_event_canonical [OF assms(2)]
    by (simp only: no_reader cell_text_simps if_cancel to_text_back [OF a(1) sd(1)]
        to_text_back [OF a(3) sd(2)] sd(2) [OF a(2)] unwrap_or_simps) simp
  then show ?thesis
    by blast
qed

lemma stored_row_rule:
  assumes "serde_ok sd" and "rule_ok keep" and "stored_row sd rd ev sr"
  shows "keep (st_event sr) = keep ev" "ev_event_id (st_event sr) = ev_event_id ev" "source_row sd rd ev sr"
proof -
  obtain r where r: "canonical_event ev" "sr = row_to_stored sd r" "row_ok sd rd ev r"
    using assms(3) unfolding stored_row_def by blast
  then obtain c x where "st_event sr = ev\<lparr>ev_content := c, ev_raw := x\<rparr>"
    using row_ok_plain [OF assms(1) r(1,3)] by (auto simp: row_to_stored_def)
  then show "keep (st_event sr) = keep ev" "ev_event_id (st_event sr) = ev_event_id ev"
    using assms(2) by (simp_all add: rule_ok_def)
  show "source_row sd rd ev sr"
    using r by (auto simp: source_row_def)
qed

lemma seg_holds_stored:
  assumes "env_ok env rd" and "seg_holds env rd d s evs" and "read_segment_rows (en_seg env) flt d (sm_file s) = Ok srs"
  shows "list_all2 (stored_row (se_serde (en_seg env)) rd) evs srs"
proof -
  obtain f where f: "map_of d (sm_file s) = Some f" "file_ok (en_seg env) rd f evs" "\<forall>ev \<in> set evs. canonical_event ev"
    using assms(2) unfolding seg_holds_def by blast
  have sd: "serde_ok (se_serde (en_seg env))"
    using assms(1) by (simp add: env_ok_def)
  have "read_segment_rows (en_seg env) (\<lambda>_. False) d (sm_file s) = Ok srs"
    using assms(3) by (simp add: read_segment_rows_fault [of "en_seg env" flt] split: if_splits)
  then have "list_all2 (\<lambda>ev sr. \<exists>r. sr = row_to_stored (se_serde (en_seg env)) r \<and> row_ok (se_serde (en_seg env)) rd ev r) evs srs"
    using file_ok_read(3) [OF f(2,1) sd f(3)] by auto
  then show ?thesis
    using f(3) unfolding list_all2_conv_all_nth stored_row_def by (metis nth_mem)
qed

lemma stored_rows:
  assumes "serde_ok sd" and "rule_ok keep" and "list_all2 (stored_row sd rd) evs srs"
  shows "list_all2 (source_row sd rd) evs srs \<and> (\<forall>ev \<in> set evs. canonical_event ev) \<and>
    map (\<lambda>r. ev_event_id (st_event r)) srs = map ev_event_id evs"
  using assms(3)
proof (induction rule: list_all2_induct)
  case (Cons ev evs sr srs)
  then show ?case
    using stored_row_rule(2,3) [OF assms(1,2) Cons.hyps(1)] by (simp add: stored_row_def)
qed simp

lemma rows_events:
  "read_segment_events_with env flt None d name = map_sum id (map st_event) (read_segment_rows env flt d name)"
  by (simp add: read_segment_events_with_def read_segment_rows_def sum.map_comp row_to_stored_def comp_def id_def)

lemma first_pass_counts:
  assumes "env_ok env rd" and "rule_ok keep" and "seg_holds env rd d s evs"
    and "purge_first_pass (en_seg env) flt d keep s = Ok (seen, refused)"
  shows "seen = length evs" "refused = length (filter (\<lambda>ev. \<not> keep ev) evs)"
proof -
  have sd: "serde_ok (se_serde (en_seg env))"
    using assms(1) by (simp add: env_ok_def)
  obtain srs where srs: "read_segment_rows (en_seg env) flt d (sm_file s) = Ok srs"
    "seen = length srs" "refused = length (filter (\<lambda>sr. \<not> keep (st_event sr)) srs)"
    using assms(4) unfolding purge_first_pass_def rows_events
    by (cases "read_segment_rows (en_seg env) flt d (sm_file s)") (auto simp: filter_map comp_def split: option.splits if_splits)
  have st: "list_all2 (stored_row (se_serde (en_seg env)) rd) evs srs"
    by (rule seg_holds_stored [OF assms(1,3) srs(1)])
  then have "length (filter (\<lambda>sr. \<not> keep (st_event sr)) srs) = length (filter (\<lambda>ev. \<not> keep ev) evs)"
    by (induction rule: list_all2_induct) (auto simp: stored_row_rule(1) [OF sd assms(2)])
  then show "seen = length evs" "refused = length (filter (\<lambda>ev. \<not> keep ev) evs)"
    using srs list_all2_lengthD [OF st] by simp_all
qed

section \<open>The chunks\<close>

definition purge_names :: "Env \<Rightarrow> PurgeIo \<Rightarrow> uuid \<Rightarrow> nat \<Rightarrow> string set" where
  "purge_names env io sid n = (\<lambda>k. segment_file_name (en_seg env) (pi_segment_id io sid k)) ` {..<n}"

text \<open>The outputs written so far, and the events in them.\<close>

definition outs_ok ::
  "Env \<Rightarrow> blob_reader \<Rightarrow> PurgeIo \<Rightarrow> uuid \<Rightarrow> seg_dir \<Rightarrow> (SegmentMeta \<times> IdSet) list \<Rightarrow> Event list list \<Rightarrow> bool"
where
  "outs_ok env rd io sid d outputs ess \<longleftrightarrow>
     list_all2 (\<lambda>out es. seg_holds env rd d (fst out) es \<and> snd out = IdSet_from_iter (map ev_event_id es)) outputs ess \<and>
     (\<forall>k < length outputs. sm_segment_id (fst (outputs ! k)) = pi_segment_id io sid k \<and>
        sm_file (fst (outputs ! k)) = segment_file_name (en_seg env) (pi_segment_id io sid k))"

definition chunk_names_ok :: "Env \<Rightarrow> PurgeIo \<Rightarrow> uuid \<Rightarrow> nat \<Rightarrow> bool" where
  "chunk_names_ok env io sid n \<longleftrightarrow> inj_on (\<lambda>k. segment_file_name (en_seg env) (pi_segment_id io sid k)) {..<n}"

lemma outs_ok_frame:
  assumes "outs_ok env rd io sid d outputs ess"
    and "\<And>k. k < length outputs \<Longrightarrow> map_of d' (segment_file_name (en_seg env) (pi_segment_id io sid k)) =
      map_of d (segment_file_name (en_seg env) (pi_segment_id io sid k))"
  shows "outs_ok env rd io sid d' outputs ess"
proof -
  note o = assms(1) [unfolded outs_ok_def list_all2_conv_all_nth]
  have "seg_holds env rd d' (fst (outputs ! k)) (ess ! k)" if "k < length outputs" for k
    by (rule seg_holds_frame [of env rd d]) (use o assms(2) that in simp_all)
  then show ?thesis
    unfolding outs_ok_def list_all2_conv_all_nth using o by simp
qed

lemma purge_write_frame:
  assumes "purge_write env io sid kept outputs d = (res, d')" and "kept \<noteq> [] \<longrightarrow> length outputs < n"
    and "name \<notin> purge_names env io sid n" and "\<not> is_temp_name name"
  shows "map_of d' name = map_of d name"
proof (cases "kept = []")
  case True
  then show ?thesis
    using assms(1) by (simp add: purge_write_def)
next
  case False
  let ?k = "length outputs"
  let ?f = "segment_file_name (en_seg env) (pi_segment_id io sid ?k)"
  have "?f \<in> purge_names env io sid n"
    unfolding purge_names_def using assms(2) False by blast
  then have ne: "name \<noteq> ?f" "name \<noteq> ?f @ ''.tmp''"
    using assms(3,4) segment_names(2) [of "en_seg env" "pi_segment_id io sid ?k"] by metis+
  obtain r d1 where w: "write_segment_rows (en_seg env) (pi_segment io sid ?k) (pi_segment_id io sid ?k) kept (en_sink env) d = (r, d1)"
    by (cases "write_segment_rows (en_seg env) (pi_segment io sid ?k) (pi_segment_id io sid ?k) kept (en_sink env) d")
  have "map_of d1 name = map_of d name"
    using w write_segment_impl_frame [OF _ ne] by (auto simp: write_segment_rows_def Let_def split: if_splits)
  moreover have "d' = d1"
    using assms(1) False w by (auto simp: purge_write_def Let_def split: sum.splits)
  ultimately show ?thesis
    by simp
qed

lemma purge_write_Ok:
  assumes "env_ok env rd" and "rule_ok keep" and "outs_ok env rd io sid d outputs ess"
    and "list_all2 (stored_row (se_serde (en_seg env)) rd) evs kept" and "chunk_names_ok env io sid n"
    and "kept \<noteq> [] \<longrightarrow> length outputs < n" and "purge_write env io sid kept outputs d = (Ok outputs', d')"
  shows "\<exists>ess'. outs_ok env rd io sid d' outputs' ess' \<and> concat ess' = concat ess @ evs \<and>
    length outputs' = (if kept = [] then length outputs else Suc (length outputs))"
proof (cases "kept = []")
  case True
  then have "outputs' = outputs" "d' = d" "evs = []"
    using assms(4,7) by (auto simp: purge_write_def)
  then show ?thesis
    using assms(3) True by auto
next
  case False
  let ?k = "length outputs" and ?name = "\<lambda>k. segment_file_name (en_seg env) (pi_segment_id io sid k)"
  have sd: "serde_ok (se_serde (en_seg env))"
    using assms(1) by (simp add: env_ok_def)
  obtain out where w: "write_segment_rows (en_seg env) (pi_segment io sid ?k) (pi_segment_id io sid ?k) kept (en_sink env) d = (Ok out, d')"
    and o: "outputs' = outputs @ [(out, IdSet_from_iter (map (\<lambda>r. ev_event_id (st_event r)) kept))]"
    using assms(7) False by (auto simp: purge_write_def Let_def split: prod.splits sum.splits)
  have rows: "list_all2 (source_row (se_serde (en_seg env)) rd) evs kept" "\<forall>ev \<in> set evs. canonical_event ev"
    "map (\<lambda>r. ev_event_id (st_event r)) kept = map ev_event_id evs"
    using stored_rows [OF sd assms(2,4)] by blast+
  note m = write_segment_rows_Ok [OF assms(1) rows(1,2) w]
  have other: "map_of d' (?name k) = map_of d (?name k)" if "k < length outputs" for k
  proof -
    have "?name k \<noteq> ?name ?k"
      using assms(5,6) False that unfolding chunk_names_ok_def inj_on_def by auto
    moreover have "?name k \<noteq> ?name ?k @ ''.tmp''"
      using segment_names [of "en_seg env"] by metis
    ultimately show ?thesis
      using w write_segment_impl_frame by (auto simp: write_segment_rows_def Let_def split: if_splits)
  qed
  have "outs_ok env rd io sid d' outputs ess"
    by (rule outs_ok_frame [OF assms(3) other])
  then have "outs_ok env rd io sid d' outputs' (ess @ [evs])"
    using m rows(3) by (auto simp: outs_ok_def o nth_append less_Suc_eq intro!: list_all2_appendI)
  then show ?thesis
    using False by (intro exI [of _ "ess @ [evs]"]) (simp add: o)
qed

lemma purge_stream_open:
  assumes "lim \<noteq> Some 0"
  shows "purge_stream env io keep chunk sid lim [] kept outputs d = purge_write env io sid kept outputs d"
    and "purge_stream env io keep chunk sid lim (r # rows) kept outputs d =
      (let lim' = map_option (\<lambda>k. k - 1) lim in
       if keep (st_event r) then
         let kept' = kept @ [r] in
         if chunk \<le> length kept' then
           case purge_write env io sid kept' outputs d of
             (Err e, d') \<Rightarrow> (Err e, d')
           | (Ok outputs', d') \<Rightarrow> purge_stream env io keep chunk sid lim' rows [] outputs' d'
         else purge_stream env io keep chunk sid lim' rows kept' outputs d
       else purge_stream env io keep chunk sid lim' rows kept outputs d)"
proof -
  consider "lim = None" | k where "lim = Some (Suc k)"
    using assms by (cases lim) (auto simp: gr0_conv_Suc)
  then show "purge_stream env io keep chunk sid lim [] kept outputs d = purge_write env io sid kept outputs d"
    "purge_stream env io keep chunk sid lim (r # rows) kept outputs d =
      (let lim' = map_option (\<lambda>k. k - 1) lim in
       if keep (st_event r) then
         let kept' = kept @ [r] in
         if chunk \<le> length kept' then
           case purge_write env io sid kept' outputs d of
             (Err e, d') \<Rightarrow> (Err e, d')
           | (Ok outputs', d') \<Rightarrow> purge_stream env io keep chunk sid lim' rows [] outputs' d'
         else purge_stream env io keep chunk sid lim' rows kept' outputs d
       else purge_stream env io keep chunk sid lim' rows kept outputs d)"
    by (cases; simp)+
qed

lemma purge_stream_effect:
  assumes "env_ok env rd" and "rule_ok keep" and "chunk_names_ok env io sid n"
    and "outs_ok env rd io sid d outputs ess" and "list_all2 (stored_row (se_serde (en_seg env)) rd) evs rows"
    and "list_all2 (stored_row (se_serde (en_seg env)) rd) es kept" and "length outputs + length kept + length rows \<le> n"
    and "purge_stream env io keep chunk sid lim rows kept outputs d = (res, d')"
  shows "(\<forall>name. name \<notin> purge_names env io sid n \<longrightarrow> \<not> is_temp_name name \<longrightarrow> map_of d' name = map_of d name) \<and>
    (\<forall>outs. res = Ok outs \<longrightarrow>
       (\<exists>ess'. outs_ok env rd io sid d' outs ess' \<and> concat ess' = concat ess @ es @ filter keep evs \<and> length outs \<le> n))"
  using assms(4-8)
proof (induction rows arbitrary: lim kept outputs d ess evs es)
  case Nil
  show ?case
  proof (cases "lim = Some 0")
    case False
    then have w: "purge_write env io sid kept outputs d = (res, d')"
      using Nil.prems(5) by (simp add: purge_stream_open)
    have lt: "kept \<noteq> [] \<longrightarrow> length outputs < n"
      using Nil.prems(4) by (cases kept) auto
    have "\<exists>ess'. outs_ok env rd io sid d' outs ess' \<and> concat ess' = concat ess @ es @ filter keep evs \<and> length outs \<le> n"
      if ok: "res = Ok outs" for outs
    proof -
      obtain ess' where "outs_ok env rd io sid d' outs ess'" "concat ess' = concat ess @ es" 
        "length outs = (if kept = [] then length outputs else Suc (length outputs))"
        using purge_write_Ok [OF assms(1,2) Nil.prems(1,3) assms(3) lt w [unfolded ok]] by blast
      then show ?thesis
        using Nil.prems(2,4) lt by (intro exI [of _ ess']) auto
    qed
    then show ?thesis
      using purge_write_frame [OF w lt] by blast
  qed (use Nil.prems(5) in auto)
next
  case (Cons r rows)
  obtain ev evs' where ev: "evs = ev # evs'" "stored_row (se_serde (en_seg env)) rd ev r"
    "list_all2 (stored_row (se_serde (en_seg env)) rd) evs' rows"
    using Cons.prems(2) by (auto simp: list_all2_Cons2)
  have sd: "serde_ok (se_serde (en_seg env))"
    using assms(1) by (simp add: env_ok_def)
  note rule = stored_row_rule(1) [OF sd assms(2) ev(2)]
  let ?lim = "map_option (\<lambda>k. k - 1) lim"
  have more: "list_all2 (stored_row (se_serde (en_seg env)) rd) (es @ [ev]) (kept @ [r])"
    using Cons.prems(3) ev(2) by (simp add: list_all2_appendI)
  consider (fail) "lim = Some 0" | (skip) "lim \<noteq> Some 0" "\<not> keep ev" | (gather) "lim \<noteq> Some 0" "keep ev" "length kept + 1 < chunk"
    | (full) "lim \<noteq> Some 0" "keep ev" "chunk \<le> length kept + 1"
    by linarith
  then show ?case
  proof cases
    case fail
    then show ?thesis
      using Cons.prems(5) by auto
  next
    case skip
    have "purge_stream env io keep chunk sid ?lim rows kept outputs d = (res, d')"
      using Cons.prems(5) skip rule by (simp add: purge_stream_open Let_def)
    from Cons.IH [OF Cons.prems(1) ev(3) Cons.prems(3) _ this] show ?thesis
      using Cons.prems(4) skip by (simp add: ev(1))
  next
    case gather
    have "purge_stream env io keep chunk sid ?lim rows (kept @ [r]) outputs d = (res, d')"
      using Cons.prems(5) gather rule by (simp add: purge_stream_open Let_def)
    from Cons.IH [OF Cons.prems(1) ev(3) more _ this] show ?thesis
      using Cons.prems(4) gather by (simp add: ev(1))
  next
    case full
    obtain r1 d1 where w: "purge_write env io sid (kept @ [r]) outputs d = (r1, d1)"
      by (cases "purge_write env io sid (kept @ [r]) outputs d")
    have lt: "kept @ [r] \<noteq> [] \<longrightarrow> length outputs < n"
      using Cons.prems(4) by simp
    note fr = purge_write_frame [OF w lt]
    show ?thesis
    proof (cases r1)
      case (Inl e)
      then have "res = Err e" "d' = d1"
        using Cons.prems(5) full rule w by (simp_all add: purge_stream_open Let_def)
      then show ?thesis
        using fr by simp
    next
      case (Inr outputs')
      have st: "purge_stream env io keep chunk sid ?lim rows [] outputs' d1 = (res, d')"
        using Cons.prems(5) full rule w Inr by (simp add: purge_stream_open Let_def)
      obtain ess1 where o: "outs_ok env rd io sid d1 outputs' ess1" "concat ess1 = concat ess @ es @ [ev]"
        "length outputs' = Suc (length outputs)"
        using purge_write_Ok [OF assms(1,2) Cons.prems(1) more assms(3) lt w [unfolded Inr]] by auto
      from Cons.IH [OF o(1) ev(3) list.rel_intros(1) _ st] show ?thesis
        using Cons.prems(4) full fr o by (simp add: ev(1))
    qed
  qed
qed

section \<open>Publishing a smaller generation\<close>

lemma distinct_submset:
  assumes "mset xs \<subseteq># mset ys" and "distinct (map f ys)"
  shows "distinct (map f xs)"
proof -
  obtain zs where "mset zs = mset ys - mset xs"
    using ex_mset by blast
  then have "mset (xs @ zs) = mset ys"
    using assms(1) by simp
  then have "distinct (map f (xs @ zs))"
    using assms(2) mset_eq_imp_distinct_iff [of "map f (xs @ zs)" "map f ys"] by (metis mset_map)
  then show ?thesis
    by simp
qed

lemma drop_inv:
  assumes "db_inv env rd db disk evss md evssd" and "mt_events (db_memtable db) = []"
    and "manifest_ok env rd (dk_segments disk) m evss'" and "mf_generation m = Suc (mf_generation (db_manifest db))"
    and "mf_last_source_seq m = mf_last_source_seq (db_manifest db)" and "mset (concat evss') \<subseteq># mset (concat evss)"
    and "set (wal_events (en_crc env) (en_from_slice env) (dk_wal disk)) \<subseteq> set (concat evss')"
    and "newest env mfdir m" and "cache_ok (db\<lparr>db_manifest := m, db_segment_ids := c\<rparr>) evss'"
  shows "db_inv env rd (db\<lparr>db_manifest := m, db_segment_ids := c\<rparr>) (disk\<lparr>dk_manifest := mfdir\<rparr>) evss' m evss'"
proof -
  note inv = db_invD [OF assms(1)]
  note h = handle_okD [OF inv(4)]
  have d: "distinct (map ev_event_id (concat evss'))" "distinct (map ev_source_seq (concat evss'))"
    using distinct_submset [OF assms(6)] h(4,5) assms(2) by simp_all
  have sub: "set (concat evss') \<subseteq> set (concat evss)"
    using set_mset_mono [OF assms(6)] by simp
  have lt: "mf_last_source_seq m < db_next_seq db"
    using h(9) by (simp add: assms(5))
  have e: "disk_events_ok env (dk_wal disk) m (concat evss') [] (concat evss')"
    unfolding disk_events_ok_def using d(1) assms(7) by (simp add: subset_iff)
  have "handle_ok env rd (db\<lparr>db_manifest := m, db_segment_ids := c\<rparr>) (dk_segments disk) evss'"
    unfolding handle_ok_def using assms(3,9) h(3,6) sub d lt assms(2) by auto
  then show ?thesis
    unfolding db_inv_def using inv(1-3) assms(2,3,8) manifest_okD(3) [OF assms(3)] lt e by simp
qed

lemma purge_replaces:
  assumes "mf_segments m = xs @ s # ys" and "distinct (map sm_segment_id (mf_segments m))"
    and "m'\<lparr>mf_checksum := None\<rparr> = (purge_manifest now m s outs)\<lparr>mf_checksum := None\<rparr>"
  shows "replaces m xs [s] outs ys m'"
proof -
  have pos: "seg_position (sm_segment_id s) (mf_segments m) = Some (length xs)"
    using assms(2) by (simp add: assms(1) seg_position_append)
  have f: "g m' = g (purge_manifest now m s outs)"
    if "\<And>x. g (x\<lparr>mf_checksum := None\<rparr>) = g x" for g :: "Manifest \<Rightarrow> 'b"
    using arg_cong [OF assms(3), of g] that by simp
  show ?thesis
    unfolding replaces_def
    using assms(1) pos f [of mf_segments] f [of mf_tombstones] f [of mf_last_source_seq] f [of mf_format_version] f [of mf_generation]
    by (auto simp: purge_manifest_def Let_def insert_at_def)
qed

text \<open>The supply of names for the outputs: none is in use, none is handed out twice.\<close>

definition purge_fresh :: "Env \<Rightarrow> PurgeIo \<Rightarrow> uuid set \<Rightarrow> nat \<Rightarrow> Manifest \<Rightarrow> seg_dir \<Rightarrow> bool" where
  "purge_fresh env io ids n m d \<longleftrightarrow>
     inj_on (\<lambda>(sid, k). segment_file_name (en_seg env) (pi_segment_id io sid k)) (ids \<times> {..<n}) \<and>
     (\<forall>sid \<in> ids. \<forall>k < n.
        map_of d (segment_file_name (en_seg env) (pi_segment_id io sid k)) = None \<and>
        pi_segment_id io sid k \<notin> sm_segment_id ` set (mf_segments m) \<and>
        segment_file_name (en_seg env) (pi_segment_id io sid k) \<notin> (\<lambda>t. base_name (ts_file t)) ` set (mf_tombstones m))"

lemma fresh_chunk_names:
  assumes "purge_fresh env io ids n m d" and "sid \<in> ids"
  shows "chunk_names_ok env io sid n"
  unfolding chunk_names_ok_def
proof (rule inj_onI)
  fix j k
  assume "j \<in> {..<n}" "k \<in> {..<n}"
    "segment_file_name (en_seg env) (pi_segment_id io sid j) = segment_file_name (en_seg env) (pi_segment_id io sid k)"
  then show "j = k"
    using inj_onD [OF conjunct1 [OF assms(1) [unfolded purge_fresh_def]], of "(sid, j)" "(sid, k)"] assms(2) by simp
qed

lemma fresh_outputs_ok:
  assumes "env_ok env rd" and "manifest_ok env rd d m evss" and "purge_fresh env io ids n m d" and "sid \<in> ids"
    and "outs_ok env rd io sid d' outputs ess" and "length outputs \<le> n"
  shows "outputs_ok env rd d' m (map fst outputs) ess"
proof -
  note fr = assms(3) [unfolded purge_fresh_def]
  note o = assms(5) [unfolded outs_ok_def]
  let ?name = "\<lambda>k. segment_file_name (en_seg env) (pi_segment_id io sid k)"
  have sid: "map sm_segment_id (map fst outputs) = map (pi_segment_id io sid) [0..<length outputs]"
    and files: "map sm_file (map fst outputs) = map ?name [0..<length outputs]"
    using o by (auto intro: nth_equalityI)
  have inj: "inj_on ?name {..<length outputs}"
    using fresh_chunk_names [OF assms(3,4)] assms(6) unfolding chunk_names_ok_def by (auto intro: inj_on_subset)
  then have "inj_on (pi_segment_id io sid) {..<length outputs}"
    by (auto simp: inj_on_def)
  then have d: "distinct (map sm_segment_id (map fst outputs))" "distinct (map sm_file (map fst outputs))"
    unfolding sid files using inj by (simp_all add: distinct_map atLeast_upt)
  have ids: "sm_segment_id ` set (map fst outputs) = pi_segment_id io sid ` {..<length outputs}"
    "sm_file ` set (map fst outputs) = ?name ` {..<length outputs}"
    using arg_cong [OF sid, of set] arg_cong [OF files, of set] by (simp_all add: atLeast_upt image_image)
  have k: "map_of d (?name k) = None" "pi_segment_id io sid k \<notin> sm_segment_id ` set (mf_segments m)"
    "?name k \<notin> (\<lambda>t. base_name (ts_file t)) ` set (mf_tombstones m)" if "k < length outputs" for k
    using fr assms(4,6) that by auto
  have new: "?name k \<notin> sm_file ` set (mf_segments m)" if "k < length outputs" for k
    using k(1) [OF that] manifest_ok_exists [OF assms(2)] unfolding map_of_eq_None_iff by auto
  have plain: "\<not> is_temp_name f \<and> base_name f = f" if "f \<in> sm_file ` set (map fst outputs)" for f
  proof -
    obtain k where f: "f = ?name k"
      using \<open>f \<in> sm_file ` set (map fst outputs)\<close> unfolding ids by blast
    have "CHR ''/'' \<notin> set f"
      using assms(1) by (simp add: env_ok_def segment_file_name_def f)
    then show ?thesis
      using segment_names(1) by (simp add: base_name_plain f)
  qed
  note old = manifest_okD(7) [OF assms(2), unfolded names_ok_def]
  have "sm_file ` set (mf_segments m) \<inter> sm_file ` set (map fst outputs) = {}"
    unfolding ids disjoint_iff using new by blast
  then have "distinct (map sm_file (mf_segments m @ map fst outputs))"
    using old d(2) by (simp only: map_append distinct_append set_map)
  moreover have "\<forall>s \<in> set (mf_segments m @ map fst outputs). \<not> is_temp_name (sm_file s) \<and> base_name (sm_file s) = sm_file s"
    using old plain by (metis UnE imageI set_append)
  ultimately have "names_ok (mf_segments m @ map fst outputs)"
    unfolding names_ok_def by blast
  moreover have "list_all2 (seg_holds env rd d') (map fst outputs) ess"
    using o by (auto simp: list_all2_conv_all_nth)
  ultimately show ?thesis
    unfolding outputs_ok_def ids using d(1) k(2,3) by auto
qed

text \<open>Names handed out to one segment are not those of another.\<close>

lemma fresh_other:
  assumes "purge_fresh env io ids n m d" and "sid \<in> ids" and "sid' \<in> ids" and "sid' \<noteq> sid" and "k < n"
  shows "segment_file_name (en_seg env) (pi_segment_id io sid' k) \<notin> purge_names env io sid n"
    and "pi_segment_id io sid' k \<notin> pi_segment_id io sid ` {..<n}"
proof -
  have "segment_file_name (en_seg env) (pi_segment_id io sid' k) \<noteq> segment_file_name (en_seg env) (pi_segment_id io sid j)"
    if "j < n" for j
    using assms that unfolding purge_fresh_def inj_on_def by force
  then show "segment_file_name (en_seg env) (pi_segment_id io sid' k) \<notin> purge_names env io sid n"
    "pi_segment_id io sid' k \<notin> pi_segment_id io sid ` {..<n}"
    unfolding purge_names_def by auto metis
qed

lemma adopt_ids_other: "sid \<notin> (\<lambda>out. sm_segment_id (fst out)) ` set outputs \<Longrightarrow> adopt_ids outputs m sid = m sid"
  unfolding adopt_ids_def by (induction outputs arbitrary: m) auto

lemma adopt_ids_output:
  "distinct (map (\<lambda>out. sm_segment_id (fst out)) outputs) \<Longrightarrow> (out, ids) \<in> set outputs \<Longrightarrow>
   adopt_ids outputs m (sm_segment_id out) = Some ids"
proof (induction outputs arbitrary: m)
  case (Cons x outputs)
  show ?case
  proof (cases "x = (out, ids)")
    case True
    then have "sm_segment_id out \<notin> (\<lambda>out. sm_segment_id (fst out)) ` set outputs"
      using Cons.prems(1) by auto
    then show ?thesis
      using adopt_ids_other [of "sm_segment_id out" outputs "m(sm_segment_id out \<mapsto> ids)"] True by (simp add: adopt_ids_def)
  next
    case False
    then show ?thesis
      using Cons by (cases x) (auto simp: adopt_ids_def)
  qed
qed simp

text \<open>What an interrupted purge may leave: every kept event, and nothing that was not there.\<close>

definition between :: "(Event \<Rightarrow> bool) \<Rightarrow> Event set \<Rightarrow> Event set \<Rightarrow> bool" where
  "between keep A B \<longleftrightarrow> {ev \<in> A. keep ev} \<subseteq> B \<and> B \<subseteq> A"

lemma between_refl [simp]: "between keep A A"
  by (auto simp: between_def)

lemma between_trans: "between keep A B \<Longrightarrow> between keep B C \<Longrightarrow> between keep A C"
  by (auto simp: between_def)

definition recovers :: "Env \<Rightarrow> blob_reader \<Rightarrow> Disk \<Rightarrow> (Event \<Rightarrow> bool) \<Rightarrow> Event set \<Rightarrow> bool" where
  "recovers env rd disk keep A \<longleftrightarrow> (\<exists>md evssd B. disk_inv env rd disk md evssd B \<and> between keep A B)"

lemma recoversI: "db_inv env rd db disk evss md evssd \<Longrightarrow>
    between keep A (set (concat evss @ mt_events (db_memtable db))) \<Longrightarrow> recovers env rd disk keep A"
  unfolding recovers_def using db_inv_disk by blast

lemma dropped_publish:
  assumes "env_ok env rd" and "db_inv env rd db disk evss md evssd" and "mt_events (db_memtable db) = []"
    and "Suc (mf_generation (db_manifest db)) < 2 ^ 64"
    and "\<And>m. m\<lparr>mf_checksum := None\<rparr> = nxt\<lparr>mf_checksum := None\<rparr> \<Longrightarrow> replaces (db_manifest db) xs ins outs ys m"
    and "outputs_ok env rd (dk_segments disk) (db_manifest db) outs eo"
    and "evss = ex @ ei @ ey" and "length ex = length xs" and "length ei = length ins"
    and "concat eo = filter keep (concat ei)"
    and "\<And>s evs. (s, evs) \<in> set (zip outs eo) \<Longrightarrow> c (sm_segment_id s) = Some (IdSet_from_iter (map ev_event_id evs))"
    and "\<And>sid. sid \<notin> sm_segment_id ` set ins \<Longrightarrow> sid \<notin> sm_segment_id ` set outs \<Longrightarrow> c sid = db_segment_ids db sid"
    and "\<forall>ev \<in> set (wal_events (en_crc env) (en_from_slice env) (dk_wal disk)). keep ev"
    and "Manifest_write (en_crc env) (en_mf_to_vec env) (en_mf_pretty env) io rmfail nxt (dk_manifest disk) = (res, mfdir)"
  shows "recovers env rd (disk\<lparr>dk_manifest := mfdir\<rparr>) keep (set (concat evss))"
    and "res = Ok m \<Longrightarrow> replaces (db_manifest db) xs ins outs ys m \<and>
      db_inv env rd (db\<lparr>db_manifest := m, db_segment_ids := c\<rparr>) (disk\<lparr>dk_manifest := mfdir\<rparr>) (ex @ eo @ ey) m (ex @ eo @ ey)"
proof -
  note inv = db_invD [OF assms(2)]
  let ?W = "set (wal_events (en_crc env) (en_from_slice env) (dk_wal disk))"
  have sub: "set (concat eo) \<subseteq> set (concat ei)" "mset (concat (ex @ eo @ ey)) \<subseteq># mset (concat evss)"
    by (auto simp: assms(7,10) multiset_filter_subset)
  have btw: "between keep (set (concat evss)) (set (concat (ex @ eo @ ey)))"
    unfolding between_def assms(7) concat_append set_append assms(10) by auto
  have "?W \<subseteq> set (concat evss)"
    using inv(11) assms(3) unfolding disk_events_ok_def by auto
  then have W: "?W \<subseteq> set (concat (ex @ eo @ ey))"
    using assms(13) unfolding assms(7) concat_append set_append assms(10) by auto
  have nxt: "replaces (db_manifest db) xs ins outs ys nxt"
    by (rule assms(5)) simp
  then have g: "mf_generation nxt = Suc (mf_generation (db_manifest db))" "mf_format_version nxt = mf_format_version (db_manifest db)"
    by (simp_all add: replaces_def)
  have new: "replaces (db_manifest db) xs ins outs ys m'"
    "db_inv env rd (db\<lparr>db_manifest := m', db_segment_ids := c\<rparr>) (disk\<lparr>dk_manifest := mfdir\<rparr>) (ex @ eo @ ey) m' (ex @ eo @ ey)"
    if m: "m'\<lparr>mf_checksum := None\<rparr> = nxt\<lparr>mf_checksum := None\<rparr>" "newest env mfdir m'" for m'
  proof -
    show rep: "replaces (db_manifest db) xs ins outs ys m'"
      by (rule assms(5) [OF m(1)])
    note ok = replaces_manifest_ok [OF handle_okD(1) [OF inv(4)] rep assms(6-9) sub(1) assms(4)]
    note cache = replaces_cache_ok [OF inv(4) rep assms(6-9,11,12)]
    show "db_inv env rd (db\<lparr>db_manifest := m', db_segment_ids := c\<rparr>) (disk\<lparr>dk_manifest := mfdir\<rparr>) (ex @ eo @ ey) m' (ex @ eo @ ey)"
      using rep drop_inv [OF assms(2,3) ok(1) _ _ sub(2) W m(2) cache] by (simp add: replaces_def)
  qed
  from publish_effect [OF assms(1,2,4) g assms(14)]
  consider (same) "\<exists>e. res = Err e" "newest env mfdir md"
    | (new) m' where "m'\<lparr>mf_checksum := None\<rparr> = nxt\<lparr>mf_checksum := None\<rparr>" "newest env mfdir m'" "(\<exists>e. res = Err e) \<or> res = Ok m'"
    by blast
  note cs = this
  show "recovers env rd (disk\<lparr>dk_manifest := mfdir\<rparr>) keep (set (concat evss))"
    using cs recoversI [OF db_inv_manifest_dir [OF assms(2)]] recoversI [OF new(2)] btw by cases (auto simp: assms(3))
  show "replaces (db_manifest db) xs ins outs ys m \<and>
      db_inv env rd (db\<lparr>db_manifest := m, db_segment_ids := c\<rparr>) (disk\<lparr>dk_manifest := mfdir\<rparr>) (ex @ eo @ ey) m (ex @ eo @ ey)"
    if "res = Ok m"
    using cs that new by cases auto
qed

section \<open>Rewriting one segment\<close>

text \<open>The segments that hold a refused event.\<close>

definition dirty :: "(Event \<Rightarrow> bool) \<Rightarrow> SegmentMeta list \<Rightarrow> Event list list \<Rightarrow> uuid set" where
  "dirty keep segs evss = {sm_segment_id s | s evs. (s, evs) \<in> set (zip segs evss) \<and> (\<exists>ev \<in> set evs. \<not> keep ev)}"

text \<open>The state between two segments of a purge.\<close>

definition purge_state ::
  "Env \<Rightarrow> blob_reader \<Rightarrow> PurgeIo \<Rightarrow> (Event \<Rightarrow> bool) \<Rightarrow> uuid set \<Rightarrow> nat \<Rightarrow> Database \<Rightarrow> Disk \<Rightarrow> Event list list \<Rightarrow> bool"
where
  "purge_state env rd io keep ids n db disk evss \<longleftrightarrow>
     (\<exists>md evssd. db_inv env rd db disk evss md evssd) \<and> mt_events (db_memtable db) = [] \<and>
     purge_fresh env io ids n (db_manifest db) (dk_segments disk) \<and>
     (\<forall>s \<in> set (mf_segments (db_manifest db)). sm_rows s \<le> n) \<and>
     (\<forall>ev \<in> set (wal_events (en_crc env) (en_from_slice env) (dk_wal disk)). keep ev)"

lemma seg_holds_rows_len: "seg_holds env rd d s evs \<Longrightarrow> sm_rows s = length evs"
  unfolding seg_holds_def segment_meta_def by (metis (no_types, lifting) SegmentMeta.select_convs(4) SegmentMeta.select_convs(3))

lemma purge_second_pass_effect:
  assumes "env_ok env rd" and "rule_ok keep" and "seg_holds env rd d s evs" and "length evs \<le> n"
    and "chunk_names_ok env io (sm_segment_id s) n" and "purge_second_pass env io keep chunk s d = (res, d')"
  shows "(\<forall>name. name \<notin> purge_names env io (sm_segment_id s) n \<longrightarrow> \<not> is_temp_name name \<longrightarrow> map_of d' name = map_of d name) \<and>
    (\<forall>outs. res = Ok outs \<longrightarrow>
       (\<exists>ess. outs_ok env rd io (sm_segment_id s) d' outs ess \<and> concat ess = filter keep evs \<and> length outs \<le> n))"
proof (cases "read_segment_rows (en_seg env) (pi_read_fails io) d (sm_file s)")
  case (Inl e)
  then show ?thesis
    using assms(6) by (auto simp: purge_second_pass_def)
next
  case (Inr rows)
  have st: "list_all2 (stored_row (se_serde (en_seg env)) rd) evs rows"
    by (rule seg_holds_stored [OF assms(1,3) Inr])
  have run: "purge_stream env io keep chunk (sm_segment_id s) (pi_stream_fails io (sm_segment_id s)) rows [] [] d = (res, d')"
    using assms(6) Inr by (simp add: purge_second_pass_def)
  have "outs_ok env rd io (sm_segment_id s) d [] []"
    by (simp add: outs_ok_def)
  from purge_stream_effect [OF assms(1,2,5) this st list.rel_intros(1) _ run] show ?thesis
    using assms(4) list_all2_lengthD [OF st] by simp
qed

lemma collect_garbage_frame:
  assumes "\<not> oo_read_only (db_opts db)" and "collect_garbage fails db disk = (res, db', disk')"
  shows "dk_wal disk' = dk_wal disk" "set (mf_tombstones (db_manifest db')) \<subseteq> set (mf_tombstones (db_manifest db))"
    "mf_generation (db_manifest db') = mf_generation (db_manifest db)" "mf_segments (db_manifest db') = mf_segments (db_manifest db)"
    "name \<notin> (\<lambda>t. base_name (ts_file t)) ` set (mf_tombstones (db_manifest db)) \<Longrightarrow>
      map_of (dk_segments disk') name = map_of (dk_segments disk) name"
proof -
  obtain k keep ws d' where gc:
    "gc_loop fails (mf_generation (db_manifest db)) (mf_tombstones (db_manifest db)) (dk_segments disk) = (k, keep, ws, d')"
    by (cases "gc_loop fails (mf_generation (db_manifest db)) (mf_tombstones (db_manifest db)) (dk_segments disk)")
  have eq: "disk' = disk\<lparr>dk_segments := d'\<rparr>"
    "db' = db\<lparr>db_manifest := (db_manifest db)\<lparr>mf_tombstones := keep\<rparr>, db_warnings := db_warnings db @ ws\<rparr>"
    using assms gc by (auto simp: collect_garbage_def require_writer_def)
  show "dk_wal disk' = dk_wal disk" "set (mf_tombstones (db_manifest db')) \<subseteq> set (mf_tombstones (db_manifest db))"
    "mf_generation (db_manifest db') = mf_generation (db_manifest db)" "mf_segments (db_manifest db') = mf_segments (db_manifest db)"
    "name \<notin> (\<lambda>t. base_name (ts_file t)) ` set (mf_tombstones (db_manifest db)) \<Longrightarrow>
      map_of (dk_segments disk') name = map_of (dk_segments disk) name"
    using gc_loop_effect [OF gc] by (simp_all add: eq)
qed

lemma fresh_after:
  assumes "purge_fresh env io ids n m d" and "sid \<in> ids" and "sm_segment_id ` set (mf_segments m') \<subseteq>
      sm_segment_id ` set (mf_segments m) \<union> pi_segment_id io sid ` {..<n}"
    and "(\<lambda>t. base_name (ts_file t)) ` set (mf_tombstones m') \<subseteq>
      (\<lambda>t. base_name (ts_file t)) ` set (mf_tombstones m) \<union> {name. map_of d name \<noteq> None}"
    and "\<And>name. map_of d name = None \<Longrightarrow> name \<notin> purge_names env io sid n \<Longrightarrow> \<not> is_temp_name name \<Longrightarrow>
      name \<notin> (\<lambda>t. base_name (ts_file t)) ` set (mf_tombstones m) \<Longrightarrow> map_of d' name = None"
  shows "purge_fresh env io (ids - {sid}) n m' d'"
proof -
  note fr = assms(1) [unfolded purge_fresh_def]
  let ?name = "\<lambda>sid k. segment_file_name (en_seg env) (pi_segment_id io sid k)"
  have "inj_on (\<lambda>(sid, k). ?name sid k) ((ids - {sid}) \<times> {..<n})"
    using fr by (auto intro: inj_on_subset)
  moreover have "map_of d' (?name sid' k) = None \<and> pi_segment_id io sid' k \<notin> sm_segment_id ` set (mf_segments m') \<and>
      ?name sid' k \<notin> (\<lambda>t. base_name (ts_file t)) ` set (mf_tombstones m')" if "sid' \<in> ids" "sid' \<noteq> sid" "k < n" for sid' k
  proof -
    note o = fresh_other [OF assms(1,2) that]
    have f: "map_of d (?name sid' k) = None" "pi_segment_id io sid' k \<notin> sm_segment_id ` set (mf_segments m)"
      "?name sid' k \<notin> (\<lambda>t. base_name (ts_file t)) ` set (mf_tombstones m)"
      using fr that by auto
    show ?thesis
      using assms(3,4) assms(5) [OF f(1) o(1) segment_names(1) f(3)] o(2) f by blast
  qed
  ultimately show ?thesis
    unfolding purge_fresh_def by blast
qed

lemma dirty_replaced:
  assumes "length ex = length xs" and "length eo = length outs" and "\<forall>ev \<in> set (concat eo). keep ev"
    and "distinct (map sm_segment_id (xs @ s # ys))"
  shows "dirty keep (xs @ outs @ ys) (ex @ eo @ ey) \<subseteq> dirty keep (xs @ s # ys) (ex @ es # ey) - {sm_segment_id s}"
proof
  fix sid
  assume "sid \<in> dirty keep (xs @ outs @ ys) (ex @ eo @ ey)"
  then obtain t evs where t: "sid = sm_segment_id t" "(t, evs) \<in> set (zip (xs @ outs @ ys) (ex @ eo @ ey))" "\<exists>ev \<in> set evs. \<not> keep ev"
    unfolding dirty_def by blast
  have "(t, evs) \<notin> set (zip outs eo)"
    using t(3) assms(3) by (auto dest!: set_zip_rightD)
  then have old: "(t, evs) \<in> set (zip xs ex) \<union> set (zip ys ey)"
    using t(2) assms(1,2) by simp
  then have "t \<in> set xs \<union> set ys"
    by (auto dest: set_zip_leftD)
  then have "sm_segment_id t \<noteq> sm_segment_id s"
    using assms(4) by (auto simp: image_iff)
  moreover have "(t, evs) \<in> set (zip (xs @ s # ys) (ex @ es # ey))"
    using old assms(1) by auto
  ultimately show "sid \<in> dirty keep (xs @ s # ys) (ex @ es # ey) - {sm_segment_id s}"
    using t(1,3) unfolding dirty_def by auto
qed

lemma concat_member_length: "es \<in> set ess \<Longrightarrow> length es \<le> length (concat ess)"
  by (induction ess) auto

lemma outs_ids:
  assumes "outs_ok env rd io sid d outs ess" and "distinct (map (\<lambda>out. sm_segment_id (fst out)) outs)"
    and "(t, evs) \<in> set (zip (map fst outs) ess)"
  shows "adopt_ids outs m (sm_segment_id t) = Some (IdSet_from_iter (map ev_event_id evs))"
proof -
  obtain k where k: "k < length outs" "k < length ess" "t = fst (outs ! k)" "evs = ess ! k"
    using assms(3) by (auto simp: in_set_zip)
  then have "(t, IdSet_from_iter (map ev_event_id evs)) = outs ! k"
    using assms(1) by (simp add: outs_ok_def list_all2_conv_all_nth prod_eq_iff)
  then show ?thesis
    using adopt_ids_output [OF assms(2)] k(1) by (metis nth_mem)
qed

text \<open>The state after a rewritten segment, before and after the garbage is collected.\<close>

lemma purge_state_after:
  assumes "purge_state env rd io keep ids n db disk evss" and "sid \<in> ids"
    and "db_inv env rd db1 disk1 evss1 m1 evss1" and "mt_events (db_memtable db1) = []" and "dk_wal disk1 = dk_wal disk"
    and "\<And>name. name \<notin> purge_names env io sid n \<Longrightarrow> \<not> is_temp_name name \<Longrightarrow> map_of (dk_segments disk1) name = map_of (dk_segments disk) name"
    and "replaces (db_manifest db) xs [s] (map fst outs) ys (db_manifest db1)"
    and "outs_ok env rd io sid d1 outs ess" and "length outs \<le> n" and "\<forall>es \<in> set ess. length es \<le> n"
    and "collect_garbage fails db1 disk1 = (res, db', disk')"
  shows "purge_state env rd io keep (ids - {sid}) n db' disk' evss1 \<and> mf_segments (db_manifest db') = xs @ map fst outs @ ys \<and>
    mf_generation (db_manifest db') = Suc (mf_generation (db_manifest db))"
proof -
  note st = assms(1) [unfolded purge_state_def]
  note rep = assms(7) [unfolded replaces_def]
  note o = assms(8) [unfolded outs_ok_def]
  note inv = db_invD [OF assms(3)]
  note g = collect_garbage_inv [OF assms(3,11)]
  note fr = collect_garbage_frame [OF inv(2) assms(11)]
  obtain md evssd where inv0: "db_inv env rd db disk evss md evssd"
    using st by blast
  note m0 = handle_okD(1) [OF db_invD(4) [OF inv0]]
  have s: "s \<in> set (mf_segments (db_manifest db))"
    using rep by simp
  have ids: "sm_segment_id ` set (map fst outs) \<subseteq> pi_segment_id io sid ` {..<n}"
  proof
    fix x
    assume "x \<in> sm_segment_id ` set (map fst outs)"
    then obtain k where "k < length outs" "x = sm_segment_id (fst (outs ! k))"
      by (auto simp: in_set_conv_nth)
    then show "x \<in> pi_segment_id io sid ` {..<n}"
      using o assms(9) by auto
  qed
  have "purge_fresh env io (ids - {sid}) n (db_manifest db') (dk_segments disk')"
  proof (rule fresh_after [OF _ assms(2)])
    show "purge_fresh env io ids n (db_manifest db) (dk_segments disk)"
      using st by blast
    show "sm_segment_id ` set (mf_segments (db_manifest db')) \<subseteq>
        sm_segment_id ` set (mf_segments (db_manifest db)) \<union> pi_segment_id io sid ` {..<n}"
      using ids rep unfolding fr(4) by (simp add: image_Un) blast
    have base: "base_name (sm_file s) = sm_file s"
      using manifest_okD(7) [OF m0] s unfolding names_ok_def by blast
    have "map_of (dk_segments disk) (sm_file s) \<noteq> None"
      using manifest_ok_exists [OF m0 s] unfolding map_of_eq_None_iff by simp
    have t1: "(\<lambda>t. base_name (ts_file t)) ` set (mf_tombstones (db_manifest db1)) \<subseteq>
        (\<lambda>t. base_name (ts_file t)) ` set (mf_tombstones (db_manifest db)) \<union> {sm_file s}"
      using rep base by auto
    show "(\<lambda>t. base_name (ts_file t)) ` set (mf_tombstones (db_manifest db')) \<subseteq>
        (\<lambda>t. base_name (ts_file t)) ` set (mf_tombstones (db_manifest db)) \<union> {name. map_of (dk_segments disk) name \<noteq> None}"
      by (rule subset_trans [OF subset_trans [OF image_mono [OF fr(2)] t1] Un_mono [OF order_refl]])
        (use \<open>map_of (dk_segments disk) (sm_file s) \<noteq> None\<close> in simp)
    fix name
    assume "map_of (dk_segments disk) name = None" "name \<notin> purge_names env io sid n" "\<not> is_temp_name name"
      "name \<notin> (\<lambda>t. base_name (ts_file t)) ` set (mf_tombstones (db_manifest db))"
    then show "map_of (dk_segments disk') name = None"
      using assms(6) [of name] fr(5) [of name] t1 \<open>map_of (dk_segments disk) (sm_file s) \<noteq> None\<close>
      by (metis (no_types, lifting) UnE singletonD subsetD)
  qed
  moreover have "sm_rows t \<le> n" if t: "t \<in> set (map fst outs)" for t
  proof -
    obtain k where "k < length outs" "t = fst (outs ! k)"
      using t by (auto simp: in_set_conv_nth)
    then show ?thesis
      using o assms(10) seg_holds_rows_len [of env rd d1 t "ess ! k"] by (auto simp: list_all2_conv_all_nth)
  qed
  moreover have "\<forall>t \<in> set xs \<union> set ys. sm_rows t \<le> n"
    using st rep by auto
  ultimately have "\<forall>t \<in> set (mf_segments (db_manifest db')). sm_rows t \<le> n"
      "purge_fresh env io (ids - {sid}) n (db_manifest db') (dk_segments disk')"
    using rep unfolding fr(4) by auto
  moreover have "\<exists>md evssd. db_inv env rd db' disk' evss1 md evssd" "mt_events (db_memtable db') = []"
    using g assms(4) by auto
  moreover have "\<forall>ev \<in> set (wal_events (en_crc env) (en_from_slice env) (dk_wal disk')). keep ev"
    using st unfolding fr(1) assms(5) by blast
  ultimately show ?thesis
    unfolding purge_state_def using fr(3,4) rep by simp
qed

lemma purge_rewrite_effect:
  assumes "env_ok env rd" and "rule_ok keep" and "purge_state env rd io keep ids n db disk evss"
    and "Suc (mf_generation (db_manifest db)) < 2 ^ 64" and "s \<in> set (mf_segments (db_manifest db))" and "sm_segment_id s \<in> ids"
    and "purge_rewrite env io keep chunk s rep db disk = (res, db', disk')"
  shows "recovers env rd disk' keep (set (concat evss)) \<and> (\<forall>rep'. res = Ok rep' \<longrightarrow>
    (\<exists>evss'. purge_state env rd io keep (ids - {sm_segment_id s}) n db' disk' evss' \<and>
      between keep (set (concat evss)) (set (concat evss')) \<and> mf_generation (db_manifest db') = Suc (mf_generation (db_manifest db)) \<and>
      dirty keep (mf_segments (db_manifest db')) evss' \<subseteq> dirty keep (mf_segments (db_manifest db)) evss - {sm_segment_id s}))"
proof -
  note st = assms(3) [unfolded purge_state_def]
  obtain md evssd where inv: "db_inv env rd db disk evss md evssd"
    using st by blast
  note h = handle_okD [OF db_invD(4) [OF inv]]
  let ?sid = "sm_segment_id s"
  obtain xs ys where sp: "mf_segments (db_manifest db) = xs @ s # ys"
    using assms(5) by (meson split_list)
  have all: "list_all2 (seg_holds env rd (dk_segments disk)) (xs @ s # ys) evss" "distinct (map sm_segment_id (xs @ s # ys))"
    using manifest_okD(1) [OF h(1)] sp by (simp_all add: segs_hold_def)
  then obtain ex es ey where ev: "evss = ex @ [es] @ ey" "length ex = length xs" "seg_holds env rd (dk_segments disk) s es"
    by (auto simp: list_all2_append1 list_all2_Cons1 dest: list_all2_lengthD)
  have len: "length es \<le> n"
    using st seg_holds_rows_len [OF ev(3)] assms(5) by auto
  have cn: "chunk_names_ok env io ?sid n"
    using fresh_chunk_names assms(6) st by blast
  obtain r1 segs where p2: "purge_second_pass env io keep chunk s (dk_segments disk) = (r1, segs)"
    by (cases "purge_second_pass env io keep chunk s (dk_segments disk)")
  note eff = purge_second_pass_effect [OF assms(1,2) ev(3) len cn p2]
  let ?disk1 = "disk\<lparr>dk_segments := segs\<rparr>"
  have new: "name \<notin> purge_names env io ?sid n" if "name \<in> fst ` set (dk_segments disk)" for name
    using st that assms(6) unfolding purge_fresh_def purge_names_def map_of_eq_None_iff by blast
  have inv1: "db_inv env rd db ?disk1 evss md evssd"
    using eff new by (intro db_inv_segments [OF inv]) blast
  show ?thesis
  proof (cases r1)
    case (Inl e)
    then have "res = Err e" "disk' = ?disk1"
      using assms(7) p2 by (simp_all add: purge_rewrite_def Let_def)
    then show ?thesis
      using recoversI [OF inv1, of keep "set (concat evss)"] st by simp
  next
    case outs: (Inr outs)
    then obtain ess where o: "outs_ok env rd io ?sid segs outs ess" "concat ess = filter keep es" "length outs \<le> n"
      using eff by blast
    have oo: "outputs_ok env rd segs (db_manifest db) (map fst outs) ess"
      using fresh_outputs_ok [OF assms(1) h(1) _ assms(6) o(1,3)] st by blast
    let ?c = "adopt_ids outs ((db_segment_ids db)(?sid := None))"
    let ?next = "purge_manifest (pi_now io ?sid) (db_manifest db) s (map fst outs)"
    obtain r2 mfdir where mw: "Manifest_write (en_crc env) (en_mf_to_vec env) (en_mf_pretty env) (pi_manifest io ?sid) (pi_prune_fails io ?sid)
        ?next (dk_manifest disk) = (r2, mfdir)"
      by (cases "Manifest_write (en_crc env) (en_mf_to_vec env) (en_mf_pretty env) (pi_manifest io ?sid) (pi_prune_fails io ?sid)
        ?next (dk_manifest disk)")
    have "replaces (db_manifest db) xs [s] (map fst outs) ys m" if "m\<lparr>mf_checksum := None\<rparr> = ?next\<lparr>mf_checksum := None\<rparr>" for m
      using purge_replaces [OF sp _ that] all(2) sp by simp
    moreover have "?c (sm_segment_id t) = Some (IdSet_from_iter (map ev_event_id evs))" if "(t, evs) \<in> set (zip (map fst outs) ess)" for t evs
      using outs_ids [OF o(1) _ that] oo by (simp add: outputs_ok_def comp_def)
    moreover have "?c sid = db_segment_ids db sid" if "sid \<notin> sm_segment_id ` set [s]" "sid \<notin> sm_segment_id ` set (map fst outs)" for sid
      using that adopt_ids_other [of sid outs "(db_segment_ids db)(?sid := None)"] by (simp add: image_image)
    moreover have "concat ess = filter keep (concat [es])" "length [es] = length [s]" "outputs_ok env rd (dk_segments ?disk1) (db_manifest db) (map fst outs) ess"
      using o(2) oo by simp_all
    moreover have "Manifest_write (en_crc env) (en_mf_to_vec env) (en_mf_pretty env) (pi_manifest io ?sid) (pi_prune_fails io ?sid)
        ?next (dk_manifest ?disk1) = (r2, mfdir)" "mt_events (db_memtable db) = []"
      "\<forall>ev \<in> set (wal_events (en_crc env) (en_from_slice env) (dk_wal ?disk1)). keep ev"
      using mw st by simp_all
    ultimately have pub: "recovers env rd (?disk1\<lparr>dk_manifest := mfdir\<rparr>) keep (set (concat evss))"
      "\<And>m. r2 = Ok m \<Longrightarrow> replaces (db_manifest db) xs [s] (map fst outs) ys m \<and>
        db_inv env rd (db\<lparr>db_manifest := m, db_segment_ids := ?c\<rparr>) (?disk1\<lparr>dk_manifest := mfdir\<rparr>) (ex @ ess @ ey) m (ex @ ess @ ey)"
      using dropped_publish [where keep = keep and c = ?c and nxt = ?next and xs = xs and ins = "[s]" and outs = "map fst outs" and ys = ys
          and eo = ess and ex = ex and ei = "[es]" and ey = ey, OF assms(1) inv1 _ assms(4)] ev(1,2)
      by blast+
    show ?thesis
    proof (cases r2)
      case (Inl e)
      then have "res = Err e" "disk' = ?disk1\<lparr>dk_manifest := mfdir\<rparr>"
        using assms(7) p2 outs mw by (simp_all add: purge_rewrite_def Let_def)
      then show ?thesis
        using pub(1) by simp
    next
      case (Inr m)
      let ?db1 = "db\<lparr>db_manifest := m, db_segment_ids := ?c\<rparr>" and ?disk2 = "?disk1\<lparr>dk_manifest := mfdir\<rparr>"
      note new1 = pub(2) [OF Inr]
      obtain r3 db2 disk2 where gc: "collect_garbage (pi_gc_fails io ?sid) ?db1 ?disk2 = (r3, db2, disk2)"
        by (cases "collect_garbage (pi_gc_fails io ?sid) ?db1 ?disk2")
      note g = collect_garbage_inv [OF conjunct2 [OF new1] gc]
      have eq: "db' = db2" "disk' = disk2"
        using assms(7) p2 outs mw Inr gc g by (auto simp: purge_rewrite_def Let_def)
      have btw: "between keep (set (concat evss)) (set (concat (ex @ ess @ ey)))"
        unfolding between_def ev(1) concat_append set_append o(2) by auto
      have "length (concat ess) \<le> n"
        unfolding o(2) using le_trans [OF length_filter_le len] .
      then have lens: "\<forall>es' \<in> set ess. length es' \<le> n"
        using le_trans [OF concat_member_length] by blast
      have "replaces (db_manifest db) xs [s] (map fst outs) ys (db_manifest ?db1)" "mt_events (db_memtable ?db1) = []"
          "dk_wal ?disk2 = dk_wal disk"
        using new1 st by simp_all
      moreover have "map_of (dk_segments ?disk2) name = map_of (dk_segments disk) name"
        if "name \<notin> purge_names env io ?sid n" "\<not> is_temp_name name" for name
        using eff that by simp
      ultimately have after: "purge_state env rd io keep (ids - {?sid}) n db' disk' (ex @ ess @ ey) \<and>
          mf_segments (db_manifest db') = xs @ map fst outs @ ys \<and>
          mf_generation (db_manifest db') = Suc (mf_generation (db_manifest db))"
        unfolding eq by (intro purge_state_after [OF assms(3,6) conjunct2 [OF new1] _ _ _ _ o(1,3) lens gc])
      have "length ess = length (map fst outs)" "\<forall>ev \<in> set (concat ess). keep ev"
        using o(1,2) by (auto simp: outs_ok_def dest: list_all2_lengthD)
      from dirty_replaced [OF ev(2) this all(2), of ey es]
      have "dirty keep (mf_segments (db_manifest db')) (ex @ ess @ ey) \<subseteq> dirty keep (mf_segments (db_manifest db)) evss - {?sid}"
        using after sp ev(1) by simp
      moreover have "recovers env rd disk' keep (set (concat evss))"
        using recoversI [OF conjunct1 [OF conjunct2 [OF g]]] btw g st unfolding eq by simp
      ultimately show ?thesis
        using after btw by blast
    qed
  qed
qed

section \<open>The loop over the segments\<close>

lemma purge_state_subset:
  assumes "purge_state env rd io keep ids n db disk evss" and "ids' \<subseteq> ids"
  shows "purge_state env rd io keep ids' n db disk evss"
proof -
  have "purge_fresh env io ids' n (db_manifest db) (dk_segments disk)"
    using assms unfolding purge_state_def purge_fresh_def by (meson Sigma_mono inj_on_subset order_refl subsetD)
  then show ?thesis
    using assms(1) unfolding purge_state_def by blast
qed

lemma purge_state_recovers:
  "purge_state env rd io keep ids n db disk evss \<Longrightarrow> recovers env rd disk keep (set (concat evss))"
  unfolding purge_state_def using recoversI [of env rd db disk evss] by auto

lemma purge_state_holds:
  assumes "purge_state env rd io keep ids n db disk evss"
  shows "segs_hold env rd (dk_segments disk) (mf_segments (db_manifest db)) evss"
  using assms manifest_okD(1) handle_okD(1) db_invD(4) unfolding purge_state_def by blast

text \<open>A segment is dirty when the first pass refuses one of its rows.\<close>

lemma first_pass_dirty:
  assumes "env_ok env rd" and "rule_ok keep" and "segs_hold env rd d segs evss" and "s \<in> set segs"
    and "purge_first_pass (en_seg env) flt d keep s = Ok (seen, 0)"
  shows "sm_segment_id s \<notin> dirty keep segs evss"
proof
  assume "sm_segment_id s \<in> dirty keep segs evss"
  then obtain t evs where t: "sm_segment_id s = sm_segment_id t" "(t, evs) \<in> set (zip segs evss)" "\<exists>ev \<in> set evs. \<not> keep ev"
    unfolding dirty_def by blast
  have "t = s"
    using assms(3,4) t(1) set_zip_leftD [OF t(2)] unfolding segs_hold_def distinct_map by (metis inj_onD)
  then have "seg_holds env rd d s evs"
    using segs_hold_pair [OF assms(3) t(2)] by simp
  from first_pass_counts(2) [OF assms(1,2) this assms(5)] show False
    using t(3) by (simp add: filter_empty_conv)
qed

lemma purge_loop_effect:
  assumes "env_ok env rd" and "rule_ok keep" and "purge_state env rd io keep (set ids) n db disk evss" and "distinct ids"
    and "mf_generation (db_manifest db) + length ids < 2 ^ 64"
    and "purge_loop env io keep chunk limit ids m rep db disk = (res, db', disk')"
  shows "recovers env rd disk' keep (set (concat evss)) \<and> (\<forall>rep' complete. res = Ok (rep', complete) \<longrightarrow>
    (\<exists>evss'. purge_state env rd io keep {} n db' disk' evss' \<and> between keep (set (concat evss)) (set (concat evss')) \<and>
      (complete \<longrightarrow> dirty keep (mf_segments (db_manifest db')) evss' \<subseteq> dirty keep (mf_segments (db_manifest db)) evss - set ids)))"
  using assms(3-6)
proof (induction ids arbitrary: m rep db disk evss)
  case Nil
  then have "db' = db" "disk' = disk"
    by simp_all
  then show ?case
    using Nil.prems(1) purge_state_recovers [OF Nil.prems(1)] by auto
next
  case (Cons sid ids)
  let ?segs = "mf_segments (db_manifest db)"
  let ?stop = "case limit of Some k \<Rightarrow> k \<le> m | None \<Rightarrow> False"
  have small: "purge_state env rd io keep (set ids) n db disk evss"
    by (rule purge_state_subset [OF Cons.prems(1)]) auto
  note hold = purge_state_holds [OF Cons.prems(1)]
  have next_seg: ?case if clean: "sid \<notin> dirty keep ?segs evss"
    and run: "purge_loop env io keep chunk limit ids m rep1 db disk = (res, db', disk')" for rep1
  proof -
    have gen: "mf_generation (db_manifest db) + length ids < 2 ^ 64"
      using Cons.prems(3) by simp
    have "distinct ids"
      using Cons.prems(2) by simp
    from Cons.IH [OF small this gen run] show ?thesis
      using clean by auto
  qed
  show ?case
  proof (cases ?stop)
    case True
    then have eq: "db' = db" "disk' = disk" "\<And>rep' complete. res = Ok (rep', complete) \<Longrightarrow> \<not> complete"
      using Cons.prems(4) by auto
    have "purge_state env rd io keep {} n db disk evss"
      by (rule purge_state_subset [OF Cons.prems(1)]) simp
    then show ?thesis
      unfolding eq(1,2) using eq(3) purge_state_recovers [OF Cons.prems(1)] between_refl by blast
  next
    case go: False
    show ?thesis
    proof (cases "find (\<lambda>s. sm_segment_id s = sid) ?segs")
      case None
      then have "sid \<notin> dirty keep ?segs evss"
        unfolding dirty_def by (auto simp: find_None_iff dest: set_zip_leftD)
      moreover have "purge_loop env io keep chunk limit ids m rep db disk = (res, db', disk')"
        using Cons.prems(4) go None by simp
      ultimately show ?thesis
        by (rule next_seg)
    next
      case (Some s)
      then have s: "s \<in> set ?segs" "sm_segment_id s = sid"
        by (auto simp: find_Some_iff)
      show ?thesis
      proof (cases "purge_first_pass (en_seg env) (pi_read_fails io) (dk_segments disk) keep s")
        case (Inl e)
        then have "disk' = disk" "res = Err e"
          using Cons.prems(4) go Some by simp_all
        then show ?thesis
          using purge_state_recovers [OF Cons.prems(1)] by simp
      next
        case (Inr sr)
        obtain seen refused where sr: "sr = (seen, refused)"
          by (cases sr)
        show ?thesis
        proof (cases "refused = 0")
          case True
          have "sid \<notin> dirty keep ?segs evss"
            using first_pass_dirty [OF assms(1,2) hold s(1)] Inr sr True s(2) by simp
          then show ?thesis
            by (rule next_seg) (use Cons.prems(4) go Some Inr sr True in \<open>simp add: Let_def\<close>)
        next
          case False
          let ?rep = "rep\<lparr>pg_events_kept := pg_events_kept rep + (seen - refused), pg_events_dropped := pg_events_dropped rep + refused\<rparr>"
          obtain r2 db2 disk2 where rw: "purge_rewrite env io keep chunk s ?rep db disk = (r2, db2, disk2)"
            by (cases "purge_rewrite env io keep chunk s ?rep db disk")
          have gen: "Suc (mf_generation (db_manifest db)) < 2 ^ 64"
            using Cons.prems(3) by simp
          have "sm_segment_id s \<in> set (sid # ids)"
            using s(2) by simp
          note eff = purge_rewrite_effect [OF assms(1,2) Cons.prems(1) gen s(1) this rw, unfolded s(2)]
          show ?thesis
          proof (cases r2)
            case e: (Inl e)
            then have "disk' = disk2" "res = Err e"
              using Cons.prems(4) go Some Inr sr False rw by (simp_all add: Let_def)
            then show ?thesis
              using eff by simp
          next
            case ok: (Inr rep2)
            then obtain evss2 where st2: "purge_state env rd io keep (set (sid # ids) - {sid}) n db2 disk2 evss2"
              "between keep (set (concat evss)) (set (concat evss2))"
              "mf_generation (db_manifest db2) = Suc (mf_generation (db_manifest db))"
              "dirty keep (mf_segments (db_manifest db2)) evss2 \<subseteq> dirty keep ?segs evss - {sid}"
              using eff by blast
            have run: "purge_loop env io keep chunk limit ids (Suc m) rep2 db2 disk2 = (res, db', disk')"
              using Cons.prems(4) go Some Inr sr False rw ok by (simp add: Let_def)
            have "set (sid # ids) - {sid} = set ids" "distinct ids" "mf_generation (db_manifest db2) + length ids < 2 ^ 64"
              using Cons.prems(2,3) st2(3) by auto
            note ih = Cons.IH [OF st2(1) [unfolded this(1)] this(2,3) run]
            have "recovers env rd disk' keep (set (concat evss))"
              using ih between_trans [OF st2(2)] unfolding recovers_def by blast
            moreover have "\<exists>evss'. purge_state env rd io keep {} n db' disk' evss' \<and> between keep (set (concat evss)) (set (concat evss')) \<and>
                (complete \<longrightarrow> dirty keep (mf_segments (db_manifest db')) evss' \<subseteq> dirty keep ?segs evss - set (sid # ids))"
              if r: "res = Ok (rep', complete)" for rep' complete
            proof -
              obtain evss' where e: "purge_state env rd io keep {} n db' disk' evss'" "between keep (set (concat evss2)) (set (concat evss'))"
                "complete \<longrightarrow> dirty keep (mf_segments (db_manifest db')) evss' \<subseteq> dirty keep (mf_segments (db_manifest db2)) evss2 - set ids"
                using ih r by blast
              have "complete \<longrightarrow> dirty keep (mf_segments (db_manifest db')) evss' \<subseteq> dirty keep ?segs evss - set (sid # ids)"
                using e(3) st2(4) by auto
              then show ?thesis
                using e(1) between_trans [OF st2(2) e(2)] by blast
            qed
            ultimately show ?thesis
              by blast
          qed
        qed
      qed
    qed
  qed
qed

section \<open>What a purge leaves\<close>

text \<open>
  What a purge needs: a flush that can succeed, names for its outputs, room for its generations, and,
  once flushed, a log without refused events.
\<close>

definition purge_io_ok :: "Env \<Rightarrow> (Event \<Rightarrow> bool) \<Rightarrow> nat \<Rightarrow> Database \<Rightarrow> Disk \<Rightarrow> PurgeIo \<Rightarrow> bool" where
  "purge_io_ok env keep n db disk io \<longleftrightarrow>
     flush_io_ok env db disk (pi_flush io) \<and>
     (\<forall>r db1 disk1. flush env (pi_flush io) db disk = (Ok r, db1, disk1) \<longrightarrow>
        purge_fresh env io (sm_segment_id ` set (mf_segments (db_manifest db1))) n (db_manifest db1) (dk_segments disk1) \<and>
        (\<forall>s \<in> set (mf_segments (db_manifest db1)). sm_rows s \<le> n) \<and>
        mf_generation (db_manifest db1) + length (mf_segments (db_manifest db1)) < 2 ^ 64 \<and>
        (\<forall>ev \<in> set (wal_events (en_crc env) (en_from_slice env) (dk_wal disk1)). keep ev))"

lemma clean_all_kept:
  assumes "length segs = length evss" and "dirty keep segs evss = {}"
  shows "\<forall>ev \<in> set (concat evss). keep ev"
proof
  fix ev
  assume "ev \<in> set (concat evss)"
  then obtain evs where "evs \<in> set evss" "ev \<in> set evs"
    by auto
  moreover then obtain s where "(s, evs) \<in> set (zip segs evss)"
    using assms(1) by (metis in_set_impl_in_set_zip2)
  ultimately have "\<not> keep ev \<Longrightarrow> sm_segment_id s \<in> dirty keep segs evss"
    unfolding dirty_def by blast
  then show "keep ev"
    using assms(2) by blast
qed

lemma purge_loop_complete:
  "purge_loop env io keep chunk None ids m rep db disk = (Ok (rep', complete), db', disk') \<Longrightarrow> complete"
  by (induction ids arbitrary: m rep db disk) (auto simp: Let_def split: option.splits sum.splits prod.splits if_splits)

lemma purge_effect:
  assumes "env_ok env rd" and "rule_ok keep" and "db_inv env rd db disk evss md evssd" and "purge_io_ok env keep n db disk io"
    and "A = set (concat evss @ mt_events (db_memtable db))" and "purge_chunked env io keep chunk db disk = (res, db', disk')"
  shows "recovers env rd disk' keep A \<and> (\<forall>rep. res = Ok rep \<longrightarrow> keeps env rd db' disk' {ev \<in> A. keep ev})"
proof -
  note io = assms(4) [unfolded purge_io_ok_def]
  have writer: "require_writer db = Ok ()"
    using db_invD(2) [OF assms(3)] by (simp add: require_writer_def)
  obtain r1 db1 disk1 where fl: "flush env (pi_flush io) db disk = (r1, db1, disk1)"
    by (cases "flush env (pi_flush io) db disk")
  have keeps1: "keeps env rd db1 disk1 A" "\<And>r. r1 = Ok r \<Longrightarrow> mt_events (db_memtable db1) = []"
    using flush_keeps [OF assms(1,3) conjunct1 [OF io] fl] assms(5) by auto
  then obtain evss1 md1 evssd1 where inv1: "db_inv env rd db1 disk1 evss1 md1 evssd1"
    "set (concat evss1 @ mt_events (db_memtable db1)) = A"
    unfolding keeps_def by blast
  note def = purge_chunked_def [of env io keep chunk db disk, unfolded assms(6) purge_some_def writer fl]
  show ?thesis
  proof (cases r1)
    case (Inl e)
    then have "disk' = disk1" "res = Err e"
      using def by simp_all
    then show ?thesis
      using recoversI [OF inv1(1), of keep A] inv1(2) by simp
  next
    case (Inr r)
    let ?ids = "map sm_segment_id (mf_segments (db_manifest db1))"
    have mem: "mt_events (db_memtable db1) = []"
      by (rule keeps1(2) [OF Inr])
    have A: "set (concat evss1) = A"
      using inv1(2) mem by simp
    have st: "purge_state env rd io keep (set ?ids) n db1 disk1 evss1" "mf_generation (db_manifest db1) + length ?ids < 2 ^ 64"
      unfolding purge_state_def using io fl Inr inv1(1) mem by auto
    have dist: "distinct ?ids"
      using purge_state_holds [OF st(1)] by (simp add: segs_hold_def)
    obtain r2 db2 disk2 where lp: "purge_loop env io keep (max chunk 1) None ?ids 0 PurgeReport_default db1 disk1 = (r2, db2, disk2)"
      by (cases "purge_loop env io keep (max chunk 1) None ?ids 0 PurgeReport_default db1 disk1")
    note eff = purge_loop_effect [OF assms(1,2) st(1) dist st(2) lp, unfolded A]
    have eq: "db' = db2" "disk' = disk2" "\<And>rep. res = Ok rep \<Longrightarrow> \<exists>complete. r2 = Ok (rep, complete)"
      using def Inr lp by (auto split: sum.splits prod.splits)
    have "keeps env rd db' disk' {ev \<in> A. keep ev}" if r: "res = Ok rep" for rep
    proof -
      obtain complete where "r2 = Ok (rep, complete)"
        using eq(3) [OF r] by blast
      moreover then have complete
        using purge_loop_complete lp by blast
      ultimately obtain evss' where e: "purge_state env rd io keep {} n db2 disk2 evss'" "between keep A (set (concat evss'))"
        "dirty keep (mf_segments (db_manifest db2)) evss' \<subseteq> dirty keep (mf_segments (db_manifest db1)) evss1 - set ?ids"
        using eff by blast
      have "dirty keep (mf_segments (db_manifest db1)) evss1 \<subseteq> set ?ids"
        unfolding dirty_def by (auto dest: set_zip_leftD)
      then have "\<forall>ev \<in> set (concat evss'). keep ev"
        using clean_all_kept [OF segs_hold_length [OF purge_state_holds [OF e(1)]]] e(3) by blast
      then have "set (concat evss') = {ev \<in> A. keep ev}"
        using e(2) unfolding between_def by blast
      then show ?thesis
        using e(1) unfolding eq purge_state_def keeps_def by auto
    qed
    then show ?thesis
      using eff eq(2) by blast
  qed
qed

section \<open>The log a purge leaves behind\<close>

lemma purge_rewrite_wal:
  assumes "\<not> oo_read_only (db_opts db)" and "purge_rewrite env io keep chunk s rep db disk = (res, db', disk')"
  shows "dk_wal disk' = dk_wal disk \<and> db_opts db' = db_opts db"
  using assms
  by (auto simp: purge_rewrite_def Let_def collect_garbage_def require_writer_def split: sum.splits prod.splits)

lemma purge_loop_wal:
  "\<not> oo_read_only (db_opts db) \<Longrightarrow> purge_loop env io keep chunk limit ids m rep db disk = (res, db', disk') \<Longrightarrow>
   dk_wal disk' = dk_wal disk"
proof (induction ids arbitrary: m rep db disk)
  case (Cons sid ids)
  then show ?case
    using purge_rewrite_wal [OF Cons.prems(1)]
    by (auto simp: Let_def split: if_splits option.splits sum.splits prod.splits) (metis Cons.IH)+
qed simp

lemma purge_wal:
  assumes "mt_events (db_memtable db) = []" and "purge env io keep db disk = (res, db', disk')"
  shows "dk_wal disk' = dk_wal disk"
proof (cases "oo_read_only (db_opts db)")
  case True
  then show ?thesis
    using assms(2) by (simp add: purge_def purge_chunked_def purge_some_def require_writer_def)
next
  case False
  then have "flush env (pi_flush io) db disk = (Ok None, db, disk)"
    using assms(1) by (simp add: flush_def require_writer_def MemTable_is_empty_def)
  then show ?thesis
    using assms(2) False purge_loop_wal [OF False]
    by (auto simp: purge_def purge_chunked_def purge_some_def require_writer_def split: sum.splits prod.splits)
qed

lemma replay_known:
  assumes "env_ok env rd" and "segs_hold env rd d (mf_segments (db_manifest db)) evss" and "cache_ok db evss"
    and "mem_ok (db_memtable db)"
  shows "\<exists>known db1. (if n < ev_source_seq ev then (Ok (MemTable_contains (db_memtable db) (ev_event_id ev)), db)
      else is_known_at (\<lambda>_. False) d (ev_event_id ev) (if ev_source_seq ev \<noteq> 0 then Some (ev_source_seq ev) else None) db) = (Ok known, db1) \<and>
    same_core db db1 \<and> cache_ok db1 evss \<and>
    (known \<longrightarrow> ev_event_id ev \<in> ev_event_id ` set (concat evss) \<union> ev_event_id ` set (mt_events (db_memtable db)))"
proof (cases "n < ev_source_seq ev")
  case True
  then show ?thesis
    using assms(3,4) by (auto simp: MemTable_contains_def mem_ok_def)
next
  case False
  let ?seq = "if ev_source_seq ev \<noteq> 0 then Some (ev_source_seq ev) else None"
  obtain res db1 where k: "is_known_at (\<lambda>_. False) d (ev_event_id ev) ?seq db = (res, db1)"
    by (cases "is_known_at (\<lambda>_. False) d (ev_event_id ev) ?seq db")
  show ?thesis
    using is_known_at_ok [OF assms k] k False by (auto dest: set_zip_rightD)
qed

text \<open>Replaying any readable log: every record is in a segment or in the memtable afterwards.\<close>

lemma replay_covers:
  assumes "env_ok env rd" and "segs_hold env rd d (mf_segments (db_manifest db)) evss" and "cache_ok db evss"
    and "mem_ok (db_memtable db)" and "\<forall>ev \<in> set W. event_ok env ev"
  shows "\<exists>db'. replay_loop env (\<lambda>_. False) d n W db = (Ok (), db') \<and>
    ev_event_id ` set (mt_events (db_memtable db)) \<subseteq> ev_event_id ` set (mt_events (db_memtable db')) \<and>
    (\<forall>ev \<in> set W. ev_event_id ev \<in> ev_event_id ` set (concat evss) \<union> ev_event_id ` set (mt_events (db_memtable db')))"
  using assms(2-5)
proof (induction W arbitrary: db)
  case (Cons ev W)
  obtain known db1 where k: "(if n < ev_source_seq ev then (Ok (MemTable_contains (db_memtable db) (ev_event_id ev)), db)
      else is_known_at (\<lambda>_. False) d (ev_event_id ev) (if ev_source_seq ev \<noteq> 0 then Some (ev_source_seq ev) else None) db) = (Ok known, db1)"
    and same: "same_core db db1" "cache_ok db1 evss"
    and kn: "known \<Longrightarrow> ev_event_id ev \<in> ev_event_id ` set (concat evss) \<union> ev_event_id ` set (mt_events (db_memtable db))"
    using replay_known [OF assms(1) Cons.prems(1-3)] by blast
  have core: "db_manifest db1 = db_manifest db" "db_memtable db1 = db_memtable db"
    using same(1) by (simp_all add: same_core_def)
  have ev: "\<exists>bytes. encode_event (en_to_vec env) ev = Ok bytes"
    using Cons.prems(4) by (auto simp: event_ok_def Record_event_def split: sum.splits)
  show ?case
  proof (cases known)
    case True
    have step: "replay_loop env (\<lambda>_. False) d n (ev # W) db = replay_loop env (\<lambda>_. False) d n W db1"
      using k True by (simp add: Let_def)
    have "\<forall>ev \<in> set W. event_ok env ev" "mem_ok (db_memtable db1)"
      using Cons.prems(3,4) core(2) by simp_all
    then obtain db' where r: "replay_loop env (\<lambda>_. False) d n W db1 = (Ok (), db')"
      "ev_event_id ` set (mt_events (db_memtable db)) \<subseteq> ev_event_id ` set (mt_events (db_memtable db'))"
      "\<forall>ev \<in> set W. ev_event_id ev \<in> ev_event_id ` set (concat evss) \<union> ev_event_id ` set (mt_events (db_memtable db'))"
      using Cons.IH [of db1] Cons.prems(1) same(2) unfolding core by blast
    moreover have "ev_event_id ev \<in> ev_event_id ` set (concat evss) \<union> ev_event_id ` set (mt_events (db_memtable db'))"
      using kn [OF True] r(2) by blast
    ultimately show ?thesis
      unfolding step by (intro exI [of _ db']) (simp only: list.set ball_simps simp_thms)
  next
    case False
    obtain bytes where bytes: "encode_event (en_to_vec env) ev = Ok bytes"
      using ev by blast
    let ?db2 = "db1\<lparr>db_next_seq := (if db_next_seq db1 \<le> ev_source_seq ev then ev_source_seq ev + 1 else db_next_seq db1),
      db_hlc := (if hlc_last (db_hlc db1) < ev_hlc ev then resume_from (ev_hlc ev) else db_hlc db1),
      db_memtable := MemTable_push ev (length bytes) (db_memtable db1)\<rparr>"
    have step: "replay_loop env (\<lambda>_. False) d n (ev # W) db = replay_loop env (\<lambda>_. False) d n W ?db2"
      using k False bytes by (simp add: Let_def)
    have mem: "mt_events (db_memtable ?db2) = mt_events (db_memtable db) @ [ev]"
      by (simp add: MemTable_push_def core(2))
    have "\<forall>ev \<in> set W. event_ok env ev" "mem_ok (db_memtable ?db2)" "cache_ok ?db2 evss"
      "segs_hold env rd d (mf_segments (db_manifest ?db2)) evss"
      using Cons.prems(1,3,4) core same(2) mem_ok_push [of "db_memtable db" ev] by (simp_all add: cache_ok_def)
    from Cons.IH [OF this(4,3,2,1)] show ?thesis
      unfolding step mem by auto
  qed
qed auto

section \<open>Concrete purges\<close>

definition sample_purge_io :: PurgeIo where
  "sample_purge_io =
     \<lparr>pi_flush = sample_flush_io, pi_read_fails = \<lambda>_. False, pi_stream_fails = \<lambda>_. None, pi_segment_id = \<lambda>_ k. word_of_nat (10 + k),
      pi_segment = \<lambda>_ _. PubAll, pi_now = \<lambda>_. 0, pi_manifest = \<lambda>_. MfAll, pi_prune_fails = \<lambda>_ _. False,
      pi_gc_fails = \<lambda>_ _. False\<rparr>"

lemma opened_empty: "mt_events (db_memtable opened_db) = []" "mf_segments (db_manifest opened_db) = []"
  "\<not> oo_read_only (db_opts opened_db)" "mf_generation (db_manifest opened_db) = 1"
  by (simp_all add: opened_db_def opened_def MemTable_new_def sample_manifest_def Manifest_initial_def OpenOptions_default_def)

lemma opened_flush: "flush env io opened_db disk = (Ok None, opened_db, disk)"
  using opened_empty by (simp add: flush_def require_writer_def MemTable_is_empty_def)

lemma opened_purge: "\<exists>rep. purge env io keep opened_db disk = (Ok rep, opened_db, disk)"
  using opened_empty by (simp add: purge_def purge_chunked_def purge_some_def require_writer_def opened_flush)

lemma log_shown:
  "db_inv env rd db disk evss md evssd \<Longrightarrow>
   set (wal_events (en_crc env) (en_from_slice env) (dk_wal disk)) \<subseteq> set (concat evss @ mt_events (db_memtable db))"
  using disk_invD(7) [OF db_inv_disk] by blast

lemma opened_purge_ok: "purge_io_ok sample_env keep 0 opened_db opened_disk sample_purge_io"
proof -
  have "db_good sample_env sample_reader (opened_db, opened_disk)"
    by (rule dbs.reachable_inv [OF sample_init dbs.run.run_nil])
  then obtain evss md evssd where inv: "db_inv sample_env sample_reader opened_db opened_disk evss md evssd"
    by (auto simp: db_good_def keeps_def)
  have "evss = []"
    using segs_hold_length [OF manifest_okD(1) [OF handle_okD(1) [OF db_invD(4) [OF inv]]]] opened_empty(2) by simp
  then have "wal_events (en_crc sample_env) (en_from_slice sample_env) (dk_wal opened_disk) = []"
    using log_shown [OF inv] opened_empty(1) by simp
  then show ?thesis
    using sample_flush_ok opened_empty
    by (auto simp: purge_io_ok_def sample_purge_io_def opened_flush purge_fresh_def)
qed

text \<open>The event ingested into the sample database is in its log and in no segment.\<close>

lemma stored_in_log:
  "sample_ingested \<in> set (wal_events (en_crc sample_env) (en_from_slice sample_env) (dk_wal (snd stored_state)))"
  "\<forall>ev \<in> set (wal_events (en_crc sample_env) (en_from_slice sample_env) (dk_wal (snd stored_state))). event_ok sample_env ev"
proof -
  have "db_good sample_env sample_reader stored_state"
    by (rule dbs.reachable_inv [OF sample_init sample_run])
  then obtain evss md evssd where inv: "db_inv sample_env sample_reader (fst stored_state) (snd stored_state) evss md evssd"
    by (auto simp: db_good_def keeps_def)
  note h = handle_okD [OF db_invD(4) [OF inv]]
  have "evss = []"
    using segs_hold_length [OF manifest_okD(1) [OF h(1)]] opened_empty(2) by (simp add: sample_stored)
  then show "\<forall>ev \<in> set (wal_events (en_crc sample_env) (en_from_slice sample_env) (dk_wal (snd stored_state))). event_ok sample_env ev"
    using log_shown [OF inv] h(7) by (auto simp: sample_stored)
  show "sample_ingested \<in> set (wal_events (en_crc sample_env) (en_from_slice sample_env) (dk_wal (snd stored_state)))"
    using db_invD(11) [OF inv] by (simp add: disk_events_ok_def sample_stored)
qed

section \<open>Theorems\<close>





text \<open>
  C39: a purge of a database whose memtable is empty leaves the log as it is. When the log still holds a
  record of a purged event (its flush could not cut the log, or the process stopped before it did), the
  next open replays the record: the event's number is at most the manifest's, no segment has its id any
  more, so it is taken for unknown and enters the memtable again.
\<close>

theorem purged_event_returns:
  assumes "env_ok env rd" and "mt_events (db_memtable db) = []" and "purge env io keep db disk = (res, db', disk')"
    and "manifest_ok env rd (dk_segments disk') md evss"
    and "ev \<in> set (wal_events (en_crc env) (en_from_slice env) (dk_wal disk))"
    and "\<forall>x \<in> set (wal_events (en_crc env) (en_from_slice env) (dk_wal disk)). event_ok env x"
    and "ev_event_id ev \<notin> ev_event_id ` set (concat evss)"
  shows "dk_wal disk' = dk_wal disk \<and>
    (\<exists>db''. replay_loop env (\<lambda>_. False) (dk_segments disk') (durable_seq md)
        (wal_events (en_crc env) (en_from_slice env) (dk_wal disk')) (opened opts md ws) = (Ok (), db'') \<and>
      ev_event_id ev \<in> ev_event_id ` set (mt_events (db_memtable db'')))"
proof -
  have wal: "dk_wal disk' = dk_wal disk"
    by (rule purge_wal [OF assms(2,3)])
  have "segs_hold env rd (dk_segments disk') (mf_segments (db_manifest (opened opts md ws))) evss" "cache_ok (opened opts md ws) evss"
    "mem_ok (db_memtable (opened opts md ws))"
    using manifest_okD(1) [OF assms(4)] by (auto simp: opened_def cache_ok_def mem_ok_def MemTable_new_def)
  from replay_covers [OF assms(1) this assms(6), of "durable_seq md"] show ?thesis
    using assms(5,7) wal by auto
qed

theorem purged_event_returns_witness:
  "\<exists>rep db''. purge sample_env sample_purge_io (\<lambda>_. False) opened_db (snd stored_state) = (Ok rep, opened_db, snd stored_state) \<and>
    replay_loop sample_env (\<lambda>_. False) (dk_segments (snd stored_state)) (durable_seq (db_manifest opened_db))
      (wal_events (en_crc sample_env) (en_from_slice sample_env) (dk_wal (snd stored_state)))
      (opened OpenOptions_default (db_manifest opened_db) []) = (Ok (), db'') \<and>
    ev_event_id sample_ingested \<in> ev_event_id ` set (mt_events (db_memtable db''))"
proof -
  obtain rep where rep: "purge sample_env sample_purge_io (\<lambda>_. False) opened_db (snd stored_state) = (Ok rep, opened_db, snd stored_state)"
    using opened_purge by blast
  have eok: "env_ok sample_env sample_reader"
    using sample_env_ok by (simp add: codecs_ok_def)
  have "manifest_ok sample_env sample_reader (dk_segments (snd stored_state)) (db_manifest opened_db) []"
    by (simp add: manifest_ok_def segs_hold_def names_ok_def opened_db_def opened_def sample_manifest_def Manifest_initial_def)
  from purged_event_returns [OF eok opened_empty(1) rep this stored_in_log, of OpenOptions_default "[]"] show ?thesis
    using rep by auto
qed

end
