(* ===== verification/Lexer.thy ===== *)
theory Lexer
  imports Str
begin

text \<open>
  The tokeniser of AttemptQL (\<open>attemptdb-query/src/attemptql/lexer.rs\<close>): white space and comments,
  quoted strings and identifiers, relative timestamps, words that may continue through hyphens as
  ids, numbers and punctuation, each token with its byte offsets. The text is its UTF-8 bytes; a
  character of a string literal is copied byte by byte, which is the same since no byte of a multi-byte
  character is an ASCII character.
\<close>

section \<open>Errors and tokens\<close>

text \<open>
  \<open>QueryError::Parse\<close>, the only error the parser makes. \<open>OutOfFuel\<close> is not an error of the program: it
  stands for a loop that did not end, and a theorem shows that it never happens.
\<close>

datatype QueryError = ParseError string nat | OutOfFuel

datatype TokKind = Word string | Str string | Num string | Relative string | Punct string | Eof

record Token =
  tok_kind :: TokKind
  tok_start :: nat
  tok_end :: nat

text \<open>\<open>Token::text\<close>: the token as it was typed.\<close>

definition tok_text :: "string \<Rightarrow> Token \<Rightarrow> string" where
  "tok_text source t =
     (if tok_start t \<le> tok_end t \<and> tok_end t \<le> length source then slice (tok_start t) (tok_end t) source else [])"

definition TWO_CHAR :: "string list" where
  "TWO_CHAR = [''<='', ''>='', ''<>'', ''!='', ''||'', ''::'']"

definition ONE_CHAR :: "string list" where
  "ONE_CHAR = [''='', ''<'', ''>'', ''('', '')'', ''+'', ''-'', ''*'', ''/'', ''%'', '','', ''.'', '';'', ''['', '']'', ''!'',
     ''|'', '':'']"

definition is_ascii_whitespace :: "char \<Rightarrow> bool" where
  "is_ascii_whitespace c \<longleftrightarrow> code c \<in> {9, 10, 12, 13, 32}"

definition is_ascii_hexdigit :: "char \<Rightarrow> bool" where
  "is_ascii_hexdigit c \<longleftrightarrow> is_ascii_digit c \<or> 97 \<le> code c \<and> code c \<le> 102 \<or> 65 \<le> code c \<and> code c \<le> 70"

definition is_word_char :: "char \<Rightarrow> bool" where
  "is_word_char c \<longleftrightarrow> is_ascii_alphanumeric c \<or> c = CHR ''_''"

text \<open>Whether an atom may continue through a hyphen: after an optional \<open>xxx_\<close> prefix it is hex or hyphens.\<close>

definition hyphen_continues :: "string \<Rightarrow> bool" where
  "hyphen_continues atom =
     (let rest = (case split_once ''_'' atom of Some (_, r) \<Rightarrow> r | None \<Rightarrow> atom)
      in rest \<noteq> [] \<and> list_all (\<lambda>c. is_ascii_hexdigit c \<or> c = CHR ''-'') rest)"

section \<open>The pieces of a token\<close>

text \<open>The bytes of a block comment after its opening, up to and including its end.\<close>

fun block_comment :: "string \<Rightarrow> nat option" where
  "block_comment (c # d # cs) =
     (if c = CHR ''*'' \<and> d = CHR ''/'' then Some 2 else map_option Suc (block_comment (d # cs)))"
| "block_comment cs = None"

text \<open>A string literal after its opening quote: its value and the bytes up to and including the closing quote.\<close>

fun lex_string :: "string \<Rightarrow> (string \<times> nat) option" where
  "lex_string [] = None"
| "lex_string [c] = (if c = CHR 0x27 then Some ([], 1) else None)"
| "lex_string (c # d # cs) =
     (if c = CHR 0x27 then
        if d = CHR 0x27 then map_option (\<lambda>(v, n). (CHR 0x27 # v, n + 2)) (lex_string cs)
        else Some ([], 1)
      else map_option (\<lambda>(v, n). (c # v, Suc n)) (lex_string (d # cs)))"

text \<open>A relative timestamp after its minus sign: the number of bytes.\<close>

definition lex_relative :: "string \<Rightarrow> nat option" where
  "lex_relative cs =
     (let j = length (takeWhile is_ascii_digit cs)
      in case drop j cs of
           u # rest \<Rightarrow>
             if 0 < j \<and> u \<in> {CHR ''s'', CHR ''m'', CHR ''h'', CHR ''d'', CHR ''w''} \<and>
                (case rest of [] \<Rightarrow> True | b # _ \<Rightarrow> \<not> is_word_char b)
             then Some (Suc j) else None
         | [] \<Rightarrow> None)"

text \<open>A decimal literal continues through one point and the digits after it.\<close>

definition lex_decimal :: "string \<Rightarrow> nat \<Rightarrow> nat" where
  "lex_decimal cs i =
     (case drop i cs of
        p # d # rest \<Rightarrow>
          if is_ascii_digit (hd cs) \<and> p = CHR ''.'' \<and> is_ascii_digit d
          then i + 1 + length (takeWhile is_ascii_digit (d # rest)) else i
      | _ \<Rightarrow> i)"

text \<open>The continuation of an id through hyphens.\<close>

function lex_hyphens :: "string \<Rightarrow> nat \<Rightarrow> nat" where
  "lex_hyphens cs i =
     (case drop i cs of
        h # d # rest \<Rightarrow>
          if h = CHR ''-'' \<and> is_ascii_hexdigit d \<and> hyphen_continues (take i cs)
          then lex_hyphens cs (i + 1 + length (takeWhile is_ascii_hexdigit (d # rest)))
          else i
      | _ \<Rightarrow> i)"
  by pat_completeness auto
termination
proof (relation "measure (\<lambda>(cs, i). length cs - i)")
  fix cs :: string and i h t d rest
  assume "drop i cs = h # t" "t = d # rest"
  then have "i + 1 < length cs"
    by (metis Suc_eq_plus1 drop_eq_Nil2 drop_Suc list.sel(3) list.distinct(1) not_le tl_drop)
  then show "((cs, i + 1 + length (takeWhile is_ascii_hexdigit (d # rest))), cs, i) \<in> measure (\<lambda>(cs, i). length cs - i)"
    by simp
qed simp

declare lex_hyphens.simps [simp del]

definition lex_word :: "string \<Rightarrow> nat" where
  "lex_word cs = lex_hyphens cs (lex_decimal cs (length (takeWhile is_word_char cs)))"

text \<open>The first UTF-8 character of the text.\<close>

definition first_char :: "string \<Rightarrow> string" where
  "first_char cs =
     (case cs of [] \<Rightarrow> []
      | c # _ \<Rightarrow> take (if code c < 0xC0 then 1 else if code c < 0xE0 then 2 else if code c < 0xF0 then 3 else 4) cs)"

section \<open>The loop\<close>

text \<open>One round at offset \<open>i\<close>: the token found, if any, and the number of bytes it takes.\<close>

definition lex_one :: "nat \<Rightarrow> string \<Rightarrow> QueryError + TokKind option \<times> nat" where
  "lex_one i cs =
     (let c = hd cs; rest = tl cs in
      if is_ascii_whitespace c then Ok (None, 1)
      else if c = CHR ''-'' \<and> starts_with ''-'' rest then
        Ok (None, length (takeWhile (\<lambda>x. code x \<noteq> 10) cs))
      else if c = CHR ''/'' \<and> starts_with ''*'' rest then
        (case block_comment (drop 2 cs) of
           None \<Rightarrow> Err (ParseError ''unterminated block comment'' i)
         | Some n \<Rightarrow> Ok (None, n + 2))
      else if c = CHR 0x27 then
        (case lex_string rest of
           None \<Rightarrow> Err (ParseError ''unterminated string literal'' i)
         | Some (v, n) \<Rightarrow> Ok (Some (Str v), Suc n))
      else if c = CHR 0x22 then
        (let n = length (takeWhile (\<lambda>x. x \<noteq> CHR 0x22) rest)
         in if n = length rest then Err (ParseError ''unterminated quoted identifier'' i)
            else Ok (Some (Word (take (n + 2) cs)), n + 2))
      else if c = CHR ''-'' \<and> lex_relative rest \<noteq> None then
        (let n = the (lex_relative rest) in Ok (Some (Relative (take (Suc n) cs)), Suc n))
      else if is_word_char c then
        (let n = lex_word cs; atom = take n cs
         in Ok (Some (if list_all (\<lambda>ch. is_ascii_digit ch \<or> ch = CHR ''.'') atom then Num atom else Word atom), n))
      else case find (\<lambda>p. starts_with p cs) TWO_CHAR of
          Some p \<Rightarrow> Ok (Some (Punct p), 2)
        | None \<Rightarrow>
        case find (\<lambda>p. starts_with p cs) ONE_CHAR of
          Some p \<Rightarrow> Ok (Some (Punct p), 1)
        | None \<Rightarrow> Err (ParseError (''unexpected character '' @ [CHR 0x27] @ first_char cs @ [CHR 0x27]) i))"

section \<open>Progress\<close>

lemma block_comment_bound: "block_comment cs = Some n \<Longrightarrow> 2 \<le> n \<and> n \<le> length cs"
proof (induction cs arbitrary: n rule: block_comment.induct)
  case (1 c d cs)
  then show ?case
    by (cases "c = CHR ''*'' \<and> d = CHR ''/''") (auto split: if_splits)
qed auto

lemma lex_string_bound: "lex_string cs = Some (v, n) \<Longrightarrow> 1 \<le> n \<and> n \<le> length cs"
proof (induction cs arbitrary: v n rule: lex_string.induct)
  case (3 c d cs)
  then show ?case
    by (cases "c = CHR 0x27"; cases "d = CHR 0x27") fastforce+
qed (auto split: if_splits)

lemma lex_relative_bound: "lex_relative cs = Some n \<Longrightarrow> 2 \<le> n \<and> n \<le> length cs"
proof -
  assume a: "lex_relative cs = Some n"
  let ?j = "length (takeWhile is_ascii_digit cs)"
  obtain u rest where d: "drop ?j cs = u # rest"
    using a by (auto simp: lex_relative_def Let_def split: list.splits)
  then have "?j < length cs"
    by (metis drop_all list.distinct(1) not_le)
  then show ?thesis
    using a d by (auto simp: lex_relative_def Let_def Suc_le_eq split: if_splits)
qed

lemma drop_two: "drop i cs = h # d # rest \<Longrightarrow> i + 2 + length rest = length cs"
proof -
  assume "drop i cs = h # d # rest"
  then have "length cs - i = Suc (Suc (length rest))"
    by (metis length_Cons length_drop)
  then show ?thesis
    by simp
qed

lemma lex_decimal_bound:
  assumes "i \<le> length cs"
  shows "i \<le> lex_decimal cs i \<and> lex_decimal cs i \<le> length cs"
proof (cases "\<exists>p d rest. drop i cs = p # d # rest")
  case True
  then obtain p d rest where d: "drop i cs = p # d # rest"
    by blast
  have "length (takeWhile is_ascii_digit (d # rest)) \<le> Suc (length rest)"
    using length_takeWhile_le [of is_ascii_digit "d # rest"] by simp
  then show ?thesis
    using drop_two [OF d] assms by (auto simp: lex_decimal_def d)
qed (use assms in \<open>auto simp: lex_decimal_def split: list.splits\<close>)

lemma lex_hyphens_bound: "i \<le> length cs \<Longrightarrow> i \<le> lex_hyphens cs i \<and> lex_hyphens cs i \<le> length cs"
proof (induction cs i rule: lex_hyphens.induct)
  case (1 cs i)
  show ?case
  proof (cases "\<exists>h d rest. drop i cs = h # d # rest \<and> h = CHR ''-'' \<and> is_ascii_hexdigit d \<and> hyphen_continues (take i cs)")
    case True
    then obtain h d rest where d: "drop i cs = h # d # rest" "h = CHR ''-'' \<and> is_ascii_hexdigit d \<and> hyphen_continues (take i cs)"
      by blast
    let ?j = "i + 1 + length (takeWhile is_ascii_hexdigit (d # rest))"
    have "length (takeWhile is_ascii_hexdigit (d # rest)) \<le> Suc (length rest)"
      using length_takeWhile_le [of is_ascii_hexdigit "d # rest"] by simp
    then have "?j \<le> length cs"
      using drop_two [OF d(1)] by linarith
    then have "?j \<le> lex_hyphens cs ?j \<and> lex_hyphens cs ?j \<le> length cs"
      using "1.IH" [OF d(1) refl d(2)] by simp
    moreover have "lex_hyphens cs i = lex_hyphens cs ?j"
      using d by (subst lex_hyphens.simps) simp
    ultimately show ?thesis
      by simp
  next
    case False
    then have "lex_hyphens cs i = i"
      by (subst lex_hyphens.simps) (auto split: list.splits)
    then show ?thesis
      using "1.prems" by simp
  qed
qed

lemma lex_word_bound:
  assumes "cs \<noteq> []" and "is_word_char (hd cs)"
  shows "1 \<le> lex_word cs \<and> lex_word cs \<le> length cs"
proof -
  let ?i = "length (takeWhile is_word_char cs)"
  have "1 \<le> ?i"
    using assms by (cases cs) auto
  moreover have "?i \<le> length cs"
    by (rule length_takeWhile_le)
  ultimately show ?thesis
    using lex_decimal_bound [of ?i cs] lex_hyphens_bound [of "lex_decimal cs ?i" cs] by (simp add: lex_word_def)
qed

lemma starts_with_len: "starts_with p cs \<Longrightarrow> length p \<le> length cs"
  by (auto simp: starts_with_def strip_prefix_Some)

lemma find_starts:
  assumes "find (\<lambda>p. starts_with p cs) ps = Some p" and "\<forall>p \<in> set ps. length p = n"
  shows "n \<le> length cs"
  using assms starts_with_len [of p cs] by (auto simp: find_Some_iff)

lemma lex_one_bound:
  assumes "cs \<noteq> []" and "lex_one i cs = Ok (t, n)"
  shows "1 \<le> n \<and> n \<le> length cs"
proof -
  obtain c rest where cs: "cs = c # rest"
    using assms(1) by (cases cs) auto
  have two: "2 \<le> length (c # rest)" if "find (\<lambda>p. starts_with p (c # rest)) TWO_CHAR = Some p" for p
    using find_starts [OF that, of 2] by (simp add: TWO_CHAR_def)
  have line: "1 \<le> length (takeWhile (\<lambda>x. code x \<noteq> 10) (c # rest))" if "c = CHR ''-''"
    using that by (simp add: code_def)
  have block: "k + 2 \<le> length (c # rest)" if "block_comment (drop 2 (c # rest)) = Some k" for k
    using block_comment_bound [OF that] by (cases rest) auto
  have ident: "length (takeWhile (\<lambda>x. x \<noteq> CHR 0x22) rest) + 2 \<le> length (c # rest)"
    if "length (takeWhile (\<lambda>x. x \<noteq> CHR 0x22) rest) \<noteq> length rest"
    using that length_takeWhile_le [of "\<lambda>x. x \<noteq> CHR 0x22" rest] by simp
  have word: "1 \<le> lex_word (c # rest) \<and> lex_word (c # rest) \<le> length (c # rest)" if "is_word_char c"
    using lex_word_bound [of "c # rest"] that by simp
  have rel: "Suc (the (lex_relative rest)) \<le> length (c # rest)" if "lex_relative rest \<noteq> None"
    using that lex_relative_bound [of rest] by auto
  have str: "Suc k \<le> length (c # rest)" if "lex_string rest = Some (v, k)" for v k
    using lex_string_bound [OF that] by simp
  show ?thesis
    using assms(2) line block ident word rel str two length_takeWhile_le [of "\<lambda>x. code x \<noteq> 10" "c # rest"]
    unfolding lex_one_def Let_def cs list.sel
    by (auto simp del: takeWhile.simps split: if_splits option.splits)
qed

section \<open>The tokeniser\<close>

abbreviation eof_at :: "nat \<Rightarrow> Token" where
  "eof_at i \<equiv> \<lparr>tok_kind = Eof, tok_start = i, tok_end = i\<rparr>"

function lex_loop :: "nat \<Rightarrow> string \<Rightarrow> QueryError + Token list" where
  "lex_loop i cs =
     (if cs = [] then Ok [eof_at i]
      else case lex_one i cs of
             Err e \<Rightarrow> Err e
           | Ok (found, n) \<Rightarrow>
               (case lex_loop (i + n) (drop n cs) of
                  Err e \<Rightarrow> Err e
                | Ok ts \<Rightarrow>
                    Ok (case found of
                          None \<Rightarrow> ts
                        | Some kind \<Rightarrow> \<lparr>tok_kind = kind, tok_start = i, tok_end = i + n\<rparr> # ts)))"
  by pat_completeness auto
termination
proof (relation "measure (\<lambda>(i, cs). length cs)")
  fix i cs x found n
  assume "cs \<noteq> []" "lex_one i cs = Ok x" "(found, n) = x"
  then show "((i + n, drop n cs), i, cs) \<in> measure (\<lambda>(i, cs). length cs)"
    using lex_one_bound [of cs i found n] by auto
qed simp

declare lex_loop.simps [simp del]

definition lex :: "string \<Rightarrow> QueryError + Token list" where
  "lex txt = lex_loop 0 txt"

section \<open>What the tokens denote\<close>

text \<open>The text of a string literal: its value with every quote doubled, between quotes.\<close>

definition escape :: "string \<Rightarrow> string" where
  "escape v = concat (map (\<lambda>c. if c = CHR 0x27 then [CHR 0x27, CHR 0x27] else [c]) v)"

lemma escape_simps [simp]: "escape [] = []"
  "escape (c # v) = (if c = CHR 0x27 then CHR 0x27 # CHR 0x27 # escape v else c # escape v)"
  by (simp_all add: escape_def)

fun kind_text :: "TokKind \<Rightarrow> string" where
  "kind_text (Word w) = w"
| "kind_text (Str v) = CHR 0x27 # escape v @ [CHR 0x27]"
| "kind_text (Num n) = n"
| "kind_text (Relative r) = r"
| "kind_text (Punct p) = p"
| "kind_text Eof = []"

text \<open>White space and comments.\<close>

definition blank :: "string \<Rightarrow> bool" where
  "blank b \<longleftrightarrow>
     (\<exists>c. b = [c] \<and> is_ascii_whitespace c) \<or>
     (\<exists>r. b = ''--'' @ r \<and> (\<forall>c \<in> set r. code c \<noteq> 10)) \<or>
     (\<exists>r. b = ''/*'' @ r @ ''*/'' \<and> \<not> contains ''*/'' (butlast (r @ ''*/'')))"

inductive tiles :: "nat \<Rightarrow> string \<Rightarrow> Token list \<Rightarrow> bool" where
  tiles_end: "tiles i [] [eof_at i]"
| tiles_blank: "blank b \<Longrightarrow> tiles (i + length b) rest ts \<Longrightarrow> tiles i (b @ rest) ts"
| tiles_token: "kind_text k \<noteq> [] \<Longrightarrow> tiles (i + length (kind_text k)) rest ts \<Longrightarrow>
    tiles i (kind_text k @ rest) (\<lparr>tok_kind = k, tok_start = i, tok_end = i + length (kind_text k)\<rparr> # ts)"

lemma lex_string_text: "lex_string cs = Some (v, n) \<Longrightarrow> take n cs = escape v @ [CHR 0x27]"
proof (induction cs arbitrary: v n rule: lex_string.induct)
  case (3 c d cs)
  show ?case
  proof (cases "c = CHR 0x27")
    case False
    then obtain v' n' where "lex_string (d # cs) = Some (v', n')" "v = c # v'" "n = Suc n'"
      using "3.prems" by auto
    then show ?thesis
      using "3.IH"(2) [OF False] False by simp
  next
    case q: True
    show ?thesis
    proof (cases "d = CHR 0x27")
      case True
      then obtain v' n' where "lex_string cs = Some (v', n')" "v = CHR 0x27 # v'" "n = n' + 2"
        using "3.prems" q by auto
      then show ?thesis
        using "3.IH"(1) [OF q True] q True by simp
    qed (use "3.prems" q in auto)
  qed
qed (auto split: if_splits)

lemma contains_Cons: "p \<noteq> [] \<Longrightarrow> contains p (c # cs) \<longleftrightarrow> starts_with p (c # cs) \<or> contains p cs"
  by (auto simp: contains_def starts_with_def split: option.splits)

lemma block_comment_text:
  "block_comment cs = Some n \<Longrightarrow> (\<exists>r. take n cs = r @ ''*/'') \<and> \<not> contains ''*/'' (butlast (take n cs))"
proof (induction cs arbitrary: n rule: block_comment.induct)
  case (1 c d cs)
  show ?case
  proof (cases "c = CHR ''*'' \<and> d = CHR ''/''")
    case True
    then show ?thesis
      using "1.prems" by (auto simp: contains_def)
  next
    case False
    then obtain n' where n: "n = Suc n'" "block_comment (d # cs) = Some n'"
      using "1.prems" by auto
    obtain r where r: "take n' (d # cs) = r @ ''*/''" and no: "\<not> contains ''*/'' (butlast (take n' (d # cs)))"
      using "1.IH" [OF False n(2)] by blast
    have "2 \<le> n' \<and> n' \<le> length (d # cs)"
      by (rule block_comment_bound [OF n(2)])
    then obtain e ds where ds: "take n' (d # cs) = d # e # ds"
      by (cases n'; cases cs) (auto simp: take_Cons' split: if_splits)
    have "\<not> contains ''*/'' (c # butlast (take n' (d # cs)))"
      using False no unfolding ds by (simp add: contains_Cons) (auto simp: starts_with_def strip_prefix_Some split: if_splits)
    moreover have "butlast (take n (c # d # cs)) = c # butlast (take n' (d # cs))" "take n (c # d # cs) = (c # r) @ ''*/''"
      using n(1) ds r by simp_all
    ultimately show ?thesis
      by metis
  qed
qed auto

lemma takeWhile_take: "take (length (takeWhile P xs)) xs = takeWhile P xs"
  by (metis takeWhile_eq_take)

lemma find_text:
  assumes "find (\<lambda>p. starts_with p cs) ps = Some p"
  shows "take (length p) cs = p \<and> p \<in> set ps"
  using assms by (auto simp: find_Some_iff starts_with_def strip_prefix_Some)

lemma lex_one_text:
  assumes "cs \<noteq> []" and "lex_one i cs = Ok (found, n)"
  shows "case found of None \<Rightarrow> blank (take n cs) | Some k \<Rightarrow> kind_text k = take n cs \<and> k \<noteq> Eof"
proof -
  obtain c rest where cs: "cs = c # rest"
    using assms(1) by (cases cs) auto
  have two: "length p = 2 \<and> take 2 (c # rest) = p" if "find (\<lambda>p. starts_with p (c # rest)) TWO_CHAR = Some p" for p
    using find_text [OF that] by (auto simp: TWO_CHAR_def)
  have one: "length p = 1 \<and> take 1 (c # rest) = p" if "find (\<lambda>p. starts_with p (c # rest)) ONE_CHAR = Some p" for p
    using find_text [OF that] by (auto simp: ONE_CHAR_def)
  have ws: "blank [c]" if "is_ascii_whitespace c"
    using that by (simp add: blank_def)
  have line: "blank (take (length (takeWhile (\<lambda>x. code x \<noteq> 10) (c # rest))) (c # rest))"
    if a: "c = CHR ''-''" "starts_with ''-'' rest"
  proof -
    obtain r where r: "rest = CHR ''-'' # r"
      using a(2) by (auto simp: starts_with_def strip_prefix_Some)
    have tw: "takeWhile (\<lambda>x. code x \<noteq> 10) (c # rest) = ''--'' @ takeWhile (\<lambda>x. code x \<noteq> 10) r"
      by (simp add: a(1) r code_def)
    have "\<forall>x \<in> set (takeWhile (\<lambda>x. code x \<noteq> 10) r). code x \<noteq> 10"
      by (auto dest: set_takeWhileD)
    then have "blank (takeWhile (\<lambda>x. code x \<noteq> 10) (c # rest))"
      unfolding tw blank_def by (intro disjI2 [OF disjI1] exI conjI) (rule refl)
    then show ?thesis
      by (simp only: takeWhile_take)
  qed
  have block: "blank (take (k + 2) (c # rest))"
    if a: "c = CHR ''/''" "starts_with ''*'' rest" "block_comment (drop 2 (c # rest)) = Some k" for k
  proof -
    obtain r where r: "rest = CHR ''*'' # r"
      using a(2) by (auto simp: starts_with_def strip_prefix_Some)
    then obtain x where "take k r = x @ ''*/''" "\<not> contains ''*/'' (butlast (take k r))"
      using block_comment_text [OF a(3)] by auto
    then have "take (k + 2) (c # rest) = ''/*'' @ x @ ''*/'' \<and> \<not> contains ''*/'' (butlast (x @ ''*/''))"
      by (simp add: a(1) r)
    then show ?thesis
      unfolding blank_def by (intro disjI2 exI)
  qed
  have ident: "take (length (takeWhile (\<lambda>x. x \<noteq> CHR 0x22) rest) + 2) (c # rest) \<noteq> []"
    by simp
  show ?thesis
    using assms(2) ws line block two one lex_string_text [of rest]
    unfolding lex_one_def Let_def cs list.sel
    by (auto simp del: takeWhile.simps find.simps split: if_splits option.splits)
qed

lemma lex_loop_tiles: "lex_loop i cs = Ok ts \<Longrightarrow> tiles i cs ts"
proof (induction i cs arbitrary: ts rule: lex_loop.induct)
  case (1 i cs)
  show ?case
  proof (cases "cs = []")
    case True
    then show ?thesis
      using "1.prems" by (auto simp: lex_loop.simps intro: tiles_end)
  next
    case False
    then obtain found n ts' where one: "lex_one i cs = Ok (found, n)" and rest: "lex_loop (i + n) (drop n cs) = Ok ts'"
      and ts: "ts = (case found of None \<Rightarrow> ts' | Some kind \<Rightarrow> \<lparr>tok_kind = kind, tok_start = i, tok_end = i + n\<rparr> # ts')"
      using "1.prems" by (subst (asm) lex_loop.simps) (auto split: sum.splits)
    have n: "1 \<le> n \<and> n \<le> length cs"
      by (rule lex_one_bound [OF False one])
    have ih: "tiles (i + n) (drop n cs) ts'"
      using "1.IH" [OF False one refl] rest by simp
    have len: "length (take n cs) = n"
      using n by simp
    show ?thesis
    proof (cases found)
      case None
      then have "blank (take n cs)"
        using lex_one_text [OF False one] by simp
      then have "tiles i (take n cs @ drop n cs) ts'"
        using ih len by (intro tiles_blank) simp_all
      then show ?thesis
        using ts None by simp
    next
      case (Some k)
      then have k: "kind_text k = take n cs"
        using lex_one_text [OF False one] by simp
      then have "tiles i (kind_text k @ drop n cs) (\<lparr>tok_kind = k, tok_start = i, tok_end = i + length (kind_text k)\<rparr> # ts')"
        using ih len n False by (intro tiles_token) auto
      then show ?thesis
        using ts Some k len by simp
    qed
  qed
qed

text \<open>What the tiling gives the parser: the end of the statement closes the list, offsets stay in the text.\<close>

lemma tiles_shape:
  "tiles i cs ts \<Longrightarrow> ts \<noteq> [] \<and> tok_kind (last ts) = Eof \<and> tok_start (last ts) = i + length cs \<and>
    (\<forall>t \<in> set ts. i \<le> tok_start t \<and> tok_start t \<le> tok_end t \<and> tok_end t \<le> i + length cs)"
  by (induction rule: tiles.induct) auto

lemma lex_shape:
  assumes "lex txt = Ok ts"
  shows "ts \<noteq> []" "tok_kind (last ts) = Eof" "\<forall>t \<in> set ts. tok_start t \<le> tok_end t \<and> tok_end t \<le> length txt"
  using tiles_shape [OF lex_loop_tiles [OF assms [unfolded lex_def]]] by simp_all

lemma lex_one_error: "cs \<noteq> [] \<Longrightarrow> lex_one i cs = Err (ParseError m p) \<Longrightarrow> p = i"
  by (auto simp: lex_one_def Let_def simp del: takeWhile.simps split: if_splits option.splits prod.splits)

lemma lex_one_no_fuel: "lex_one i cs \<noteq> Err OutOfFuel"
  by (simp add: lex_one_def Let_def split: option.splits)

lemma lex_loop_no_fuel: "lex_loop i cs \<noteq> Err OutOfFuel"
proof (induction i cs rule: lex_loop.induct)
  case (1 i cs)
  then show ?case
    using lex_one_no_fuel [of i cs] by (subst lex_loop.simps) (auto split: sum.splits)
qed

lemma lex_loop_error: "lex_loop i cs = Err (ParseError m p) \<Longrightarrow> i \<le> p \<and> p < i + length cs"
proof (induction i cs rule: lex_loop.induct)
  case (1 i cs)
  have ne: "cs \<noteq> []"
    using "1.prems" by (auto simp: lex_loop.simps)
  show ?case
  proof (cases "lex_one i cs")
    case (Inl e)
    then have "e = ParseError m p"
      using "1.prems" ne by (subst (asm) lex_loop.simps) simp
    then show ?thesis
      using lex_one_error [OF ne, of i m p] Inl ne by simp
  next
    case (Inr x)
    obtain found n where x: "x = (found, n)"
      by (cases x)
    have n: "1 \<le> n \<and> n \<le> length cs"
      using lex_one_bound [OF ne] Inr x by simp
    have "lex_loop (i + n) (drop n cs) = Err (ParseError m p)"
      using "1.prems" ne Inr x by (subst (asm) lex_loop.simps) (simp split: sum.splits)
    then show ?thesis
      using "1.IH" [OF ne Inr x [symmetric]] n by simp
  qed
qed

section \<open>Writing tokens\<close>

text \<open>The tokens that can be written on their own, and a list of them with a space after each.\<close>

fun writable :: "TokKind \<Rightarrow> bool" where
  "writable (Word w) \<longleftrightarrow> w \<noteq> [] \<and> list_all is_word_char w \<and> \<not> list_all is_ascii_digit w"
| "writable (Str v) \<longleftrightarrow> True"
| "writable (Num n) \<longleftrightarrow> n \<noteq> [] \<and> list_all is_ascii_digit n"
| "writable (Relative r) \<longleftrightarrow>
     (\<exists>ds u. r = CHR ''-'' # ds @ [u] \<and> ds \<noteq> [] \<and> list_all is_ascii_digit ds \<and>
        u \<in> {CHR ''s'', CHR ''m'', CHR ''h'', CHR ''d'', CHR ''w''})"
| "writable (Punct p) \<longleftrightarrow> p \<in> set TWO_CHAR \<union> set ONE_CHAR"
| "writable Eof \<longleftrightarrow> False"

definition render :: "TokKind list \<Rightarrow> string" where
  "render ks = concat (map (\<lambda>k. kind_text k @ '' '') ks)"

lemma word_char_not: "is_word_char c \<Longrightarrow> \<not> is_ascii_whitespace c \<and> c \<notin> {CHR ''-'', CHR ''/'', CHR 0x27, CHR 0x22}"
  by (auto simp: is_word_char_def is_ascii_alphanumeric_def is_ascii_alphabetic_def is_ascii_lowercase_def is_ascii_uppercase_def
      is_ascii_digit_def is_ascii_whitespace_def code_def)

lemma space_not_word [simp]: "\<not> is_word_char CHR '' ''" "\<not> is_ascii_digit CHR '' ''"
  by (simp_all add: is_word_char_def is_ascii_alphanumeric_def is_ascii_alphabetic_def is_ascii_lowercase_def is_ascii_uppercase_def
      is_ascii_digit_def code_def)

lemma dot_not_word: "\<not> is_word_char CHR ''.''"
  by (simp add: is_word_char_def is_ascii_alphanumeric_def is_ascii_alphabetic_def is_ascii_lowercase_def is_ascii_uppercase_def
      is_ascii_digit_def code_def)

lemma digit_word: "is_ascii_digit c \<Longrightarrow> is_word_char c"
  by (simp add: is_word_char_def is_ascii_alphanumeric_def)

lemma takeWhile_all_space: "list_all P w \<Longrightarrow> \<not> P CHR '' '' \<Longrightarrow> takeWhile P (w @ CHR '' '' # rest) = w"
  by (simp add: list_all_iff takeWhile_append2)

lemma lex_word_space:
  assumes "w \<noteq> []" and "list_all is_word_char w"
  shows "lex_word (w @ CHR '' '' # rest) = length w"
proof -
  have d: "drop (length w) (w @ CHR '' '' # rest) = CHR '' '' # rest"
    by simp
  have "lex_decimal (w @ CHR '' '' # rest) (length w) = length w"
    by (auto simp: lex_decimal_def split: list.splits)
  moreover have "lex_hyphens (w @ CHR '' '' # rest) (length w) = length w"
    by (subst lex_hyphens.simps) (auto split: list.splits)
  ultimately show ?thesis
    by (simp add: lex_word_def takeWhile_all_space [OF assms(2)])
qed

lemma lex_one_word:
  assumes "w \<noteq> []" and "list_all is_word_char w"
  shows "lex_one i (w @ CHR '' '' # rest) =
    Ok (Some (if list_all (\<lambda>ch. is_ascii_digit ch \<or> ch = CHR ''.'') w then Num w else Word w), length w)"
proof -
  obtain c cs where w: "w = c # cs"
    using assms(1) by (cases w) auto
  have "is_word_char c"
    using assms(2) w by simp
  then show ?thesis
    using word_char_not [of c] lex_word_space [OF assms, of rest] by (simp add: lex_one_def w)
qed

lemma lex_string_escape: "lex_string (escape v @ CHR 0x27 # CHR '' '' # rest) = Some (v, Suc (length (escape v)))"
proof (induction v)
  case (Cons c v)
  obtain d ds where "escape v @ CHR 0x27 # CHR '' '' # rest = d # ds"
    by (cases "escape v") auto
  then show ?case
    using Cons by auto
qed simp

lemma lex_one_other:
  assumes "\<not> is_ascii_whitespace c" and "\<not> is_word_char c" and "c \<noteq> CHR 0x27" and "c \<noteq> CHR 0x22"
    and "c = CHR ''-'' \<longrightarrow> \<not> starts_with ''-'' rest \<and> lex_relative rest = None" and "c = CHR ''/'' \<longrightarrow> \<not> starts_with ''*'' rest"
  shows "lex_one i (c # rest) =
    (case find (\<lambda>p. starts_with p (c # rest)) TWO_CHAR of
       Some p \<Rightarrow> Ok (Some (Punct p), 2)
     | None \<Rightarrow>
     case find (\<lambda>p. starts_with p (c # rest)) ONE_CHAR of
       Some p \<Rightarrow> Ok (Some (Punct p), 1)
     | None \<Rightarrow> Err (ParseError (''unexpected character '' @ [CHR 0x27] @ first_char (c # rest) @ [CHR 0x27]) i))"
  using assms unfolding lex_one_def Let_def list.sel by auto

lemma punct_heads:
  "p \<in> set TWO_CHAR \<union> set ONE_CHAR \<Longrightarrow>
   \<not> is_ascii_whitespace (hd p) \<and> \<not> is_word_char (hd p) \<and> hd p \<noteq> CHR 0x27 \<and> hd p \<noteq> CHR 0x22"
  by (auto simp: TWO_CHAR_def ONE_CHAR_def is_ascii_whitespace_def is_word_char_def is_ascii_alphanumeric_def
      is_ascii_alphabetic_def is_ascii_lowercase_def is_ascii_uppercase_def is_ascii_digit_def code_def)

lemma starts_with_Cons: "starts_with [] s" "starts_with (p # ps) (c # cs) \<longleftrightarrow> p = c \<and> starts_with ps cs"
  by (simp_all add: starts_with_def)

lemma find_two: "p \<in> set TWO_CHAR \<Longrightarrow> find (\<lambda>q. starts_with q (p @ rest)) TWO_CHAR = Some p"
  unfolding TWO_CHAR_def by (simp only: list.set insert_iff empty_iff) (elim disjE; simp add: starts_with_Cons)

lemma find_single: "p \<in> set ONE_CHAR \<Longrightarrow> find (\<lambda>q. starts_with q (p @ CHR '' '' # rest)) TWO_CHAR = None"
  "p \<in> set ONE_CHAR \<Longrightarrow> find (\<lambda>q. starts_with q (p @ CHR '' '' # rest)) ONE_CHAR = Some p"
  unfolding TWO_CHAR_def ONE_CHAR_def
  by (simp_all only: list.set insert_iff empty_iff) (elim disjE; simp add: starts_with_Cons)+

lemma two_shape: "p \<in> set TWO_CHAR \<Longrightarrow> \<exists>c d. p = [c, d] \<and> c \<noteq> CHR ''-'' \<and> c \<noteq> CHR ''/''"
  unfolding TWO_CHAR_def by (simp only: list.set insert_iff empty_iff) (elim disjE; simp)

lemma single_shape: "p \<in> set ONE_CHAR \<Longrightarrow> \<exists>c. p = [c]"
  unfolding ONE_CHAR_def by (simp only: list.set insert_iff empty_iff) (elim disjE; simp)

lemma lex_one_two:
  assumes "p \<in> set TWO_CHAR"
  shows "lex_one i (p @ rest) = Ok (Some (Punct p), length p)"
proof -
  obtain c d where p: "p = [c, d]" "c \<noteq> CHR ''-''" "c \<noteq> CHR ''/''"
    using two_shape [OF assms] by blast
  then show ?thesis
    using lex_one_other [of c "d # rest" i] punct_heads [of p] find_two [OF assms, of rest] assms by simp
qed

lemma lex_one_single:
  assumes "p \<in> set ONE_CHAR"
  shows "lex_one i (p @ CHR '' '' # rest) = Ok (Some (Punct p), length p)"
proof -
  obtain c where p: "p = [c]"
    using single_shape [OF assms] by blast
  have "lex_relative (CHR '' '' # rest) = None" "\<not> starts_with ''-'' (CHR '' '' # rest)" "\<not> starts_with ''*'' (CHR '' '' # rest)"
    by (simp_all add: lex_relative_def starts_with_def)
  then show ?thesis
    using lex_one_other [of c "CHR '' '' # rest" i] punct_heads [of p] find_single [OF assms, of rest] assms p by simp
qed

lemma lex_one_render:
  assumes "writable k"
  shows "lex_one i (kind_text k @ CHR '' '' # rest) = Ok (Some k, length (kind_text k))"
proof (cases k)
  case (Word w)
  have "\<not> list_all (\<lambda>ch. is_ascii_digit ch \<or> ch = CHR ''.'') w"
    using assms [unfolded Word writable.simps list_all_iff] dot_not_word unfolding list_all_iff by metis
  then show ?thesis
    using lex_one_word [of w i rest] assms Word by simp
next
  case (Num n)
  then have "list_all is_word_char n" "list_all (\<lambda>ch. is_ascii_digit ch \<or> ch = CHR ''.'') n"
    using assms digit_word by (auto simp: list_all_iff)
  then show ?thesis
    using lex_one_word [of n i rest] assms Num by simp
next
  case (Str v)
  then show ?thesis
    using lex_string_escape [of v rest] by (simp add: lex_one_def is_ascii_whitespace_def code_def)
next
  case (Relative r)
  then obtain ds u where r: "r = CHR ''-'' # ds @ [u]" "ds \<noteq> []" "list_all is_ascii_digit ds"
    and u: "u \<in> {CHR ''s'', CHR ''m'', CHR ''h'', CHR ''d'', CHR ''w''}"
    using assms [unfolded Relative writable.simps] by blast
  have nd: "\<not> is_ascii_digit u"
    using u by (auto simp: is_ascii_digit_def code_def)
  have tw: "takeWhile is_ascii_digit (ds @ u # CHR '' '' # rest) = ds"
    using r(3) nd by (simp add: list_all_iff takeWhile_append2)
  have "lex_relative (ds @ u # CHR '' '' # rest) = Some (Suc (length ds))"
    using r(2) u by (simp add: lex_relative_def tw)
  moreover have "\<not> starts_with ''-'' (ds @ u # CHR '' '' # rest)"
    using r(2,3) by (cases ds) (auto simp: starts_with_def is_ascii_digit_def code_def)
  moreover have "\<not> is_ascii_whitespace CHR ''-''"
    by (simp add: is_ascii_whitespace_def code_def)
  ultimately show ?thesis
    using Relative r(1) by (simp add: lex_one_def)
next
  case (Punct p)
  show ?thesis
    unfolding Punct kind_text.simps
    using assms [unfolded Punct writable.simps] lex_one_two [of p i] lex_one_single [of p i] by blast
qed (use assms in simp)

lemma lex_one_space: "lex_one i (CHR '' '' # rest) = Ok (None, 1)"
  by (simp add: lex_one_def is_ascii_whitespace_def code_def)

lemma lex_loop_render:
  "list_all writable ks \<Longrightarrow> \<exists>ts. lex_loop i (render ks) = Ok ts \<and> map tok_kind ts = ks @ [Eof]"
proof (induction ks arbitrary: i)
  case Nil
  then show ?case
    by (simp add: render_def lex_loop.simps)
next
  case (Cons k ks)
  let ?n = "length (kind_text k)"
  have k: "writable k"
    using Cons.prems by simp
  obtain ts where ts: "lex_loop (i + ?n + 1) (render ks) = Ok ts" "map tok_kind ts = ks @ [Eof]"
    using Cons by auto
  have r: "render (k # ks) = kind_text k @ CHR '' '' # render ks"
    by (simp add: render_def)
  have "lex_loop (i + ?n) (CHR '' '' # render ks) = Ok ts"
    using ts(1) by (subst lex_loop.simps) (simp add: lex_one_space)
  then have "lex_loop i (render (k # ks)) = Ok (\<lparr>tok_kind = k, tok_start = i, tok_end = i + ?n\<rparr> # ts)"
    unfolding r by (subst lex_loop.simps) (simp add: lex_one_render [OF k])
  then show ?case
    using ts(2) by simp
qed

lemma lex_render: "list_all writable ks \<Longrightarrow> \<exists>ts. lex (render ks) = Ok ts \<and> map tok_kind ts = ks @ [Eof]"
  unfolding lex_def by (rule lex_loop_render)

section \<open>Theorems\<close>

text \<open>
  C38: the tokens of a statement tile its text. Reading them in order, with white space and comments
  between them, gives back the text byte for byte: every token but a string literal is the text at
  its offsets, a string literal is its value with quotes doubled between quotes, and the list ends with
  the end of the statement.
\<close>

theorem lex_tiles:
  assumes "lex txt = Ok ts"
  shows "tiles 0 txt ts"
  using lex_loop_tiles assms by (simp add: lex_def)

theorem lex_tiles_witness:
  "tiles 0 ''LIMIT 5'' [\<lparr>tok_kind = Word ''LIMIT'', tok_start = 0, tok_end = 5\<rparr>,
     \<lparr>tok_kind = Num ''5'', tok_start = 6, tok_end = 7\<rparr>, \<lparr>tok_kind = Eof, tok_start = 7, tok_end = 7\<rparr>]"
  by (rule lex_tiles) code_simp



end
