(* ===== verification/TimeExpr.thy ===== *)
theory TimeExpr
  imports Clock Str
begin

text \<open>
  Timestamp expressions of the query language (\<open>attemptdb-query/src/timeexpr.rs\<close>) and the parser of
  timestamps under them (\<open>Timestamp::parse\<close> of \<open>attemptdb-core/src/time.rs\<close>). The calendar of the
  \<open>chrono\<close> crate is a parameter: a function that reads the date formats, and a time zone.
\<close>

section \<open>Integers as text\<close>

text \<open>\<open>str::parse::<i64>\<close>.\<close>

definition parse_i64 :: "string \<Rightarrow> int option" where
  "parse_i64 s =
     (case s of
        [] \<Rightarrow> None
      | c # cs \<Rightarrow>
          if c = CHR ''-'' then
            (if cs = [] then None
             else Option.bind (parse_digits 0 cs) (\<lambda>n. if n \<le> 2 ^ 63 then Some (- int n) else None))
          else
            (let ds = (if c = CHR ''+'' then cs else s) in
             if ds = [] then None
             else Option.bind (parse_digits 0 ds) (\<lambda>n. if n < 2 ^ 63 then Some (int n) else None)))"

text \<open>The saturating \<open>i64\<close> operations.\<close>

definition sat_i64 :: "int \<Rightarrow> int" where
  "sat_i64 n = max (- (2 ^ 63)) (min n (2 ^ 63 - 1))"

section \<open>Timestamps\<close>

text \<open>\<open>dates\<close> reads the four date formats, in their order; then epoch seconds or milliseconds.\<close>

definition Timestamp_parse :: "(string \<Rightarrow> Timestamp option) \<Rightarrow> string \<Rightarrow> Timestamp option" where
  "Timestamp_parse dates s0 =
     (let s = trim s0 in
      case dates s of
        Some t \<Rightarrow> Some t
      | None \<Rightarrow>
          (case parse_i64 s of
             Some n \<Rightarrow> Some (if 10000000000 < n then from_millis n else i64_wrap (n * 1000000))
           | None \<Rightarrow> None))"

section \<open>Expressions\<close>

definition MICROS_PER_SECOND :: int where
  "MICROS_PER_SECOND = 1000000"

definition MICROS_PER_DAY :: int where
  "MICROS_PER_DAY = 86400 * MICROS_PER_SECOND"

datatype TimeExpr = Absolute Timestamp | Now | RelativeTime int char | Today | Yesterday

definition is_unit :: "char \<Rightarrow> bool" where
  "is_unit u \<longleftrightarrow> u \<in> {CHR ''s'', CHR ''m'', CHR ''h'', CHR ''d'', CHR ''w''}"

definition parse_relative :: "string \<Rightarrow> TimeExpr option" where
  "parse_relative s =
     (case strip_prefix ''-'' s of
        None \<Rightarrow> None
      | Some body \<Rightarrow>
          if body = [] \<or> \<not> is_unit (last body) then None
          else
            (let digits = butlast body in
             if digits = [] \<or> \<not> list_all is_ascii_digit digits then None
             else map_option (\<lambda>amount. RelativeTime amount (last body)) (parse_i64 digits)))"

definition parse_literal :: "(string \<Rightarrow> Timestamp option) \<Rightarrow> string \<Rightarrow> TimeExpr option" where
  "parse_literal dates s =
     (let t = trim s; lower = to_ascii_lowercase t in
      if lower = ''now'' then Some Now
      else if lower = ''today'' then Some Today
      else if lower = ''yesterday'' then Some Yesterday
      else case parse_relative lower of
             Some rel \<Rightarrow> Some rel
           | None \<Rightarrow> map_option Absolute (Timestamp_parse dates t))"

definition unit_micros :: "char \<Rightarrow> int" where
  "unit_micros u =
     (if u = CHR ''s'' then MICROS_PER_SECOND
      else if u = CHR ''m'' then 60 * MICROS_PER_SECOND
      else if u = CHR ''h'' then 3600 * MICROS_PER_SECOND
      else if u = CHR ''d'' then MICROS_PER_DAY
      else if u = CHR ''w'' then 7 * MICROS_PER_DAY
      else 0)"

text \<open>
  A time zone: the local midnight before an instant as a wall-clock time (\<open>None\<close> outside the
  calendar), and the instants a wall-clock time stands for.
\<close>

datatype LocalResult = LocalSingle Timestamp | LocalAmbiguous Timestamp Timestamp | LocalNone

record TimeZone =
  tz_midnight :: "Timestamp \<Rightarrow> int option"
  tz_from_local :: "int \<Rightarrow> LocalResult"

definition local_instant :: "TimeZone \<Rightarrow> int \<Rightarrow> Timestamp option" where
  "local_instant tz naive =
     (case tz_from_local tz naive of
        LocalSingle dt \<Rightarrow> Some dt
      | LocalAmbiguous first _ \<Rightarrow> Some first
      | LocalNone \<Rightarrow> None)"

definition start_of_day :: "TimeZone \<Rightarrow> Timestamp \<Rightarrow> Timestamp" where
  "start_of_day tz t =
     (case tz_midnight tz t of
        None \<Rightarrow> t
      | Some midnight \<Rightarrow>
          (case local_instant tz midnight of
             Some dt \<Rightarrow> dt
           | None \<Rightarrow> (case local_instant tz (midnight + 3600 * MICROS_PER_SECOND) of Some dt \<Rightarrow> dt | None \<Rightarrow> t)))"

fun resolve_in :: "TimeZone \<Rightarrow> Timestamp \<Rightarrow> TimeExpr \<Rightarrow> Timestamp" where
  "resolve_in tz now (Absolute t) = t"
| "resolve_in tz now Now = now"
| "resolve_in tz now (RelativeTime amount u) = sat_i64 (now - sat_i64 (amount * unit_micros u))"
| "resolve_in tz now Today = start_of_day tz now"
| "resolve_in tz now Yesterday = start_of_day tz (i64_wrap (start_of_day tz now - 1))"

text \<open>\<open>describe\<close>, with the rendering of timestamps as a parameter.\<close>

definition describe_amount :: "int \<Rightarrow> string" where
  "describe_amount n = (if n < 0 then CHR ''-'' # decimal (nat (- n)) else decimal (nat n))"

fun describe :: "(Timestamp \<Rightarrow> string) \<Rightarrow> TimeExpr \<Rightarrow> string" where
  "describe rfc3339 (Absolute t) = rfc3339 t"
| "describe rfc3339 Now = ''now''"
| "describe rfc3339 (RelativeTime amount u) = CHR ''-'' # describe_amount amount @ [u]"
| "describe rfc3339 Today = ''today''"
| "describe rfc3339 Yesterday = ''yesterday''"

section \<open>Lemmas\<close>

lemma parse_i64_decimal: "n < 2 ^ 63 \<Longrightarrow> parse_i64 (decimal n) = Some (int n)"
proof -
  assume n: "n < 2 ^ 63"
  obtain c cs where d: "decimal n = c # cs"
    by (cases "decimal n") auto
  have "is_ascii_digit c"
    using decimal_digits [of n] d by simp
  then have "c \<noteq> CHR ''-''" "c \<noteq> CHR ''+''"
    by (auto simp: is_ascii_digit_def code_def)
  then show ?thesis
    using parse_decimal [of n] n by (simp add: parse_i64_def d)
qed

text \<open>Text of ASCII letters, digits and a minus sign is neither trimmed nor, without capitals, changed by lowering.\<close>

definition plain_char :: "char \<Rightarrow> bool" where
  "plain_char c \<longleftrightarrow> 33 \<le> code c \<and> code c < 128"

lemma whitespace_ends: "w \<in> set whitespace \<Longrightarrow> w \<noteq> [] \<and> \<not> plain_char (hd w) \<and> \<not> plain_char (last w)"
  by (auto simp: whitespace_def plain_char_def code_def)

lemma first_stripped_plain:
  assumes "s = [] \<or> plain_char (hd s)" and "\<forall>w \<in> set ws. w \<noteq> [] \<and> \<not> plain_char (hd w)"
  shows "first_stripped ws s = None"
  unfolding first_stripped_None
proof
  fix w
  assume "w \<in> set ws"
  then have "w \<noteq> []" "\<not> plain_char (hd w)"
    using assms(2) by blast+
  then show "strip_prefix w s = None"
    using assms(1) by (cases s; cases w) auto
qed

lemma trim_plain:
  assumes "list_all plain_char s"
  shows "trim s = s"
proof -
  have ends: "s = [] \<or> plain_char (hd s)" "rev s = [] \<or> plain_char (hd (rev s))"
    using assms unfolding list_all_iff hd_rev rev_is_Nil_conv by (metis hd_in_set last_in_set)+
  have ws: "\<forall>w \<in> set whitespace. w \<noteq> [] \<and> \<not> plain_char (hd w)"
    "\<forall>w \<in> set (map rev whitespace). w \<noteq> [] \<and> \<not> plain_char (hd w)"
    using whitespace_ends by (auto simp: hd_rev)
  show ?thesis
    unfolding trim_def trim_start_def trim_end_def
    by (simp add: trim_fuel_done first_stripped_plain [OF ends(1) ws(1)] first_stripped_plain [OF ends(2) ws(2)])
qed

lemma digit_plain: "is_ascii_digit c \<Longrightarrow> plain_char c \<and> ascii_lower c = c"
  by (auto simp: is_ascii_digit_def plain_char_def ascii_lower_def is_ascii_uppercase_def)

lemma unit_plain: "is_unit u \<Longrightarrow> plain_char u \<and> ascii_lower u = u"
  by (auto simp: is_unit_def plain_char_def ascii_lower_def is_ascii_uppercase_def code_def)

lemma relative_reads:
  assumes "0 \<le> n" and "n < 2 ^ 63" and "is_unit u"
  shows "parse_literal dates (describe rfc3339 (RelativeTime n u)) = Some (RelativeTime n u)"
proof -
  let ?ds = "decimal (nat n)"
  let ?s = "CHR ''-'' # ?ds @ [u]"
  have d: "describe rfc3339 (RelativeTime n u) = ?s"
    using assms(1) by (simp add: describe_amount_def)
  have minus: "plain_char CHR ''-''" "ascii_lower CHR ''-'' = CHR ''-''"
    by (simp_all add: plain_char_def ascii_lower_def is_ascii_uppercase_def code_def)
  have "list_all plain_char ?s"
    using decimal_digits [of "nat n"] digit_plain unit_plain [OF assms(3)] minus(1) by (auto simp: list_all_iff)
  then have t: "trim ?s = ?s"
    by (rule trim_plain)
  have l: "to_ascii_lowercase ?s = ?s"
    using decimal_digits [of "nat n"] digit_plain unit_plain [OF assms(3)] minus(2)
    by (auto simp: to_ascii_lowercase_def intro!: map_idI)
  have "parse_i64 ?ds = Some n"
    using parse_i64_decimal [of "nat n"] assms(1,2) by (simp add: nat_less_iff)
  then have "parse_relative ?s = Some (RelativeTime n u)"
    using decimal_digits [of "nat n"] assms(3) by (simp add: parse_relative_def list_all_iff)
  then show ?thesis
    unfolding d parse_literal_def t l Let_def by simp
qed

section \<open>Theorems\<close>

text \<open>
  A relative timestamp reads back what it prints, whatever the date formats: \<open>describe\<close> and
  \<open>parse_literal\<close> are inverse on every amount an \<open>i64\<close> holds and every unit.
\<close>

theorem relative_roundtrip:
  assumes "0 \<le> n" and "n < 2 ^ 63" and "is_unit u"
  shows "parse_literal dates (describe rfc3339 (RelativeTime n u)) = Some (RelativeTime n u)"
  by (rule relative_reads [OF assms])

theorem relative_roundtrip_witness:
  "parse_literal (\<lambda>_. None) (describe (\<lambda>_. []) (RelativeTime 15 CHR ''m'')) = Some (RelativeTime 15 CHR ''m'')"
  by (rule relative_roundtrip) (simp_all add: is_unit_def)

text \<open>
  A relative timestamp never lies after now and never leaves the range of an \<open>i64\<close>: products and
  differences that overflow stop at its ends, and without overflow the value is exact.
\<close>

theorem relative_resolves:
  assumes "0 \<le> n" and "- (2 ^ 63) \<le> now" and "now < 2 ^ 63"
  shows "resolve_in tz now (RelativeTime n u) \<le> now \<and> - (2 ^ 63) \<le> resolve_in tz now (RelativeTime n u) \<and>
    (n * unit_micros u \<le> now + 2 ^ 63 \<and> n * unit_micros u < 2 ^ 63 \<longrightarrow>
       resolve_in tz now (RelativeTime n u) = now - n * unit_micros u)"
proof -
  have "0 \<le> n * unit_micros u"
    using assms(1) by (simp add: unit_micros_def MICROS_PER_SECOND_def MICROS_PER_DAY_def)
  then show ?thesis
    using assms(2,3) by (auto simp: sat_i64_def min_def max_def)
qed

theorem relative_resolves_witness:
  "resolve_in \<lparr>tz_midnight = \<lambda>_. None, tz_from_local = \<lambda>_. LocalNone\<rparr> 1000000 (RelativeTime 1 CHR ''s'') = 0 \<and>
   resolve_in \<lparr>tz_midnight = \<lambda>_. None, tz_from_local = \<lambda>_. LocalNone\<rparr> 0 (RelativeTime (2 ^ 62) CHR ''w'') \<le> 0"
  using relative_resolves [of 1 1000000 "\<lparr>tz_midnight = \<lambda>_. None, tz_from_local = \<lambda>_. LocalNone\<rparr>" "CHR ''s''"]
    relative_resolves [of "2 ^ 62" 0 "\<lparr>tz_midnight = \<lambda>_. None, tz_from_local = \<lambda>_. LocalNone\<rparr>" "CHR ''w''"]
  by (simp add: unit_micros_def MICROS_PER_SECOND_def)


end
