(* ===== verification/AttemptQl.thy ===== *)
theory AttemptQl
  imports Lexer TimeExpr
begin

text \<open>
  AttemptQL, the statement language of the query layer: its syntax tree
  (\<open>attemptdb-query/src/attemptql/ast.rs\<close>), its recursive-descent parser (\<open>parser.rs\<close>), the
  decision between SQL and AttemptQL and the suggestion for a mistyped verb (\<open>mod.rs\<close>). The SQL
  expression parser behind a \<open>WHERE\<close> clause and the date formats are parameters. The loops of the
  parser carry fuel, one unit per token.
\<close>

section \<open>The syntax tree\<close>

datatype Direction = Up | Down | Both

datatype Subject =
    SubjectProject "string option"
  | SubjectSession string
  | SubjectAttempt string
  | SubjectTurn string
  | SubjectSpan string
  | SubjectEvent string
  | SubjectAgent string
  | SubjectWorkUnit string
  | SubjectId string

datatype ShowTarget =
    Attempts | FailedAttempts | SupersededAttempts | Sessions | Turns | ToolCalls
  | Handoffs "(string \<times> string) option"
  | WorkUnits | Decisions | Commits
  | Evidence Subject
  | Edges | Signals | Corrections | Retractions

fun ShowTarget_name :: "ShowTarget \<Rightarrow> string" where
  "ShowTarget_name Attempts = ''attempts''"
| "ShowTarget_name FailedAttempts = ''failed attempts''"
| "ShowTarget_name SupersededAttempts = ''superseded attempts''"
| "ShowTarget_name Sessions = ''sessions''"
| "ShowTarget_name Turns = ''turns''"
| "ShowTarget_name ToolCalls = ''tool calls''"
| "ShowTarget_name (Handoffs _) = ''handoffs''"
| "ShowTarget_name WorkUnits = ''work units''"
| "ShowTarget_name Decisions = ''decisions''"
| "ShowTarget_name Commits = ''commits''"
| "ShowTarget_name (Evidence _) = ''evidence''"
| "ShowTarget_name Edges = ''edges''"
| "ShowTarget_name Signals = ''signals''"
| "ShowTarget_name Corrections = ''corrections''"
| "ShowTarget_name Retractions = ''retractions''"

datatype Filter =
    FilterProject string | FilterSession string | FilterProvider string | FilterAgent string | FilterTurn string
  | FilterPath string | FilterOutcome string | FilterTool string | FilterStatus string | FilterPhase string
  | FilterSince TimeExpr | FilterUntil TimeExpr

fun Filter_key :: "Filter \<Rightarrow> string" where
  "Filter_key (FilterProject _) = ''project''"
| "Filter_key (FilterSession _) = ''session''"
| "Filter_key (FilterProvider _) = ''provider''"
| "Filter_key (FilterAgent _) = ''agent''"
| "Filter_key (FilterTurn _) = ''turn''"
| "Filter_key (FilterPath _) = ''path''"
| "Filter_key (FilterOutcome _) = ''outcome''"
| "Filter_key (FilterTool _) = ''tool''"
| "Filter_key (FilterStatus _) = ''status''"
| "Filter_key (FilterPhase _) = ''phase''"
| "Filter_key (FilterSince _) = ''since''"
| "Filter_key (FilterUntil _) = ''until''"

record OrderBy =
  ob_column :: string
  ob_descending :: bool

record ShowStatement =
  sh_target :: ShowTarget
  sh_filters :: "Filter list"
  sh_predicate :: "string option"
  sh_since :: "TimeExpr option"
  sh_until :: "TimeExpr option"
  sh_order_by :: "OrderBy option"
  sh_limit :: "nat option"
  sh_including_retracted :: bool

record WhyStatement =
  wy_subject :: Subject
  wy_state :: string

record TraceStatement =
  tr_subject :: Subject
  tr_depth :: "nat option"
  tr_direction :: Direction

record StateStatement =
  st_subject :: Subject
  st_at :: TimeExpr

record DiffStatement =
  df_subject :: "Subject option"
  df_from :: TimeExpr
  df_to :: TimeExpr

record WhatIsStatement =
  wi_subject :: Subject

datatype Statement =
    Show ShowStatement
  | Why WhyStatement
  | Trace TraceStatement
  | State StateStatement
  | Diff DiffStatement
  | WhatIs WhatIsStatement
  | Explain Statement

section \<open>The parser's state\<close>

definition to_ascii_uppercase :: "string \<Rightarrow> string" where
  "to_ascii_uppercase s = map ascii_upper s"

definition RESERVED :: "string list" where
  "RESERVED =
     [''SHOW'', ''WHY'', ''TRACE'', ''STATE'', ''DIFF'', ''WHAT'', ''IS'', ''DOING'', ''NOW'', ''STATUS'', ''CAUSES'', ''AT'',
      ''FOR'', ''WHERE'', ''SINCE'', ''UNTIL'', ''ORDER'', ''BY'', ''LIMIT'', ''DEPTH'', ''DIRECTION'', ''AND'', ''BETWEEN'',
      ''EXPLAIN'', ''ATTEMPTS'', ''SESSIONS'', ''TURNS'', ''HANDOFFS'', ''DECISIONS'', ''EVIDENCE'', ''INCLUDING'',
      ''RETRACTED'', ''WORK'', ''UNITS'', ''CORRECTIONS'', ''RETRACTIONS'']"

definition is_reserved :: "string \<Rightarrow> bool" where
  "is_reserved w \<longleftrightarrow> list_ex (\<lambda>r. eq_ignore_ascii_case r w) RESERVED"

definition FILTER_KEYS :: string where
  "FILTER_KEYS =
     ''project, provider, agent, session, turn, path, outcome, tool, status, phase, since, until''"

text \<open>The longer hints of the error messages.\<close>

definition EXPECTED_TARGET :: string where
  "EXPECTED_TARGET =
     ''ATTEMPTS, FAILED ATTEMPTS, SUPERSEDED ATTEMPTS, SESSIONS, TURNS, TOOL CALLS, HANDOFFS, WORK UNITS, DECISIONS, EVIDENCE FOR <id>, EDGES, SIGNALS, CORRECTIONS or RETRACTIONS''"

definition EXPECTED_SUBJECT :: string where
  "EXPECTED_SUBJECT =
     ''a subject: project, project '<name>', session '<ses_id>', attempt '<att_id>', turn '<trn_id>', span '<spn_id>', event '<ev_id>', work_unit '<wu_id>', agent '<provider>' or a prefixed id''"

definition EXPECTED_VERB :: string where
  "EXPECTED_VERB =
     ''an AttemptQL verb (SHOW, WHY, TRACE, STATE, DIFF or WHAT IS) or a SQL statement (SELECT, WITH, EXPLAIN or DESCRIBE)''"

definition TIME_FORMS :: string where
  "TIME_FORMS =
     ''; expected RFC 3339 ('2026-08-28T14:00:00Z'), a date ('2026-08-28'), epoch seconds, now, today, yesterday, or a relative form like -15m / -2h / -1d''"

definition EXPECTED_TIME :: string where
  "EXPECTED_TIME = ''a timestamp ('2026-08-28T14:00:00Z', now, -15m, yesterday)''"

text \<open>What the parser is given besides the text: the date formats and the SQL expression parser.\<close>

record QueryEnv =
  qe_dates :: "string \<Rightarrow> Timestamp option"
  qe_predicate :: "string \<Rightarrow> string + string"

record Parser =
  ps_text :: string
  ps_toks :: "Token list"
  ps_pos :: nat

type_synonym 'a parsed = "QueryError + 'a \<times> Parser"

definition peek :: "Parser \<Rightarrow> Token" where
  "peek p = ps_toks p ! min (ps_pos p) (length (ps_toks p) - 1)"

definition skip :: "Parser \<Rightarrow> Parser" where
  "skip p = (if ps_pos p < length (ps_toks p) - 1 then p\<lparr>ps_pos := ps_pos p + 1\<rparr> else p)"

definition at_eof :: "Parser \<Rightarrow> bool" where
  "at_eof p \<longleftrightarrow> tok_kind (peek p) = Eof"

definition is_word :: "string \<Rightarrow> Parser \<Rightarrow> bool" where
  "is_word kw p \<longleftrightarrow> (case tok_kind (peek p) of Word w \<Rightarrow> eq_ignore_ascii_case w kw | _ \<Rightarrow> False)"

definition eat_word :: "string \<Rightarrow> Parser \<Rightarrow> bool \<times> Parser" where
  "eat_word kw p = (if is_word kw p then (True, skip p) else (False, p))"

definition is_punct :: "string \<Rightarrow> Parser \<Rightarrow> bool" where
  "is_punct q p \<longleftrightarrow> tok_kind (peek p) = Punct q"

definition eat_punct :: "string \<Rightarrow> Parser \<Rightarrow> bool \<times> Parser" where
  "eat_punct q p = (if is_punct q p then (True, skip p) else (False, p))"

text \<open>The first \<open>n\<close> UTF-8 characters of a text.\<close>

fun take_chars :: "nat \<Rightarrow> string \<Rightarrow> string" where
  "take_chars 0 s = []"
| "take_chars (Suc n) s = (let c = first_char s in c @ take_chars n (drop (length c) s))"

definition quote_text :: "string \<Rightarrow> string" where
  "quote_text s = (if 40 < length s then take_chars 39 s @ map char_of [0xE2, 0x80, 0xA6 :: nat] else s)"

definition quoted :: "string \<Rightarrow> string" where
  "quoted s = CHR 0x27 # s @ [CHR 0x27]"

definition describe_token :: "Parser \<Rightarrow> Token \<Rightarrow> string" where
  "describe_token p t =
     (case tok_kind t of
        Eof \<Rightarrow> ''end of statement''
      | Str _ \<Rightarrow> ''string '' @ quote_text (tok_text (ps_text p) t)
      | _ \<Rightarrow> quoted (tok_text (ps_text p) t))"

definition unexpected :: "Parser \<Rightarrow> string \<Rightarrow> QueryError" where
  "unexpected p expected =
     (let t = peek p;
          what = (if tok_kind t = Eof then ''unexpected end of statement'' else ''unexpected token '' @ describe_token p t)
      in ParseError (what @ ''; expected '' @ expected) (tok_start t))"

definition expect_word :: "string \<Rightarrow> Parser \<Rightarrow> unit parsed" where
  "expect_word kw p = (if is_word kw p then Ok ((), skip p) else Err (unexpected p kw))"

text \<open>The question mark operator.\<close>

definition andthen :: "'a parsed \<Rightarrow> ('a \<Rightarrow> Parser \<Rightarrow> 'b parsed) \<Rightarrow> 'b parsed" where
  "andthen m f = (case m of Err e \<Rightarrow> Err e | Ok (a, p) \<Rightarrow> f a p)"

section \<open>Values\<close>

definition p_integer :: "string \<Rightarrow> Parser \<Rightarrow> nat parsed" where
  "p_integer what p =
     (case tok_kind (peek p) of
        Num n \<Rightarrow>
          (case parse_u64 n of Some v \<Rightarrow> Ok (v, skip p) | None \<Rightarrow> Err (unexpected p (''an integer after '' @ what)))
      | _ \<Rightarrow> Err (unexpected p (''an integer after '' @ what)))"

definition p_value :: "string \<Rightarrow> Parser \<Rightarrow> string parsed" where
  "p_value what p =
     (case tok_kind (peek p) of
        Str s \<Rightarrow> Ok (s, skip p)
      | Word w \<Rightarrow> if \<not> is_reserved w then Ok (w, skip p) else Err (unexpected p what)
      | Num n \<Rightarrow> Ok (n, skip p)
      | _ \<Rightarrow> Err (unexpected p what))"

definition token_time :: "QueryEnv \<Rightarrow> TokKind \<Rightarrow> TimeExpr option" where
  "token_time env k =
     (case k of
        Str s \<Rightarrow> parse_literal (qe_dates env) s
      | Num s \<Rightarrow> parse_literal (qe_dates env) s
      | Relative s \<Rightarrow> parse_literal (qe_dates env) s
      | Word w \<Rightarrow>
          (if to_ascii_lowercase w \<in> {''now'', ''today'', ''yesterday''} then parse_literal (qe_dates env) w else None)
      | _ \<Rightarrow> None)"

definition p_time :: "QueryEnv \<Rightarrow> Parser \<Rightarrow> TimeExpr parsed" where
  "p_time env p =
     (let t = peek p in
      case token_time env (tok_kind t) of
        Some expr \<Rightarrow> Ok (expr, skip p)
      | None \<Rightarrow>
          (case tok_kind t of
             Str _ \<Rightarrow> Err (ParseError (''invalid timestamp '' @ describe_token p t @ TIME_FORMS) (tok_start t))
           | Num _ \<Rightarrow> Err (ParseError (''invalid timestamp '' @ describe_token p t @ TIME_FORMS) (tok_start t))
           | _ \<Rightarrow> Err (unexpected p EXPECTED_TIME)))"

section \<open>Subjects, filters and clauses\<close>

definition p_subject :: "Parser \<Rightarrow> Subject parsed" where
  "p_subject p =
     (case tok_kind (peek p) of
        Word w \<Rightarrow>
          (let l = to_ascii_lowercase w; p1 = skip p in
           if l = ''project'' then
             (case tok_kind (peek p1) of
                Str s \<Rightarrow> Ok (SubjectProject (Some s), skip p1)
              | _ \<Rightarrow> Ok (SubjectProject None, p1))
           else if l = ''session'' then andthen (p_value ''a session id'' p1) (\<lambda>v p2. Ok (SubjectSession v, p2))
           else if l = ''attempt'' then andthen (p_value ''an attempt id'' p1) (\<lambda>v p2. Ok (SubjectAttempt v, p2))
           else if l = ''turn'' then andthen (p_value ''a turn id'' p1) (\<lambda>v p2. Ok (SubjectTurn v, p2))
           else if l = ''span'' \<or> l = ''tool_call'' then
             andthen (p_value ''a tool call (span) id'' p1) (\<lambda>v p2. Ok (SubjectSpan v, p2))
           else if l = ''event'' then andthen (p_value ''an event id'' p1) (\<lambda>v p2. Ok (SubjectEvent v, p2))
           else if l = ''agent'' then andthen (p_value ''an agent (provider id)'' p1) (\<lambda>v p2. Ok (SubjectAgent v, p2))
           else if l = ''work_unit'' then andthen (p_value ''a work unit id'' p1) (\<lambda>v p2. Ok (SubjectWorkUnit v, p2))
           else if l = ''work'' \<and> ps_pos p + 1 < length (ps_toks p) \<and>
               (case tok_kind (ps_toks p ! (ps_pos p + 1)) of Word u \<Rightarrow> eq_ignore_ascii_case u ''unit'' | _ \<Rightarrow> False) then
             andthen (p_value ''a work unit id'' (skip p1)) (\<lambda>v p2. Ok (SubjectWorkUnit v, p2))
           else if is_reserved w then Err (unexpected p EXPECTED_SUBJECT)
           else Ok (SubjectId w, p1))
      | Str s \<Rightarrow> Ok (SubjectId s, skip p)
      | _ \<Rightarrow> Err (unexpected p EXPECTED_SUBJECT))"

definition p_agent_filter :: "Parser \<Rightarrow> string parsed" where
  "p_agent_filter p =
     (if is_word ''agent'' p \<or> is_word ''provider'' p then
        (let p1 = skip p in
         if is_punct ''='' p1 then p_value (''a provider id such as '' @ quoted ''claude_code'') (skip p1)
         else Err (unexpected p1 (quoted ''='' @ '' after agent'')))
      else Err (unexpected p (''agent = '' @ quoted ''<provider>'')))"

definition value_filter :: "string \<Rightarrow> string \<Rightarrow> Filter" where
  "value_filter key v =
     (if key = ''project'' then FilterProject v
      else if key = ''provider'' then FilterProvider v
      else if key = ''agent'' then FilterAgent v
      else if key = ''session'' then FilterSession v
      else if key = ''turn'' then FilterTurn v
      else if key = ''path'' then FilterPath v
      else if key = ''outcome'' then FilterOutcome v
      else if key = ''tool'' then FilterTool v
      else if key = ''phase'' then FilterPhase v
      else FilterStatus v)"

definition VALUE_KEYS :: "string list" where
  "VALUE_KEYS = [''project'', ''provider'', ''agent'', ''session'', ''turn'', ''path'', ''outcome'', ''tool'', ''status'', ''phase'']"

definition p_filter :: "QueryEnv \<Rightarrow> Parser \<Rightarrow> Filter parsed" where
  "p_filter env p =
     (let t = peek p in
      case tok_kind t of
        Word w \<Rightarrow>
          (let key = to_ascii_lowercase w; p1 = skip p in
           if key = ''since'' \<or> key = ''until'' then
             (let p2 = snd (eat_punct ''='' p1) in
              andthen (p_time env p2) (\<lambda>expr p3. Ok (if key = ''since'' then FilterSince expr else FilterUntil expr, p3)))
           else if key \<in> set VALUE_KEYS then
             (if is_punct ''='' p1 then
                andthen (p_value (''a value for '' @ key) (skip p1)) (\<lambda>v p2. Ok (value_filter key v, p2))
              else Err (unexpected p1 (quoted ''='' @ '' after '' @ key)))
           else Err (ParseError (''unknown filter '' @ quoted key @ ''; expected one of '' @ FILTER_KEYS) (tok_start t)))
      | _ \<Rightarrow> Err (unexpected p (''a filter ('' @ FILTER_KEYS @ '')'')))"

fun p_filter_list :: "nat \<Rightarrow> QueryEnv \<Rightarrow> Parser \<Rightarrow> Filter list parsed" where
  "p_filter_list 0 env p = Err OutOfFuel"
| "p_filter_list (Suc n) env p =
     andthen (p_filter env p) (\<lambda>f p1.
       if is_word ''AND'' p1 \<or> is_punct '','' p1
       then andthen (p_filter_list n env (skip p1)) (\<lambda>fs p2. Ok (f # fs, p2))
       else Ok ([f], p1))"

definition CLAUSE_WORDS :: "string list" where
  "CLAUSE_WORDS = [''SINCE'', ''UNTIL'', ''ORDER'', ''LIMIT'', ''INCLUDING'']"

text \<open>The end of a \<open>WHERE\<close> clause: the next clause keyword or semicolon outside brackets.\<close>

fun predicate_end :: "nat \<Rightarrow> int \<Rightarrow> Parser \<Rightarrow> QueryError + Parser" where
  "predicate_end 0 depth p = Err OutOfFuel"
| "predicate_end (Suc n) depth p =
     (case tok_kind (peek p) of
        Eof \<Rightarrow> Ok p
      | Punct q \<Rightarrow>
          if q = ''('' \<or> q = ''['' then predicate_end n (depth + 1) (skip p)
          else if q = '')'' \<or> q = '']'' then predicate_end n (depth - 1) (skip p)
          else if q = '';'' \<and> depth \<le> 0 then Ok p
          else predicate_end n depth (skip p)
      | Word w \<Rightarrow>
          if depth \<le> 0 \<and> list_ex (\<lambda>k. eq_ignore_ascii_case k w) CLAUSE_WORDS then Ok p
          else predicate_end n depth (skip p)
      | _ \<Rightarrow> predicate_end n depth (skip p))"

definition p_predicate :: "QueryEnv \<Rightarrow> Parser \<Rightarrow> string parsed" where
  "p_predicate env p =
     (case predicate_end (length (ps_toks p)) 0 p of
        Err e \<Rightarrow> Err e
      | Ok p1 \<Rightarrow>
          if ps_pos p1 = ps_pos p then Err (unexpected p1 ''a predicate after WHERE'')
          else
            (let from = tok_start (ps_toks p ! ps_pos p);
                 upto = tok_end (ps_toks p ! (ps_pos p1 - 1))
             in case qe_predicate env (trim (slice from upto (ps_text p))) of
                  Inl message \<Rightarrow> Err (ParseError message from)
                | Inr sql \<Rightarrow> Ok (sql, p1)))"

definition trim_matches :: "'a \<Rightarrow> 'a list \<Rightarrow> 'a list" where
  "trim_matches c s = trim_end_matches c (dropWhile (\<lambda>x. x = c) s)"

definition p_order_by :: "Parser \<Rightarrow> OrderBy parsed" where
  "p_order_by p =
     (let t = peek p in
      case tok_kind t of
        Word w \<Rightarrow>
          (let column = trim_matches CHR 0x22 w in
           if column = [] \<or> \<not> list_all (\<lambda>c. is_ascii_alphanumeric c \<or> c = CHR ''_'') column
           then Err (ParseError (''invalid column name '' @ quoted w) (tok_start t))
           else
             (let (desc, p2) = eat_word ''DESC'' (skip p);
                  p3 = (if desc then p2 else snd (eat_word ''ASC'' p2))
              in Ok (\<lparr>ob_column = column, ob_descending = desc\<rparr>, p3)))
      | _ \<Rightarrow> Err (unexpected p ''a column name after ORDER BY''))"

section \<open>Statements\<close>

definition p_show_target :: "Parser \<Rightarrow> ShowTarget parsed" where
  "p_show_target p =
     (case tok_kind (peek p) of
        Word w \<Rightarrow>
          (let u = to_ascii_uppercase w; p1 = skip p in
           if u = ''ATTEMPTS'' then Ok (Attempts, p1)
           else if u = ''FAILED'' then andthen (expect_word ''ATTEMPTS'' p1) (\<lambda>_ p2. Ok (FailedAttempts, p2))
           else if u = ''SUPERSEDED'' then andthen (expect_word ''ATTEMPTS'' p1) (\<lambda>_ p2. Ok (SupersededAttempts, p2))
           else if u = ''SESSIONS'' then Ok (Sessions, p1)
           else if u = ''TURNS'' then Ok (Turns, p1)
           else if u = ''TOOL'' then andthen (expect_word ''CALLS'' p1) (\<lambda>_ p2. Ok (ToolCalls, p2))
           else if u = ''TOOL_CALLS'' then Ok (ToolCalls, p1)
           else if u = ''HANDOFFS'' then
             (if is_word ''BETWEEN'' p1 then
                andthen (p_agent_filter (skip p1)) (\<lambda>a p2.
                  andthen (expect_word ''AND'' p2) (\<lambda>_ p3.
                    andthen (p_agent_filter p3) (\<lambda>b p4. Ok (Handoffs (Some (a, b)), p4))))
              else Ok (Handoffs None, p1))
           else if u = ''WORK'' then andthen (expect_word ''UNITS'' p1) (\<lambda>_ p2. Ok (WorkUnits, p2))
           else if u = ''WORK_UNITS'' then Ok (WorkUnits, p1)
           else if u = ''DECISIONS'' then Ok (Decisions, p1)
           else if u = ''COMMITS'' then Ok (Commits, p1)
           else if u = ''CORRECTIONS'' then Ok (Corrections, p1)
           else if u = ''RETRACTIONS'' then Ok (Retractions, p1)
           else if u = ''EVIDENCE'' then
             andthen (expect_word ''FOR'' p1) (\<lambda>_ p2. andthen (p_subject p2) (\<lambda>s p3. Ok (Evidence s, p3)))
           else if u = ''EDGES'' then Ok (Edges, p1)
           else if u = ''SIGNALS'' then Ok (Signals, p1)
           else Err (unexpected p EXPECTED_TARGET))
      | _ \<Rightarrow> Err (unexpected p EXPECTED_TARGET))"

fun p_clauses :: "nat \<Rightarrow> QueryEnv \<Rightarrow> ShowStatement \<Rightarrow> Parser \<Rightarrow> ShowStatement parsed" where
  "p_clauses 0 env stmt p = Err OutOfFuel"
| "p_clauses (Suc n) env stmt p =
     (let p1 = skip p in
      if is_word ''FOR'' p then
        andthen (p_filter_list (length (ps_toks p)) env p1) (\<lambda>fs p2.
          p_clauses n env (stmt\<lparr>sh_filters := sh_filters stmt @ fs\<rparr>) p2)
      else if is_word ''WHERE'' p then
        andthen (p_predicate env p1) (\<lambda>sql p2. p_clauses n env (stmt\<lparr>sh_predicate := Some sql\<rparr>) p2)
      else if is_word ''SINCE'' p then
        andthen (p_time env p1) (\<lambda>t p2. p_clauses n env (stmt\<lparr>sh_since := Some t\<rparr>) p2)
      else if is_word ''UNTIL'' p then
        andthen (p_time env p1) (\<lambda>t p2. p_clauses n env (stmt\<lparr>sh_until := Some t\<rparr>) p2)
      else if is_word ''ORDER'' p then
        andthen (expect_word ''BY'' p1) (\<lambda>_ p2.
          andthen (p_order_by p2) (\<lambda>ob p3. p_clauses n env (stmt\<lparr>sh_order_by := Some ob\<rparr>) p3))
      else if is_word ''LIMIT'' p then
        andthen (p_integer ''LIMIT'' p1) (\<lambda>k p2. p_clauses n env (stmt\<lparr>sh_limit := Some k\<rparr>) p2)
      else if is_word ''INCLUDING'' p then
        andthen (expect_word ''RETRACTED'' p1) (\<lambda>_ p2. p_clauses n env (stmt\<lparr>sh_including_retracted := True\<rparr>) p2)
      else if at_eof p \<or> is_punct '';'' p then Ok (stmt, p)
      else Err (unexpected p
        ''FOR, WHERE, SINCE, UNTIL, ORDER BY, LIMIT, INCLUDING RETRACTED or end of statement''))"

definition show_default :: "ShowTarget \<Rightarrow> ShowStatement" where
  "show_default target =
     \<lparr>sh_target = target, sh_filters = [], sh_predicate = None, sh_since = None, sh_until = None, sh_order_by = None,
      sh_limit = None, sh_including_retracted = False\<rparr>"

definition p_show :: "QueryEnv \<Rightarrow> Parser \<Rightarrow> ShowStatement parsed" where
  "p_show env p =
     andthen (expect_word ''SHOW'' p) (\<lambda>_ p1.
       andthen (p_show_target p1) (\<lambda>target p2. p_clauses (length (ps_toks p)) env (show_default target) p2))"

definition p_why :: "Parser \<Rightarrow> WhyStatement parsed" where
  "p_why p =
     andthen (expect_word ''WHY'' p) (\<lambda>_ p1.
       andthen (p_subject p1) (\<lambda>subject p2.
         let p3 = snd (eat_word ''STATUS'' p2) in
         case tok_kind (peek p3) of
           Word state \<Rightarrow> Ok (\<lparr>wy_subject = subject, wy_state = to_ascii_uppercase state\<rparr>, skip p3)
         | _ \<Rightarrow> Err (unexpected p3 ''a state: BLOCKED (session, project or work unit) or FAILED (attempt)'')))"

definition p_direction :: "Parser \<Rightarrow> Direction parsed" where
  "p_direction p =
     (if is_word ''UP'' p then Ok (Up, skip p)
      else if is_word ''DOWN'' p then Ok (Down, skip p)
      else if is_word ''BOTH'' p then Ok (Both, skip p)
      else Err (unexpected p ''UP, DOWN or BOTH''))"

fun p_trace_options :: "nat \<Rightarrow> TraceStatement \<Rightarrow> Parser \<Rightarrow> TraceStatement parsed" where
  "p_trace_options 0 stmt p = Err OutOfFuel"
| "p_trace_options (Suc n) stmt p =
     (if is_word ''DEPTH'' p then
        andthen (p_integer ''DEPTH'' (skip p)) (\<lambda>k p1. p_trace_options n (stmt\<lparr>tr_depth := Some k\<rparr>) p1)
      else if is_word ''DIRECTION'' p then
        andthen (p_direction (skip p)) (\<lambda>d p1. p_trace_options n (stmt\<lparr>tr_direction := d\<rparr>) p1)
      else Ok (stmt, p))"

definition p_trace :: "Parser \<Rightarrow> TraceStatement parsed" where
  "p_trace p =
     andthen (expect_word ''TRACE'' p) (\<lambda>_ p1.
       andthen (p_subject p1) (\<lambda>subject p2.
         andthen (expect_word ''CAUSES'' p2) (\<lambda>_ p3.
           p_trace_options (length (ps_toks p)) \<lparr>tr_subject = subject, tr_depth = None, tr_direction = Up\<rparr> p3)))"

definition p_state :: "QueryEnv \<Rightarrow> Parser \<Rightarrow> StateStatement parsed" where
  "p_state env p =
     andthen (expect_word ''STATE'' p) (\<lambda>_ p1.
       andthen (p_subject p1) (\<lambda>subject p2.
         andthen (expect_word ''AT'' p2) (\<lambda>_ p3.
           andthen (p_time env p3) (\<lambda>at p4.
             if is_word ''AS'' p4 then Err (ParseError ''AS KNOWN AT is not supported yet (planned)'' (tok_start (peek p4)))
             else Ok (\<lparr>st_subject = subject, st_at = at\<rparr>, p4)))))"

definition starts_subject :: "Parser \<Rightarrow> bool" where
  "starts_subject p \<longleftrightarrow>
     (case tok_kind (peek p) of
        Word w \<Rightarrow> \<not> is_reserved w \<and> to_ascii_lowercase w \<notin> {''now'', ''today'', ''yesterday''}
      | _ \<Rightarrow> False)"

definition remaining_values :: "Parser \<Rightarrow> nat" where
  "remaining_values p =
     length (filter (\<lambda>t. case tok_kind t of Str _ \<Rightarrow> True | Word _ \<Rightarrow> True | Num _ \<Rightarrow> True | Relative _ \<Rightarrow> True | _ \<Rightarrow> False)
       (takeWhile (\<lambda>t. tok_kind t \<noteq> Eof \<and> tok_kind t \<noteq> Punct '';'') (drop (ps_pos p) (ps_toks p))))"

definition p_diff_subject :: "Parser \<Rightarrow> Subject option parsed" where
  "p_diff_subject p =
     (if is_word ''project'' p then
        (let p1 = skip p in
         case tok_kind (peek p1) of
           Str s \<Rightarrow>
             if 3 \<le> remaining_values p1 then Ok (Some (SubjectProject (Some s)), skip p1)
             else Ok (Some (SubjectProject None), p1)
         | _ \<Rightarrow> Ok (Some (SubjectProject None), p1))
      else if starts_subject p then andthen (p_subject p) (\<lambda>s p1. Ok (Some s, p1))
      else Ok (None, p))"

definition p_diff :: "QueryEnv \<Rightarrow> Parser \<Rightarrow> DiffStatement parsed" where
  "p_diff env p =
     andthen (expect_word ''DIFF'' p) (\<lambda>_ p1.
       andthen (expect_word ''STATE'' p1) (\<lambda>_ p2.
         andthen (p_diff_subject p2) (\<lambda>subject p3.
           andthen (p_time env p3) (\<lambda>from p4.
             andthen (p_time env p4) (\<lambda>upto p5.
               Ok (\<lparr>df_subject = subject, df_from = from, df_to = upto\<rparr>, p5))))))"

definition p_what_is :: "Parser \<Rightarrow> WhatIsStatement parsed" where
  "p_what_is p =
     andthen (expect_word ''WHAT'' p) (\<lambda>_ p1.
       andthen (expect_word ''IS'' p1) (\<lambda>_ p2.
         andthen (p_subject p2) (\<lambda>subject p3.
           andthen (expect_word ''DOING'' p3) (\<lambda>_ p4.
             andthen (expect_word ''NOW'' p4) (\<lambda>_ p5. Ok (\<lparr>wi_subject = subject\<rparr>, p5))))))"

section \<open>Suggestions for a mistyped verb\<close>

text \<open>The UTF-8 characters of a text.\<close>

function chars :: "string \<Rightarrow> string list" where
  "chars s = (if s = [] then [] else first_char s # chars (drop (length (first_char s)) s))"
  by pat_completeness auto
termination
  by (relation "measure length") (auto simp: first_char_def split: list.splits)

declare chars.simps [simp del]

text \<open>One row of the distance table, from the value left of it, and the rows in turn.\<close>

fun edit_row :: "'a \<Rightarrow> nat \<Rightarrow> nat \<Rightarrow> 'a list \<Rightarrow> nat list \<Rightarrow> nat list" where
  "edit_row ca prev left (cb # bs) (cur # row) =
     (let v = min (min (prev + (if ca \<noteq> cb then 1 else 0)) (left + 1)) (cur + 1) in v # edit_row ca cur v bs row)"
| "edit_row ca prev left _ _ = []"

fun edit_rows :: "nat \<Rightarrow> 'a list \<Rightarrow> 'a list \<Rightarrow> nat list \<Rightarrow> nat list" where
  "edit_rows i [] b row = row"
| "edit_rows i (ca # a) b row = edit_rows (Suc i) a b (Suc i # edit_row ca (hd row) (Suc i) b (tl row))"

definition edit_distance :: "string \<Rightarrow> string \<Rightarrow> nat" where
  "edit_distance a b =
     (let a = chars a; b = chars b in edit_rows 0 a b [0 ..< Suc (length b)] ! length b)"

definition KEYWORDS :: "string list" where
  "KEYWORDS = [''SELECT'', ''WITH'', ''EXPLAIN'', ''DESCRIBE'', ''VALUES'', ''SHOW'', ''WHY'', ''TRACE'', ''STATE'', ''DIFF'', ''WHAT'']"

text \<open>\<open>min_by_key\<close>: the first of the smallest.\<close>

fun min_by_key :: "('a \<Rightarrow> nat) \<Rightarrow> 'a list \<Rightarrow> 'a option" where
  "min_by_key f [] = None"
| "min_by_key f (x # xs) = (case min_by_key f xs of None \<Rightarrow> Some x | Some y \<Rightarrow> if f x \<le> f y then Some x else Some y)"

definition closest_keyword :: "string \<Rightarrow> string option" where
  "closest_keyword word =
     (let w = to_ascii_uppercase word;
          scored = map (\<lambda>k. (edit_distance w k, k)) KEYWORDS
      in map_option snd (min_by_key fst (filter (\<lambda>(d, _). 1 \<le> d \<and> d \<le> 2) scored)))"

section \<open>Parsing\<close>

fun add_suggestion :: "string option \<Rightarrow> QueryError \<Rightarrow> QueryError" where
  "add_suggestion (Some word) (ParseError message position) =
     ParseError (message @ ''; did you mean '' @ word @ ''?'') position"
| "add_suggestion _ e = e"

definition p_statement :: "QueryEnv \<Rightarrow> Parser \<Rightarrow> Statement parsed" where
  "p_statement env p =
     (case tok_kind (peek p) of
        Word w \<Rightarrow>
          (let u = to_ascii_uppercase w in
           if u = ''SHOW'' then andthen (p_show env p) (\<lambda>s p1. Ok (Show s, p1))
           else if u = ''WHY'' then andthen (p_why p) (\<lambda>s p1. Ok (Why s, p1))
           else if u = ''TRACE'' then andthen (p_trace p) (\<lambda>s p1. Ok (Trace s, p1))
           else if u = ''STATE'' then andthen (p_state env p) (\<lambda>s p1. Ok (State s, p1))
           else if u = ''DIFF'' then andthen (p_diff env p) (\<lambda>s p1. Ok (Diff s, p1))
           else if u = ''WHAT'' then andthen (p_what_is p) (\<lambda>s p1. Ok (WhatIs s, p1))
           else Err (add_suggestion (closest_keyword w)
             (unexpected p EXPECTED_VERB)))
      | _ \<Rightarrow> Err (unexpected p ''SHOW, WHY, TRACE, STATE, DIFF or WHAT IS''))"

definition parse_tokens :: "QueryEnv \<Rightarrow> string \<Rightarrow> Token list \<Rightarrow> QueryError + Statement" where
  "parse_tokens env txt toks =
     (let p = \<lparr>ps_text = txt, ps_toks = toks, ps_pos = 0\<rparr> in
      if at_eof p
      then Err (ParseError ''empty statement; expected SHOW, WHY, TRACE, STATE, DIFF, WHAT IS or EXPLAIN'' 0)
      else
        (let (explain, p1) = eat_word ''EXPLAIN'' p in
         case p_statement env p1 of
           Err e \<Rightarrow> Err e
         | Ok (stmt, p2) \<Rightarrow>
             (let p3 = snd (eat_punct '';'' p2) in
              if \<not> at_eof p3 then Err (unexpected p3 ''end of statement'')
              else Ok (if explain then Explain stmt else stmt))))"

definition parse_statement :: "QueryEnv \<Rightarrow> string \<Rightarrow> QueryError + Statement" where
  "parse_statement env txt = (case lex txt of Err e \<Rightarrow> Err e | Ok toks \<Rightarrow> parse_tokens env txt toks)"

section \<open>SQL or AttemptQL\<close>

fun skip_comments_fuel :: "nat \<Rightarrow> string \<Rightarrow> string" where
  "skip_comments_fuel 0 s = s"
| "skip_comments_fuel (Suc n) s =
     (let rest = trim_start s in
      case strip_prefix ''--'' rest of
        Some after \<Rightarrow> skip_comments_fuel n (case split_once [CHR 0x0A] after of Some (_, r) \<Rightarrow> r | None \<Rightarrow> [])
      | None \<Rightarrow>
      case strip_prefix ''/*'' rest of
        Some after \<Rightarrow> skip_comments_fuel n (case split_once ''*/'' after of Some (_, r) \<Rightarrow> r | None \<Rightarrow> [])
      | None \<Rightarrow> rest)"

text \<open>Every round removes at least two bytes, so the length of the text is enough fuel.\<close>

definition skip_leading_comments :: "string \<Rightarrow> string" where
  "skip_leading_comments s = skip_comments_fuel (Suc (length s)) s"

text \<open>\<open>alnum\<close> says which bytes belong to an alphanumeric character (\<open>char::is_alphanumeric\<close>).\<close>

definition is_sql :: "(char \<Rightarrow> bool) \<Rightarrow> string \<Rightarrow> bool" where
  "is_sql alnum txt =
     (let ws = map to_ascii_uppercase (filter (\<lambda>w. w \<noteq> [])
            (split_by (\<lambda>c. \<not> (alnum c \<or> c = CHR ''_'')) (skip_leading_comments txt)))
      in case ws of
           [] \<Rightarrow> False
         | first # rest \<Rightarrow>
             let second = (case rest of [] \<Rightarrow> [] | w # _ \<Rightarrow> w) in
             if first \<in> {''SELECT'', ''WITH'', ''VALUES'', ''DESCRIBE'', ''CREATE'', ''INSERT'', ''DROP'', ''SET''} then True
             else if first = ''EXPLAIN'' then second \<in> {''SELECT'', ''WITH'', ''VALUES'', ''ANALYZE'', ''VERBOSE''}
             else if first = ''SHOW'' then second \<in> {''TABLES'', ''COLUMNS'', ''FUNCTIONS'', ''ALL''}
             else False)"

end
