(* ===== verification/Parsing.thy ===== *)
theory Parsing
  imports AttemptQl
begin

text \<open>
  The parser of AttemptQL ends and stays inside its text (\<open>attemptdb-query/src/attemptql/parser.rs\<close>). One
  judgement, \<open>parses k o r\<close>, carries both: from the parser \<open>o\<close> the result \<open>r\<close> is either an error at a
  place of the text, or a value and a parser at least \<open>k\<close> tokens further. Every production has one
  rule for it; the loops consume a token a round, so the fuel of one unit per token is enough.
\<close>

section \<open>The judgement\<close>

definition ps_ok :: "Parser \<Rightarrow> bool" where
  "ps_ok p \<longleftrightarrow>
     ps_toks p \<noteq> [] \<and> tok_kind (last (ps_toks p)) = Eof \<and> ps_pos p < length (ps_toks p) \<and>
     (\<forall>t \<in> set (ps_toks p). tok_start t \<le> tok_end t \<and> tok_end t \<le> length (ps_text p))"

definition follows :: "nat \<Rightarrow> Parser \<Rightarrow> Parser \<Rightarrow> bool" where
  "follows k p q \<longleftrightarrow> ps_ok q \<and> ps_text q = ps_text p \<and> ps_toks q = ps_toks p \<and> ps_pos p + k \<le> ps_pos q"

definition in_text :: "string \<Rightarrow> QueryError \<Rightarrow> bool" where
  "in_text txt e \<longleftrightarrow> (case e of ParseError _ position \<Rightarrow> position \<le> length txt | OutOfFuel \<Rightarrow> False)"

definition parses :: "nat \<Rightarrow> Parser \<Rightarrow> 'a parsed \<Rightarrow> bool" where
  "parses k p r \<longleftrightarrow> (case r of Err e \<Rightarrow> in_text (ps_text p) e | Ok (_, q) \<Rightarrow> follows k p q)"

named_theorems parsing

lemma peek_nth: "ps_ok p \<Longrightarrow> peek p = ps_toks p ! ps_pos p"
  by (auto simp: ps_ok_def peek_def min_def)

lemma peek_in: "ps_ok p \<Longrightarrow> peek p \<in> set (ps_toks p)"
  by (simp add: peek_nth) (simp add: ps_ok_def)

lemma peek_start: "follows k o' p \<Longrightarrow> tok_start (peek p) \<le> length (ps_text o')"
  using peek_in [of p] unfolding follows_def ps_ok_def by fastforce

lemma follows_refl: "ps_ok p \<Longrightarrow> follows 0 p p"
  by (simp add: follows_def)

lemma follows_weaken: "follows j o' p \<Longrightarrow> k \<le> j \<Longrightarrow> follows k o' p"
  by (simp add: follows_def)

lemma parses_weaken: "parses j o' r \<Longrightarrow> k \<le> j \<Longrightarrow> parses k o' r"
  by (auto simp: parses_def follows_weaken split: sum.splits prod.splits)

lemma skip_ok: "ps_ok p \<Longrightarrow> ps_ok (skip p)"
  by (auto simp: ps_ok_def skip_def)

lemma follows_skip: "follows k o' p \<Longrightarrow> follows k o' (skip p)"
  using skip_ok [of p] by (auto simp: follows_def skip_def split: if_splits)

lemma follows_skip_Suc: "follows k o' p \<Longrightarrow> tok_kind (peek p) \<noteq> Eof \<Longrightarrow> follows (Suc k) o' (skip p)"
proof -
  assume f: "follows k o' p" and ne: "tok_kind (peek p) \<noteq> Eof"
  have "ps_ok p"
    using f by (simp add: follows_def)
  then have "ps_pos p \<noteq> length (ps_toks p) - 1"
    using ne peek_nth [of p] by (auto simp: ps_ok_def last_conv_nth)
  then have "ps_pos p < length (ps_toks p) - 1"
    using \<open>ps_ok p\<close> by (auto simp: ps_ok_def)
  then show ?thesis
    using f skip_ok [OF \<open>ps_ok p\<close>] by (auto simp: follows_def skip_def)
qed

lemma is_word_kind: "is_word kw p \<Longrightarrow> tok_kind (peek p) \<noteq> Eof"
  by (auto simp: is_word_def)

lemma is_punct_kind: "is_punct q p \<Longrightarrow> tok_kind (peek p) \<noteq> Eof"
  by (auto simp: is_punct_def)

lemma follows_eat:
  "follows k o' p \<Longrightarrow> follows k o' (snd (eat_word kw p))" "follows k o' p \<Longrightarrow> follows k o' (snd (eat_punct q p))"
  by (auto simp: eat_word_def eat_punct_def follows_skip)

lemma parses_Ok [parsing]: "follows j o' q \<Longrightarrow> k \<le> j \<Longrightarrow> parses k o' (Ok (a, q))"
  by (simp add: parses_def follows_weaken)

lemma parses_at: "n \<le> length (ps_text o') \<Longrightarrow> parses k o' (Err (ParseError m n))"
  by (simp add: parses_def in_text_def)

lemma parses_token [parsing]: "follows j o' p \<Longrightarrow> parses k o' (Err (ParseError m (tok_start (peek p))))"
  by (simp add: parses_def in_text_def peek_start)

lemma parses_unexpected [parsing]: "follows j o' p \<Longrightarrow> parses k o' (Err (unexpected p m))"
  by (simp add: unexpected_def Let_def parses_token)

lemma parses_skip: "follows j o' p \<Longrightarrow> tok_kind (peek p) \<noteq> Eof \<Longrightarrow> parses (Suc j) o' (Ok (a, skip p))"
  by (rule parses_Ok [OF follows_skip_Suc order_refl])

lemma parses_andthen [parsing]:
  assumes "parses j o' m" and "\<And>a q. follows j o' q \<Longrightarrow> parses k o' (f a q)"
  shows "parses k o' (andthen m f)"
proof (cases m)
  case (Inr x)
  obtain a q where x: "x = (a, q)"
    by (cases x)
  have "follows j o' q"
    using assms(1) by (simp add: Inr x parses_def)
  then show ?thesis
    using assms(2) by (simp add: andthen_def Inr x)
qed (use assms(1) in \<open>simp add: parses_def andthen_def\<close>)

lemma parses_if [parsing]:
  "(b \<Longrightarrow> parses k o' r) \<Longrightarrow> (\<not> b \<Longrightarrow> parses k o' r') \<Longrightarrow> parses k o' (if b then r else r')"
  by simp

section \<open>The productions\<close>

lemma expect_word_parses [parsing]: "follows j o' p \<Longrightarrow> parses (Suc j) o' (expect_word kw p)"
  by (auto simp: expect_word_def is_word_kind intro: parses_unexpected parses_skip)

lemma p_integer_parses [parsing]: "follows j o' p \<Longrightarrow> parses (Suc j) o' (p_integer w p)"
  by (auto simp: p_integer_def split: TokKind.splits option.splits intro: parses_unexpected parses_skip)

lemma p_value_parses [parsing]: "follows j o' p \<Longrightarrow> parses (Suc j) o' (p_value w p)"
  by (auto simp: p_value_def split: TokKind.splits intro: parses_unexpected parses_skip)

lemma token_time_kind: "token_time env k = Some e \<Longrightarrow> k \<noteq> Eof"
  by (auto simp: token_time_def)

lemma p_time_parses [parsing]:
  assumes "follows j o' p"
  shows "parses (Suc j) o' (p_time env p)"
proof (cases "token_time env (tok_kind (peek p))")
  case None
  then show ?thesis
    by (simp add: p_time_def Let_def parses_token [OF assms] parses_unexpected [OF assms] split: TokKind.split)
next
  case (Some e)
  then show ?thesis
    by (simp add: p_time_def parses_skip [OF assms token_time_kind [OF Some]])
qed

lemma p_subject_parses [parsing]:
  assumes "follows j o' p"
  shows "parses (Suc j) o' (p_subject p)"
proof (cases "tok_kind (peek p)")
  case (Word w)
  have s: "follows (Suc j) o' (skip p)"
    using follows_skip_Suc [OF assms] Word by simp
  have val: "parses (Suc j) o' (andthen (p_value m q) (\<lambda>v p2. Ok (f v, p2)))" if "follows (Suc j) o' q"
    for q :: Parser and m :: string and f :: "string \<Rightarrow> Subject"
    by (rule parses_andthen [OF p_value_parses [OF that]]) (erule parses_Ok, simp)
  have ret: "parses (Suc j) o' (Ok (x, skip p))" "parses (Suc j) o' (Ok (x, skip (skip p)))"
    "parses (Suc j) o' (Err (unexpected p m))" for x :: Subject and m
    by (simp_all add: parses_Ok [OF s] parses_Ok [OF follows_skip [OF s]] parses_unexpected [OF assms])
  show ?thesis
    using val [OF s] val [OF follows_skip [OF s]] ret
    unfolding p_subject_def Word TokKind.case Let_def by (intro parses_if; simp split: TokKind.split)
qed (use assms in \<open>auto simp: p_subject_def intro: parses_unexpected parses_skip\<close>)

lemma p_agent_filter_parses [parsing]:
  assumes "follows j o' p"
  shows "parses (Suc j) o' (p_agent_filter p)"
proof (cases "is_word ''agent'' p \<or> is_word ''provider'' p")
  case True
  then have s: "follows (Suc j) o' (skip p)"
    using follows_skip_Suc [OF assms] is_word_kind by blast
  show ?thesis
    using True parses_weaken [OF p_value_parses [OF follows_skip [OF s]], of "Suc j"]
    by (simp add: p_agent_filter_def Let_def parses_unexpected [OF s])
qed (simp add: p_agent_filter_def parses_unexpected [OF assms])

lemma p_filter_parses [parsing]:
  assumes "follows j o' p"
  shows "parses (Suc j) o' (p_filter env p)"
proof (cases "tok_kind (peek p)")
  case (Word w)
  have s: "follows (Suc j) o' (skip p)"
    using follows_skip_Suc [OF assms] Word by simp
  show ?thesis
    unfolding p_filter_def Word TokKind.case Let_def
    by (intro parses_if parses_unexpected [OF s] parses_token [OF assms]
        parses_andthen [OF p_time_parses [OF follows_eat(2) [OF s]]]
        parses_andthen [OF p_value_parses [OF follows_skip [OF s]]])
      (erule parses_Ok; simp)+
qed (simp_all add: p_filter_def parses_unexpected [OF assms])

text \<open>A loop with fuel \<open>n\<close> after \<open>j\<close> tokens of \<open>o'\<close> has enough when no more than \<open>n\<close> tokens are left.\<close>

definition fuelled :: "Parser \<Rightarrow> nat \<Rightarrow> nat \<Rightarrow> bool" where
  "fuelled o' j n \<longleftrightarrow> length (ps_toks o') \<le> ps_pos o' + j + n"

lemma fuelled_0: "follows j o' p \<Longrightarrow> fuelled o' j 0 \<Longrightarrow> False"
  by (auto simp: follows_def fuelled_def ps_ok_def)

lemma fuelled_Suc: "fuelled o' j (Suc n) \<Longrightarrow> Suc j \<le> k \<Longrightarrow> fuelled o' k n"
  by (simp add: fuelled_def)

lemma fuelled_all: "follows j o' p \<Longrightarrow> fuelled o' k (length (ps_toks p))"
  by (simp add: fuelled_def follows_def)

lemma p_filter_list_parses:
  "follows j o' p \<Longrightarrow> fuelled o' j n \<Longrightarrow> parses (Suc j) o' (p_filter_list n env p)"
proof (induction n arbitrary: j p)
  case 0
  then show ?case
    using fuelled_0 by blast
next
  case (Suc n)
  have "parses (Suc j) o' (andthen (p_filter_list n env (skip p1)) (\<lambda>fs p2. Ok (f # fs, p2)))"
    if f1: "follows (Suc j) o' p1" and "is_word ''AND'' p1 \<or> is_punct '','' p1" for f p1
  proof -
    have "tok_kind (peek p1) \<noteq> Eof"
      using that(2) is_word_kind is_punct_kind by blast
    from Suc.IH [OF follows_skip_Suc [OF f1 this]] show ?thesis
      using fuelled_Suc [OF Suc.prems(2)] by (intro parses_andthen) (auto intro: parses_Ok)
  qed
  then show ?case
    by (auto intro!: parses_andthen [OF p_filter_parses [OF Suc.prems(1)]] intro: parses_Ok)
qed

lemma predicate_end_follows:
  "follows j o' p \<Longrightarrow> fuelled o' j n \<Longrightarrow> \<exists>q. predicate_end n depth p = Ok q \<and> follows j o' q"
proof (induction n arbitrary: j p depth)
  case 0
  then show ?case
    using fuelled_0 by blast
next
  case (Suc n)
  have "\<exists>q. predicate_end n d (skip p) = Ok q \<and> follows j o' q" if "tok_kind (peek p) \<noteq> Eof" for d
    using Suc.IH [OF follows_skip_Suc [OF Suc.prems(1) that] fuelled_Suc [OF Suc.prems(2)]] follows_weaken by force
  then show ?case
    using Suc.prems(1) by (cases "tok_kind (peek p)") auto
qed

lemma p_predicate_parses [parsing]:
  assumes "follows j o' p"
  shows "parses j o' (p_predicate env p)"
proof -
  obtain q where q: "predicate_end (length (ps_toks p)) 0 p = Ok q" "follows j o' q"
    using predicate_end_follows [OF assms fuelled_all [OF assms]] by blast
  have "tok_start (ps_toks p ! ps_pos p) \<le> length (ps_text o')"
    using assms peek_start [OF assms] peek_nth [of p] by (simp add: follows_def)
  then show ?thesis
    by (simp add: p_predicate_def q(1) Let_def parses_at parses_unexpected [OF q(2)] parses_Ok [OF q(2)] split: sum.split)
qed

lemma p_order_by_parses [parsing]:
  assumes "follows j o' p"
  shows "parses (Suc j) o' (p_order_by p)"
proof (cases "tok_kind (peek p)")
  case (Word w)
  have s: "follows (Suc j) o' (skip p)"
    using follows_skip_Suc [OF assms] Word by simp
  show ?thesis
    unfolding p_order_by_def Word TokKind.case Let_def
    by (intro parses_if parses_token [OF assms])
      (simp add: eat_word_def parses_Ok [OF s] parses_Ok [OF follows_skip [OF s]])
qed (simp_all add: p_order_by_def parses_unexpected [OF assms])

lemma p_show_target_parses [parsing]:
  assumes "follows j o' p"
  shows "parses (Suc j) o' (p_show_target p)"
proof (cases "tok_kind (peek p)")
  case (Word w)
  have s: "follows (Suc j) o' (skip p)"
    using follows_skip_Suc [OF assms] Word by simp
  have kw: "parses (Suc j) o' (andthen (expect_word k (skip p)) (\<lambda>_ p2. Ok (x, p2)))" for k and x :: ShowTarget
    by (rule parses_andthen [OF expect_word_parses [OF s]]) (erule parses_Ok, simp)
  have ret: "parses (Suc j) o' (Ok (x, skip p))" for x :: ShowTarget
    by (simp add: parses_Ok [OF s])
  have handoffs: "parses (Suc j) o' (andthen (p_agent_filter (skip (skip p))) (\<lambda>a p2.
      andthen (expect_word ''AND'' p2) (\<lambda>_ p3. andthen (p_agent_filter p3) (\<lambda>b p4. Ok (Handoffs (Some (a, b)), p4)))))"
    by (rule parses_andthen [OF p_agent_filter_parses [OF follows_skip [OF s]]],
        rule parses_andthen [OF expect_word_parses], assumption,
        rule parses_andthen [OF p_agent_filter_parses], assumption, erule parses_Ok, simp)
  have evidence: "parses (Suc j) o' (andthen (expect_word ''FOR'' (skip p)) (\<lambda>_ p2.
      andthen (p_subject p2) (\<lambda>s p3. Ok (Evidence s, p3))))"
    by (rule parses_andthen [OF expect_word_parses [OF s]], rule parses_andthen [OF p_subject_parses], assumption,
        erule parses_Ok, simp)
  show ?thesis
    unfolding p_show_target_def Word TokKind.case Let_def
    by (intro parses_if ret kw handoffs evidence parses_unexpected [OF assms])
qed (simp_all add: p_show_target_def parses_unexpected [OF assms])

lemma p_clauses_parses:
  "follows j o' p \<Longrightarrow> fuelled o' j n \<Longrightarrow> parses j o' (p_clauses n env stmt p)"
proof (induction n arbitrary: j p stmt)
  case 0
  then show ?case
    using fuelled_0 by blast
next
  case (Suc n)
  note f = Suc.prems(1)
  have s: "follows (Suc j) o' (skip p)" if "is_word kw p" for kw
    using follows_skip_Suc [OF f is_word_kind [OF that]] .
  have go: "parses j o' (p_clauses n env st q)" if "follows k o' q" and "Suc j \<le> k" for k q st
    using parses_weaken [OF Suc.IH [OF that(1) fuelled_Suc [OF Suc.prems(2) that(2)]], of j] that(2) by simp
  show ?case
    unfolding p_clauses.simps Let_def
    by (intro parses_if parses_unexpected [OF f] parses_Ok [OF f] order_refl;
        (rule parses_andthen, rule p_filter_list_parses p_predicate_parses p_time_parses p_integer_parses expect_word_parses,
         erule s, (rule fuelled_all [OF f])?, ((rule parses_andthen, rule p_order_by_parses, assumption)?), erule go, simp))
qed

lemma p_show_parses [parsing]: "follows j o' p \<Longrightarrow> parses (Suc j) o' (p_show env p)"
  unfolding p_show_def
  by (rule parses_andthen, erule expect_word_parses, rule parses_andthen, erule p_show_target_parses,
      rule parses_weaken, erule p_clauses_parses, rule fuelled_all, assumption, simp)

lemma p_why_parses [parsing]: "follows j o' p \<Longrightarrow> parses (Suc j) o' (p_why p)"
  unfolding p_why_def Let_def
proof (rule parses_andthen, erule expect_word_parses, rule parses_andthen, erule p_subject_parses)
  fix subject q
  assume "follows (Suc (Suc j)) o' q"
  then have e: "follows (Suc (Suc j)) o' (snd (eat_word ''STATUS'' q))"
    by (rule follows_eat)
  show "parses (Suc j) o'
      (case tok_kind (peek (snd (eat_word ''STATUS'' q))) of
         Word state \<Rightarrow>
           Ok (\<lparr>wy_subject = subject, wy_state = to_ascii_uppercase state\<rparr>, skip (snd (eat_word ''STATUS'' q)))
       | _ \<Rightarrow> Err (unexpected (snd (eat_word ''STATUS'' q))
           ''a state: BLOCKED (session, project or work unit) or FAILED (attempt)''))"
    by (simp add: parses_Ok [OF follows_skip [OF e]] parses_unexpected [OF e] split: TokKind.split)
qed

lemma p_direction_parses [parsing]: "follows j o' p \<Longrightarrow> parses (Suc j) o' (p_direction p)"
  unfolding p_direction_def by (intro parses_if parses_skip parses_unexpected is_word_kind)

lemma p_trace_options_parses:
  "follows j o' p \<Longrightarrow> fuelled o' j n \<Longrightarrow> parses j o' (p_trace_options n stmt p)"
proof (induction n arbitrary: j p stmt)
  case 0
  then show ?case
    using fuelled_0 by blast
next
  case (Suc n)
  note f = Suc.prems(1)
  have s: "follows (Suc j) o' (skip p)" if "is_word kw p" for kw
    using follows_skip_Suc [OF f is_word_kind [OF that]] .
  have go: "parses j o' (p_trace_options n st q)" if "follows (Suc (Suc j)) o' q" for q st
    using parses_weaken [OF Suc.IH [OF that fuelled_Suc [OF Suc.prems(2)]], of j] by simp
  show ?case
    unfolding p_trace_options.simps
    by (intro parses_if parses_Ok [OF f] order_refl;
        (rule parses_andthen, rule p_integer_parses p_direction_parses, erule s, erule go))
qed

lemma p_trace_parses [parsing]: "follows j o' p \<Longrightarrow> parses (Suc j) o' (p_trace p)"
  unfolding p_trace_def
  by (rule parses_andthen, erule expect_word_parses, rule parses_andthen, erule p_subject_parses,
      rule parses_andthen, erule expect_word_parses, rule parses_weaken, erule p_trace_options_parses,
      rule fuelled_all, assumption, simp)

lemma p_state_parses [parsing]: "follows j o' p \<Longrightarrow> parses (Suc j) o' (p_state env p)"
  unfolding p_state_def
  by (rule parses_andthen, erule expect_word_parses, rule parses_andthen, erule p_subject_parses,
      rule parses_andthen, erule expect_word_parses, rule parses_andthen, erule p_time_parses,
      rule parses_if, erule parses_token, erule parses_Ok, simp)

lemma p_diff_subject_parses [parsing]:
  assumes "follows j o' p"
  shows "parses j o' (p_diff_subject p)"
proof -
  have s: "follows j o' (skip p)" "follows j o' (skip (skip p))"
    using assms by (simp_all add: follows_skip)
  have "parses j o' (andthen (p_subject p) (\<lambda>s p1. Ok (Some s, p1)))"
    by (rule parses_andthen [OF p_subject_parses [OF assms]], erule parses_Ok, simp)
  then show ?thesis
    by (simp add: p_diff_subject_def Let_def parses_Ok [OF s(1)] parses_Ok [OF s(2)] parses_Ok [OF assms] split: TokKind.split)
qed

lemma p_diff_parses [parsing]: "follows j o' p \<Longrightarrow> parses (Suc j) o' (p_diff env p)"
  unfolding p_diff_def
  by (rule parses_andthen, erule expect_word_parses, rule parses_andthen, erule expect_word_parses,
      rule parses_andthen, erule p_diff_subject_parses, rule parses_andthen, erule p_time_parses,
      rule parses_andthen, erule p_time_parses, erule parses_Ok, simp)

lemma p_what_is_parses [parsing]: "follows j o' p \<Longrightarrow> parses (Suc j) o' (p_what_is p)"
  unfolding p_what_is_def
  by (rule parses_andthen, erule expect_word_parses, rule parses_andthen, erule expect_word_parses,
      rule parses_andthen, erule p_subject_parses, rule parses_andthen, erule expect_word_parses,
      rule parses_andthen, erule expect_word_parses, erule parses_Ok, simp)

lemma parses_suggestion:
  "parses k o' (Err e :: 'a parsed) \<Longrightarrow> parses k o' (Err (add_suggestion w e) :: 'a parsed)"
  by (cases "(w, e)" rule: add_suggestion.cases) (simp_all add: parses_def in_text_def)

lemma p_statement_parses:
  assumes "follows j o' p"
  shows "parses (Suc j) o' (p_statement env p)"
proof (cases "tok_kind (peek p)")
  case (Word w)
  have ret: "parses (Suc j) o' (andthen r (\<lambda>s p1. Ok (f s, p1)))" if "parses (Suc j) o' r"
    for r :: "'s parsed" and f :: "'s \<Rightarrow> Statement"
    by (rule parses_andthen [OF that], erule parses_Ok, simp)
  show ?thesis
    unfolding p_statement_def Word TokKind.case Let_def
    by (intro parses_if ret parses_suggestion parses_unexpected [OF assms] p_show_parses p_why_parses p_trace_parses
        p_state_parses p_diff_parses p_what_is_parses assms)
qed (simp_all add: p_statement_def parses_unexpected [OF assms])

lemma parse_tokens_in_text:
  assumes "ps_ok \<lparr>ps_text = txt, ps_toks = toks, ps_pos = 0\<rparr>" and "parse_tokens env txt toks = Err e"
  shows "in_text txt e"
proof -
  let ?p = "\<lparr>ps_text = txt, ps_toks = toks, ps_pos = 0\<rparr>"
  obtain explain p1 where x: "eat_word ''EXPLAIN'' ?p = (explain, p1)"
    by (cases "eat_word ''EXPLAIN'' ?p")
  have f: "follows 0 ?p p1"
    using follows_eat(1) [OF follows_refl [OF assms(1)], of "''EXPLAIN''"] x by simp
  have "parses (Suc 0) ?p (p_statement env p1)"
    by (rule p_statement_parses [OF f])
  moreover have "in_text txt (unexpected p3 m)" if "follows k ?p p3" for k p3 m
    using parses_unexpected [OF that, of 0 m] by (simp add: parses_def)
  ultimately show ?thesis
    using assms(2) follows_eat(2) [of "Suc 0" ?p _ "'';''"]
    by (auto simp: parse_tokens_def x parses_def in_text_def Let_def split: if_splits sum.splits prod.splits)
qed

lemma parse_statement_in_text: "parse_statement env txt = Err e \<Longrightarrow> in_text txt e"
proof (cases "lex txt")
  case (Inl e')
  moreover assume "parse_statement env txt = Err e"
  ultimately show ?thesis
    using lex_loop_no_fuel [of 0 "txt"] lex_loop_error [of 0 "txt"]
    by (cases e) (auto simp: parse_statement_def lex_def in_text_def)
next
  case (Inr toks)
  moreover assume "parse_statement env txt = Err e"
  ultimately show ?thesis
    using lex_shape [OF Inr] by (intro parse_tokens_in_text [of "txt" toks env]) (simp_all add: parse_statement_def ps_ok_def)
qed

section \<open>Theorems\<close>

text \<open>
  C34: the parser always returns. Whatever the text is and whatever the SQL expression parser answers, no
  loop of the parser runs longer than there are tokens: parsing gives a statement or an error of the
  program, and the fuel of the model is never used up.
\<close>

theorem parser_terminates: "parse_statement env txt \<noteq> Err OutOfFuel"
  using parse_statement_in_text [of env "txt" OutOfFuel] by (auto simp: in_text_def)

text \<open>
  C36: a parse error points into the statement. Its position is an offset of the text, at most its
  length, so the caret rendering of an error never reads past the end.
\<close>

theorem parse_error_in_text:
  assumes "parse_statement env txt = Err (ParseError message position)"
  shows "position \<le> length txt"
  using parse_statement_in_text [OF assms] by (simp add: in_text_def)

theorem parse_error_in_text_witness:
  "\<exists>message. parse_statement \<lparr>qe_dates = \<lambda>_. None, qe_predicate = \<lambda>s. Ok s\<rparr> ''TRACE project DEPTH'' =
      Err (ParseError message 14) \<and> 14 \<le> length ''TRACE project DEPTH''"
proof -
  have "\<exists>message. parse_statement \<lparr>qe_dates = \<lambda>_. None, qe_predicate = \<lambda>s. Ok s\<rparr> ''TRACE project DEPTH'' =
      Err (ParseError message 14)"
    by (intro exI) code_simp
  then show ?thesis
    using parse_error_in_text [of _ "''TRACE project DEPTH''" _ 14] by blast
qed

end
