(* ===== verification/Writing.thy ===== *)
theory Writing
  imports Parsing
begin

text \<open>
  Statements written as text are read back as the same statements
  (\<open>attemptdb-query/src/attemptql/parser.rs\<close>). A statement is written as a list of tokens; the judgement
  \<open>yields r a ks\<close> says that a production returned \<open>a\<close> and left the tokens \<open>ks\<close>. Values are written
  between quotes, so any text can be a value; timestamps are written by a given function that the date
  formats read back.
\<close>

section \<open>Statements as tokens\<close>

fun time_kind :: "(Timestamp \<Rightarrow> string) \<Rightarrow> TimeExpr \<Rightarrow> TokKind" where
  "time_kind fmt (Absolute t) = Str (fmt t)"
| "time_kind fmt Now = Word ''now''"
| "time_kind fmt (RelativeTime n u) = Relative (describe fmt (RelativeTime n u))"
| "time_kind fmt Today = Word ''today''"
| "time_kind fmt Yesterday = Word ''yesterday''"

fun subject_kinds :: "Subject \<Rightarrow> TokKind list" where
  "subject_kinds (SubjectProject None) = [Word ''project'']"
| "subject_kinds (SubjectProject (Some v)) = [Word ''project'', Str v]"
| "subject_kinds (SubjectSession v) = [Word ''session'', Str v]"
| "subject_kinds (SubjectAttempt v) = [Word ''attempt'', Str v]"
| "subject_kinds (SubjectTurn v) = [Word ''turn'', Str v]"
| "subject_kinds (SubjectSpan v) = [Word ''span'', Str v]"
| "subject_kinds (SubjectEvent v) = [Word ''event'', Str v]"
| "subject_kinds (SubjectAgent v) = [Word ''agent'', Str v]"
| "subject_kinds (SubjectWorkUnit v) = [Word ''work_unit'', Str v]"
| "subject_kinds (SubjectId v) = [Str v]"

fun target_kinds :: "ShowTarget \<Rightarrow> TokKind list" where
  "target_kinds Attempts = [Word ''ATTEMPTS'']"
| "target_kinds FailedAttempts = [Word ''FAILED'', Word ''ATTEMPTS'']"
| "target_kinds SupersededAttempts = [Word ''SUPERSEDED'', Word ''ATTEMPTS'']"
| "target_kinds Sessions = [Word ''SESSIONS'']"
| "target_kinds Turns = [Word ''TURNS'']"
| "target_kinds ToolCalls = [Word ''TOOL'', Word ''CALLS'']"
| "target_kinds (Handoffs None) = [Word ''HANDOFFS'']"
| "target_kinds (Handoffs (Some (a, b))) =
     [Word ''HANDOFFS'', Word ''BETWEEN'', Word ''agent'', Punct ''='', Str a, Word ''AND'', Word ''agent'', Punct ''='', Str b]"
| "target_kinds WorkUnits = [Word ''WORK'', Word ''UNITS'']"
| "target_kinds Decisions = [Word ''DECISIONS'']"
| "target_kinds Commits = [Word ''COMMITS'']"
| "target_kinds (Evidence s) = Word ''EVIDENCE'' # Word ''FOR'' # subject_kinds s"
| "target_kinds Edges = [Word ''EDGES'']"
| "target_kinds Signals = [Word ''SIGNALS'']"
| "target_kinds Corrections = [Word ''CORRECTIONS'']"
| "target_kinds Retractions = [Word ''RETRACTIONS'']"

fun filter_value :: "Filter \<Rightarrow> string" where
  "filter_value (FilterProject v) = v"
| "filter_value (FilterSession v) = v"
| "filter_value (FilterProvider v) = v"
| "filter_value (FilterAgent v) = v"
| "filter_value (FilterTurn v) = v"
| "filter_value (FilterPath v) = v"
| "filter_value (FilterOutcome v) = v"
| "filter_value (FilterTool v) = v"
| "filter_value (FilterStatus v) = v"
| "filter_value (FilterPhase v) = v"
| "filter_value _ = []"

fun filter_kinds :: "(Timestamp \<Rightarrow> string) \<Rightarrow> Filter \<Rightarrow> TokKind list" where
  "filter_kinds fmt (FilterSince t) = [Word ''since'', time_kind fmt t]"
| "filter_kinds fmt (FilterUntil t) = [Word ''until'', time_kind fmt t]"
| "filter_kinds fmt f = [Word (Filter_key f), Punct ''='', Str (filter_value f)]"

fun filters_kinds :: "(Timestamp \<Rightarrow> string) \<Rightarrow> Filter list \<Rightarrow> TokKind list" where
  "filters_kinds fmt [] = []"
| "filters_kinds fmt [f] = filter_kinds fmt f"
| "filters_kinds fmt (f # fs) = filter_kinds fmt f @ Word ''AND'' # filters_kinds fmt fs"

definition opt_kinds :: "('a \<Rightarrow> TokKind list) \<Rightarrow> 'a option \<Rightarrow> TokKind list" where
  "opt_kinds f x = (case x of None \<Rightarrow> [] | Some v \<Rightarrow> f v)"

definition order_kinds :: "OrderBy \<Rightarrow> TokKind list" where
  "order_kinds ob = [Word ''ORDER'', Word ''BY'', Word (ob_column ob), Word (if ob_descending ob then ''DESC'' else ''ASC'')]"

definition clause_kinds :: "(Timestamp \<Rightarrow> string) \<Rightarrow> ShowStatement \<Rightarrow> TokKind list" where
  "clause_kinds fmt s =
     (if sh_filters s = [] then [] else Word ''FOR'' # filters_kinds fmt (sh_filters s)) @
     opt_kinds (\<lambda>t. [Word ''SINCE'', time_kind fmt t]) (sh_since s) @
     opt_kinds (\<lambda>t. [Word ''UNTIL'', time_kind fmt t]) (sh_until s) @
     opt_kinds order_kinds (sh_order_by s) @
     opt_kinds (\<lambda>k. [Word ''LIMIT'', Num (decimal k)]) (sh_limit s) @
     (if sh_including_retracted s then [Word ''INCLUDING'', Word ''RETRACTED''] else [])"

fun direction_word :: "Direction \<Rightarrow> string" where
  "direction_word Up = ''UP''"
| "direction_word Down = ''DOWN''"
| "direction_word Both = ''BOTH''"

fun statement_kinds :: "(Timestamp \<Rightarrow> string) \<Rightarrow> Statement \<Rightarrow> TokKind list" where
  "statement_kinds fmt (Show s) = Word ''SHOW'' # target_kinds (sh_target s) @ clause_kinds fmt s"
| "statement_kinds fmt (Why s) = Word ''WHY'' # subject_kinds (wy_subject s) @ [Word ''STATUS'', Word (wy_state s)]"
| "statement_kinds fmt (Trace s) =
     Word ''TRACE'' # subject_kinds (tr_subject s) @ Word ''CAUSES'' #
       opt_kinds (\<lambda>k. [Word ''DEPTH'', Num (decimal k)]) (tr_depth s) @ [Word ''DIRECTION'', Word (direction_word (tr_direction s))]"
| "statement_kinds fmt (State s) = Word ''STATE'' # subject_kinds (st_subject s) @ [Word ''AT'', time_kind fmt (st_at s)]"
| "statement_kinds fmt (Diff s) =
     Word ''DIFF'' # Word ''STATE'' # opt_kinds subject_kinds (df_subject s) @ [time_kind fmt (df_from s), time_kind fmt (df_to s)]"
| "statement_kinds fmt (WhatIs s) = Word ''WHAT'' # Word ''IS'' # subject_kinds (wi_subject s) @ [Word ''DOING'', Word ''NOW'']"
| "statement_kinds fmt (Explain s) = Word ''EXPLAIN'' # statement_kinds fmt s"

section \<open>Which statements can be written\<close>

fun time_ok :: "QueryEnv \<Rightarrow> (Timestamp \<Rightarrow> string) \<Rightarrow> TimeExpr \<Rightarrow> bool" where
  "time_ok env fmt (Absolute t) \<longleftrightarrow> parse_literal (qe_dates env) (fmt t) = Some (Absolute t)"
| "time_ok env fmt (RelativeTime n u) \<longleftrightarrow> 0 \<le> n \<and> n < 2 ^ 63 \<and> is_unit u"
| "time_ok env fmt _ \<longleftrightarrow> True"

fun filter_ok :: "QueryEnv \<Rightarrow> (Timestamp \<Rightarrow> string) \<Rightarrow> Filter \<Rightarrow> bool" where
  "filter_ok env fmt (FilterSince t) \<longleftrightarrow> time_ok env fmt t"
| "filter_ok env fmt (FilterUntil t) \<longleftrightarrow> time_ok env fmt t"
| "filter_ok env fmt _ \<longleftrightarrow> True"

definition word_ok :: "string \<Rightarrow> bool" where
  "word_ok w \<longleftrightarrow> w \<noteq> [] \<and> list_all is_word_char w \<and> \<not> list_all is_ascii_digit w"

definition show_ok :: "QueryEnv \<Rightarrow> (Timestamp \<Rightarrow> string) \<Rightarrow> ShowStatement \<Rightarrow> bool" where
  "show_ok env fmt s \<longleftrightarrow>
     sh_predicate s = None \<and> list_all (filter_ok env fmt) (sh_filters s) \<and>
     pred_option (time_ok env fmt) (sh_since s) \<and> pred_option (time_ok env fmt) (sh_until s) \<and>
     pred_option (\<lambda>ob. word_ok (ob_column ob)) (sh_order_by s) \<and> pred_option (\<lambda>k. k < 2 ^ 64) (sh_limit s)"

text \<open>
  \<open>EXPLAIN\<close> does not nest, a state is upper case, and \<open>DIFF\<close> takes no quoted id as its subject: the parser
  reads it as the first timestamp.
\<close>

fun statement_ok :: "QueryEnv \<Rightarrow> (Timestamp \<Rightarrow> string) \<Rightarrow> Statement \<Rightarrow> bool" where
  "statement_ok env fmt (Show s) \<longleftrightarrow> show_ok env fmt s"
| "statement_ok env fmt (Why s) \<longleftrightarrow> word_ok (wy_state s) \<and> to_ascii_uppercase (wy_state s) = wy_state s"
| "statement_ok env fmt (Trace s) \<longleftrightarrow> pred_option (\<lambda>k. k < 2 ^ 64) (tr_depth s)"
| "statement_ok env fmt (State s) \<longleftrightarrow> time_ok env fmt (st_at s)"
| "statement_ok env fmt (Diff s) \<longleftrightarrow>
     time_ok env fmt (df_from s) \<and> time_ok env fmt (df_to s) \<and> (\<forall>v. df_subject s \<noteq> Some (SubjectId v))"
| "statement_ok env fmt (WhatIs s) \<longleftrightarrow> True"
| "statement_ok env fmt (Explain s) \<longleftrightarrow> False"

section \<open>The words\<close>

definition WORDS :: "string list" where
  "WORDS = RESERVED @
     [''FAILED'', ''SUPERSEDED'', ''TOOL'', ''CALLS'', ''COMMITS'', ''EDGES'', ''SIGNALS'', ''DESC'', ''ASC'', ''UP'', ''DOWN'',
      ''BOTH'', ''project'', ''session'', ''attempt'', ''turn'', ''span'', ''event'', ''agent'', ''work_unit'', ''provider'', ''path'',
      ''outcome'', ''tool'', ''status'', ''phase'', ''since'', ''until'', ''now'', ''today'', ''yesterday'']"

lemma WORDS_ok: "list_all word_ok WORDS"
  by code_simp

lemma lower_words:
  "to_ascii_lowercase ''SHOW'' = ''show''" "to_ascii_lowercase ''WHY'' = ''why''" "to_ascii_lowercase ''TRACE'' = ''trace''"
  "to_ascii_lowercase ''STATE'' = ''state''" "to_ascii_lowercase ''DIFF'' = ''diff''"
  "to_ascii_lowercase ''WHAT'' = ''what''" "to_ascii_lowercase ''IS'' = ''is''" "to_ascii_lowercase ''DOING'' = ''doing''"
  "to_ascii_lowercase ''NOW'' = ''now''" "to_ascii_lowercase ''STATUS'' = ''status''"
  "to_ascii_lowercase ''CAUSES'' = ''causes''" "to_ascii_lowercase ''AT'' = ''at''" "to_ascii_lowercase ''FOR'' = ''for''"
  "to_ascii_lowercase ''WHERE'' = ''where''" "to_ascii_lowercase ''SINCE'' = ''since''"
  "to_ascii_lowercase ''UNTIL'' = ''until''" "to_ascii_lowercase ''ORDER'' = ''order''" "to_ascii_lowercase ''BY'' = ''by''"
  "to_ascii_lowercase ''LIMIT'' = ''limit''" "to_ascii_lowercase ''DEPTH'' = ''depth''"
  "to_ascii_lowercase ''DIRECTION'' = ''direction''" "to_ascii_lowercase ''AND'' = ''and''"
  "to_ascii_lowercase ''BETWEEN'' = ''between''" "to_ascii_lowercase ''EXPLAIN'' = ''explain''"
  "to_ascii_lowercase ''ATTEMPTS'' = ''attempts''" "to_ascii_lowercase ''SESSIONS'' = ''sessions''"
  "to_ascii_lowercase ''TURNS'' = ''turns''" "to_ascii_lowercase ''HANDOFFS'' = ''handoffs''"
  "to_ascii_lowercase ''DECISIONS'' = ''decisions''" "to_ascii_lowercase ''EVIDENCE'' = ''evidence''"
  "to_ascii_lowercase ''INCLUDING'' = ''including''" "to_ascii_lowercase ''RETRACTED'' = ''retracted''"
  "to_ascii_lowercase ''WORK'' = ''work''" "to_ascii_lowercase ''UNITS'' = ''units''"
  "to_ascii_lowercase ''CORRECTIONS'' = ''corrections''" "to_ascii_lowercase ''RETRACTIONS'' = ''retractions''"
  "to_ascii_lowercase ''FAILED'' = ''failed''" "to_ascii_lowercase ''SUPERSEDED'' = ''superseded''"
  "to_ascii_lowercase ''TOOL'' = ''tool''" "to_ascii_lowercase ''CALLS'' = ''calls''"
  "to_ascii_lowercase ''COMMITS'' = ''commits''" "to_ascii_lowercase ''EDGES'' = ''edges''"
  "to_ascii_lowercase ''SIGNALS'' = ''signals''" "to_ascii_lowercase ''DESC'' = ''desc''"
  "to_ascii_lowercase ''ASC'' = ''asc''" "to_ascii_lowercase ''UP'' = ''up''" "to_ascii_lowercase ''DOWN'' = ''down''"
  "to_ascii_lowercase ''BOTH'' = ''both''" "to_ascii_lowercase ''AS'' = ''as''"
  "to_ascii_lowercase ''project'' = ''project''" "to_ascii_lowercase ''session'' = ''session''"
  "to_ascii_lowercase ''attempt'' = ''attempt''" "to_ascii_lowercase ''turn'' = ''turn''"
  "to_ascii_lowercase ''span'' = ''span''" "to_ascii_lowercase ''event'' = ''event''"
  "to_ascii_lowercase ''agent'' = ''agent''" "to_ascii_lowercase ''work_unit'' = ''work_unit''"
  "to_ascii_lowercase ''provider'' = ''provider''" "to_ascii_lowercase ''path'' = ''path''"
  "to_ascii_lowercase ''outcome'' = ''outcome''" "to_ascii_lowercase ''tool'' = ''tool''"
  "to_ascii_lowercase ''status'' = ''status''" "to_ascii_lowercase ''phase'' = ''phase''"
  "to_ascii_lowercase ''since'' = ''since''" "to_ascii_lowercase ''until'' = ''until''"
  "to_ascii_lowercase ''now'' = ''now''" "to_ascii_lowercase ''today'' = ''today''"
  "to_ascii_lowercase ''yesterday'' = ''yesterday''" "to_ascii_lowercase ''unit'' = ''unit''"
  by (simp_all add: to_ascii_lowercase_def ascii_lower_def is_ascii_uppercase_def code_def char_of_def bit_Suc_0_iff)

lemma upper_words:
  "to_ascii_uppercase ''SHOW'' = ''SHOW''" "to_ascii_uppercase ''WHY'' = ''WHY''" "to_ascii_uppercase ''TRACE'' = ''TRACE''"
  "to_ascii_uppercase ''STATE'' = ''STATE''" "to_ascii_uppercase ''DIFF'' = ''DIFF''"
  "to_ascii_uppercase ''WHAT'' = ''WHAT''" "to_ascii_uppercase ''ATTEMPTS'' = ''ATTEMPTS''"
  "to_ascii_uppercase ''SESSIONS'' = ''SESSIONS''" "to_ascii_uppercase ''TURNS'' = ''TURNS''"
  "to_ascii_uppercase ''HANDOFFS'' = ''HANDOFFS''" "to_ascii_uppercase ''DECISIONS'' = ''DECISIONS''"
  "to_ascii_uppercase ''EVIDENCE'' = ''EVIDENCE''" "to_ascii_uppercase ''WORK'' = ''WORK''"
  "to_ascii_uppercase ''CORRECTIONS'' = ''CORRECTIONS''" "to_ascii_uppercase ''RETRACTIONS'' = ''RETRACTIONS''"
  "to_ascii_uppercase ''FAILED'' = ''FAILED''" "to_ascii_uppercase ''SUPERSEDED'' = ''SUPERSEDED''"
  "to_ascii_uppercase ''TOOL'' = ''TOOL''" "to_ascii_uppercase ''COMMITS'' = ''COMMITS''"
  "to_ascii_uppercase ''EDGES'' = ''EDGES''" "to_ascii_uppercase ''SIGNALS'' = ''SIGNALS''"
  by (simp_all add: to_ascii_uppercase_def ascii_upper_def is_ascii_lowercase_def code_def char_of_def bit_Suc_0_iff)

lemma word_ok_writable: "writable (Word w) \<longleftrightarrow> word_ok w"
  by (simp add: word_ok_def)

lemmas reserved_words = is_reserved_def RESERVED_def eq_ignore_ascii_case_def lower_words

lemma not_reserved:
  "\<not> is_reserved ''session''" "\<not> is_reserved ''attempt''" "\<not> is_reserved ''turn''" "\<not> is_reserved ''span''"
  "\<not> is_reserved ''event''" "\<not> is_reserved ''agent''" "\<not> is_reserved ''work_unit''" "\<not> is_reserved ''project''"
  by (simp_all add: reserved_words)

section \<open>What is left to read\<close>

definition rest :: "Parser \<Rightarrow> TokKind list" where
  "rest p = map tok_kind (drop (ps_pos p) (ps_toks p))"

definition yields :: "'a parsed \<Rightarrow> 'a \<Rightarrow> TokKind list \<Rightarrow> bool" where
  "yields r a ks \<longleftrightarrow> (\<exists>q. r = Ok (a, q) \<and> rest q = ks)"

lemma rest_Cons:
  assumes "rest p = k # ks"
  shows "ps_pos p < length (ps_toks p)" and "tok_kind (ps_toks p ! ps_pos p) = k"
    and "ks = map tok_kind (drop (Suc (ps_pos p)) (ps_toks p))"
proof -
  show a: "ps_pos p < length (ps_toks p)"
    using assms unfolding rest_def by (metis drop_all list.distinct(1) list.map(1) not_le)
  show "tok_kind (ps_toks p ! ps_pos p) = k" "ks = map tok_kind (drop (Suc (ps_pos p)) (ps_toks p))"
    using assms unfolding rest_def by (simp_all add: Cons_nth_drop_Suc [OF a, symmetric])
qed

lemma rest_peek: "rest p = k # ks \<Longrightarrow> tok_kind (peek p) = k"
  using rest_Cons(1,2) [of p k ks] by (auto simp: peek_def min_def)

lemma rest_skip: "rest p = k # ks \<Longrightarrow> ks \<noteq> [] \<Longrightarrow> rest (skip p) = ks"
proof -
  assume r: "rest p = k # ks" and ne: "ks \<noteq> []"
  have "Suc (ps_pos p) < length (ps_toks p)"
    using rest_Cons(3) [OF r] ne by (metis drop_all list.map(1) not_le)
  then show ?thesis
    using rest_Cons(3) [OF r] by (simp add: rest_def skip_def)
qed

lemma rest_is_word: "rest p = k # ks \<Longrightarrow> is_word kw p \<longleftrightarrow> (case k of Word w \<Rightarrow> eq_ignore_ascii_case w kw | _ \<Rightarrow> False)"
  by (simp add: is_word_def rest_peek)

lemma rest_is_punct: "rest p = k # ks \<Longrightarrow> is_punct q p \<longleftrightarrow> k = Punct q"
  by (simp add: is_punct_def rest_peek)

lemma yields_Ok: "rest q = ks \<Longrightarrow> yields (Ok (a, q)) a ks"
  by (simp add: yields_def)

lemma yields_andthen:
  assumes "yields r a ks" and "\<And>q. rest q = ks \<Longrightarrow> yields (f a q) b ks'"
  shows "yields (andthen r f) b ks'"
  using assms by (auto simp: yields_def andthen_def)

section \<open>The productions read what was written\<close>

lemmas read_simps = rest_peek rest_skip rest_is_word rest_is_punct eq_ignore_ascii_case_def lower_words

lemma expect_word_reads:
  "rest p = Word w # ks \<Longrightarrow> ks \<noteq> [] \<Longrightarrow> eq_ignore_ascii_case w kw \<Longrightarrow> yields (expect_word kw p) () ks"
  by (simp add: expect_word_def rest_is_word rest_skip yields_Ok)

lemma p_value_reads: "rest p = Str v # ks \<Longrightarrow> ks \<noteq> [] \<Longrightarrow> yields (p_value what p) v ks"
  by (simp add: p_value_def rest_peek rest_skip yields_Ok)

lemma parse_u64_decimal: "k < 2 ^ 64 \<Longrightarrow> parse_u64 (decimal k) = Some k"
proof -
  assume k: "k < 2 ^ 64"
  obtain c cs where d: "decimal k = c # cs"
    by (cases "decimal k") auto
  then have "c \<noteq> CHR ''+''"
    using decimal_digits [of k] by (auto simp: is_ascii_digit_def code_def)
  then show ?thesis
    using parse_decimal [OF k] by (simp add: parse_u64_def d)
qed

lemma p_integer_reads: "rest p = Num (decimal k) # ks \<Longrightarrow> ks \<noteq> [] \<Longrightarrow> k < 2 ^ 64 \<Longrightarrow> yields (p_integer what p) k ks"
  by (simp add: p_integer_def rest_peek rest_skip parse_u64_decimal yields_Ok)

lemma trim_word: "trim ''now'' = ''now''" "trim ''today'' = ''today''" "trim ''yesterday'' = ''yesterday''"
  by (rule trim_plain; simp add: plain_char_def code_def)+

lemma token_time_reads: "time_ok env fmt e \<Longrightarrow> token_time env (time_kind fmt e) = Some e"
  by (cases e) (simp_all add: token_time_def relative_reads del: describe.simps, simp_all add: parse_literal_def trim_word lower_words)

lemma p_time_reads:
  "rest p = time_kind fmt e # ks \<Longrightarrow> ks \<noteq> [] \<Longrightarrow> time_ok env fmt e \<Longrightarrow> yields (p_time env p) e ks"
  by (simp add: p_time_def rest_peek rest_skip token_time_reads yields_Ok)

lemma p_subject_reads:
  assumes "rest p = subject_kinds s @ ks" and "ks \<noteq> []" and "s = SubjectProject None \<longrightarrow> (\<forall>v. hd ks \<noteq> Str v)"
  shows "yields (p_subject p) s ks"
proof -
  have val: "yields (andthen (p_value m q) (\<lambda>v p2. Ok (f v, p2))) (f v) ks" if "rest q = Str v # ks"
    for q m v and f :: "string \<Rightarrow> Subject"
    by (rule yields_andthen [OF p_value_reads [OF that assms(2)]]) (rule yields_Ok)
  show ?thesis
  proof (cases s rule: subject_kinds.cases)
    case 1
    then have "tok_kind (peek (skip p)) = hd ks" "rest (skip p) = ks" "\<forall>v. hd ks \<noteq> Str v"
      using assms rest_skip [of p "Word ''project''" ks] rest_peek [of "skip p" "hd ks" "tl ks"] by simp_all
    then show ?thesis
      using assms(1) by (cases "hd ks") (simp_all add: 1 p_subject_def rest_peek lower_words yields_Ok)
  next
    case (2 v)
    then show ?thesis
      using assms(1,2) by (simp add: p_subject_def rest_peek rest_skip lower_words yields_Ok)
  qed (use assms(1,2) in \<open>simp_all add: p_subject_def rest_peek rest_skip lower_words yields_Ok val\<close>)
qed

lemma p_agent_filter_reads:
  assumes "rest p = Word ''agent'' # Punct ''='' # Str v # ks" and "ks \<noteq> []"
  shows "yields (p_agent_filter p) v ks"
proof -
  have r: "rest (skip p) = Punct ''='' # Str v # ks" "rest (skip (skip p)) = Str v # ks"
    using assms by (simp_all add: rest_skip)
  show ?thesis
    using p_value_reads [OF r(2) assms(2)]
    by (simp add: p_agent_filter_def Let_def rest_is_word [OF assms(1)] rest_is_punct [OF r(1)] eq_ignore_ascii_case_def lower_words)
qed

lemma time_kind_not: "time_kind fmt t \<noteq> Punct q" "time_kind fmt t \<noteq> Eof"
  by (cases t; simp)+

lemma p_filter_reads:
  assumes "rest p = filter_kinds fmt f @ ks" and "ks \<noteq> []" and "filter_ok env fmt f"
  shows "yields (p_filter env p) f ks"
proof -
  have time: "yields (andthen (p_time env (snd (eat_punct ''='' q))) (\<lambda>e p3. Ok (g e, p3))) (g t) ks"
    if "rest q = time_kind fmt t # ks" and "time_ok env fmt t" for q t and g :: "TimeExpr \<Rightarrow> Filter"
  proof -
    have "snd (eat_punct ''='' q) = q"
      using time_kind_not(1) by (simp add: eat_punct_def rest_is_punct [OF that(1)])
    then show ?thesis
      using p_time_reads [OF that(1) assms(2) that(2)] by (auto intro: yields_andthen yields_Ok)
  qed
  have val: "yields (andthen (p_value m q) (\<lambda>v p2. Ok (g v, p2))) (g v) ks" if "rest q = Str v # ks"
    for q m v and g :: "string \<Rightarrow> Filter"
    by (rule yields_andthen [OF p_value_reads [OF that assms(2)]]) (rule yields_Ok)
  show ?thesis
    using assms
    by (cases f) (simp_all add: p_filter_def Let_def rest_peek rest_skip rest_is_punct lower_words time val VALUE_KEYS_def value_filter_def)
qed

lemma filters_kinds_Cons:
  "filters_kinds fmt (f # fs) = filter_kinds fmt f @ (if fs = [] then [] else Word ''AND'' # filters_kinds fmt fs)"
  by (cases fs) simp_all

lemma filter_kinds_not_Nil: "filter_kinds fmt f \<noteq> []"
  by (cases f) simp_all

lemma p_filter_list_reads:
  assumes "rest p = filters_kinds fmt fs @ ks" and "ks \<noteq> []" and "fs \<noteq> []" and "list_all (filter_ok env fmt) fs"
    and "length fs \<le> n" and "hd ks \<noteq> Punct '',''" and "\<forall>w. hd ks = Word w \<longrightarrow> \<not> eq_ignore_ascii_case w ''AND''"
  shows "yields (p_filter_list n env p) fs ks"
  using assms(1,3-5)
proof (induction fs arbitrary: p n)
  case (Cons f fs)
  obtain m where n: "n = Suc m"
    using Cons.prems(4) by (cases n) auto
  have ok: "filter_ok env fmt f"
    using Cons.prems(3) by simp
  show ?case
  proof (cases "fs = []")
    case True
    then have "yields (p_filter env p) f ks"
      using p_filter_reads [of p fmt f ks env] Cons.prems(1) assms(2) ok by (simp add: filters_kinds_Cons)
    moreover have "yields (if is_word ''AND'' q \<or> is_punct '','' q then r else Ok ([f], q)) [f] ks" if "rest q = ks" for q r
    proof -
      have "rest q = hd ks # tl ks"
        using that assms(2) by simp
      then show ?thesis
        using assms(6,7) that by (auto simp: rest_is_word rest_is_punct yields_Ok split: TokKind.split)
    qed
    ultimately show ?thesis
      unfolding n p_filter_list.simps True by (rule yields_andthen)
  next
    case False
    let ?ks = "Word ''AND'' # filters_kinds fmt fs @ ks"
    have "yields (p_filter env p) f ?ks"
      using p_filter_reads [of p fmt f ?ks env] Cons.prems(1) ok False by (simp add: filters_kinds_Cons)
    moreover have "yields (if is_word ''AND'' q \<or> is_punct '','' q
        then andthen (p_filter_list m env (skip q)) (\<lambda>fs p2. Ok (f # fs, p2)) else Ok ([f], q)) (f # fs) ks" if q: "rest q = ?ks" for q
    proof -
      have "rest (skip q) = filters_kinds fmt fs @ ks"
        using rest_skip [OF q] assms(2) by simp
      then have "yields (p_filter_list m env (skip q)) fs ks"
        using Cons.IH [of "skip q" m] Cons.prems(3,4) False n by simp
      then show ?thesis
        by (auto simp: rest_is_word [OF q] eq_ignore_ascii_case_def intro: yields_andthen yields_Ok)
    qed
    ultimately show ?thesis
      unfolding n p_filter_list.simps by (rule yields_andthen)
  qed
qed simp

lemma trim_matches_absent: "c \<notin> set s \<Longrightarrow> trim_matches c s = s"
proof -
  assume c: "c \<notin> set s"
  then have "dropWhile (\<lambda>x. x = c) s = s" "dropWhile (\<lambda>x. x = c) (rev s) = rev s"
    by (simp_all add: dropWhile_eq_self_iff) (metis hd_in_set set_rev rev_is_Nil_conv)+
  then show ?thesis
    by (simp add: trim_matches_def trim_end_matches_def)
qed

lemma p_order_by_reads:
  assumes "rest p = Word (ob_column ob) # Word (if ob_descending ob then ''DESC'' else ''ASC'') # ks" and "ks \<noteq> []"
    and "word_ok (ob_column ob)"
  shows "yields (p_order_by p) ob ks"
proof -
  have w: "list_all is_word_char (ob_column ob)" "ob_column ob \<noteq> []"
    using assms(3) by (simp_all add: word_ok_def)
  then have "CHR 0x22 \<notin> set (ob_column ob)"
    using word_char_not unfolding list_all_iff by blast
  then have col: "trim_matches CHR 0x22 (ob_column ob) = ob_column ob"
    by (rule trim_matches_absent)
  have al: "list_all (\<lambda>c. is_ascii_alphanumeric c \<or> c = CHR ''_'') (ob_column ob)"
    using w(1) by (simp add: list_all_iff is_word_char_def)
  let ?d = "Word (if ob_descending ob then ''DESC'' else ''ASC'')"
  have r: "rest (skip p) = ?d # ks" "rest (skip (skip p)) = ks"
    using assms(1,2) by (simp_all add: rest_skip)
  show ?thesis
    using w(2) al r(2)
    by (auto simp: p_order_by_def Let_def rest_peek [OF assms(1)] col eat_word_def rest_is_word [OF r(1)]
        eq_ignore_ascii_case_def lower_words yields_def intro!: OrderBy.equality)
qed

section \<open>Statements\<close>

text \<open>The tokens that may follow a written subject, target or list of filters: the end or a clause.\<close>

definition CLAUSES :: "string list" where
  "CLAUSES = [''FOR'', ''SINCE'', ''UNTIL'', ''ORDER'', ''LIMIT'', ''INCLUDING'']"

definition closes :: "TokKind list \<Rightarrow> bool" where
  "closes ks \<longleftrightarrow> (\<exists>k ks'. ks = k # ks' \<and> (k = Eof \<or> (\<exists>w \<in> set CLAUSES. k = Word w)))"

lemma closesD:
  assumes "closes ks"
  shows "ks \<noteq> []" and "hd ks \<noteq> Str v" and "hd ks \<noteq> Punct q"
    and "hd ks = Word w \<Longrightarrow> \<not> eq_ignore_ascii_case w ''AND'' \<and> \<not> eq_ignore_ascii_case w ''BETWEEN''"
  using assms by (auto simp: closes_def CLAUSES_def eq_ignore_ascii_case_def lower_words)

lemma p_show_target_reads:
  assumes "rest p = target_kinds t @ ks" and "closes ks"
  shows "yields (p_show_target p) t ks"
proof -
  note ks = closesD [OF assms(2)]
  have kw: "yields (andthen (expect_word k q) (\<lambda>_ p2. Ok (x, p2))) x ks" if "rest q = Word k # ks"
    for q k and x :: ShowTarget
    by (rule yields_andthen [OF expect_word_reads [OF that ks(1)]]) (simp_all add: eq_ignore_ascii_case_def yields_Ok)
  show ?thesis
  proof (cases t rule: target_kinds.cases)
    case 7
    then have r: "rest (skip p) = hd ks # tl ks"
      using assms(1) rest_skip [of p] ks(1) by simp
    have "\<not> is_word ''BETWEEN'' (skip p)"
      using ks(4) by (auto simp: rest_is_word [OF r] split: TokKind.split)
    then show ?thesis
      using assms(1) 7 r ks(1) by (simp add: p_show_target_def Let_def rest_peek upper_words yields_Ok)
  next
    case (8 a b)
    then have r: "rest p = Word ''HANDOFFS'' # Word ''BETWEEN'' # target_kinds (Handoffs (Some (a, b))) ! 2 #
        Punct ''='' # Str a # Word ''AND'' # Word ''agent'' # Punct ''='' # Str b # ks"
      using assms(1) by simp
    then have r1: "rest (skip p) = Word ''BETWEEN'' # Word ''agent'' # Punct ''='' # Str a # Word ''AND'' # Word ''agent'' # Punct ''='' # Str b # ks"
      and r2: "rest (skip (skip p)) = Word ''agent'' # Punct ''='' # Str a # Word ''AND'' # Word ''agent'' # Punct ''='' # Str b # ks"
      by (simp_all add: rest_skip)
    have "yields (andthen (p_agent_filter (skip (skip p))) (\<lambda>a p2. andthen (expect_word ''AND'' p2) (\<lambda>_ p3.
        andthen (p_agent_filter p3) (\<lambda>b p4. Ok (Handoffs (Some (a, b)), p4))))) (Handoffs (Some (a, b))) ks"
      by (rule yields_andthen [OF p_agent_filter_reads [OF r2]], simp,
          rule yields_andthen [OF expect_word_reads], assumption, simp, simp add: eq_ignore_ascii_case_def,
          rule yields_andthen [OF p_agent_filter_reads], assumption, rule ks(1), erule yields_Ok)
    then show ?thesis
      using 8 by (simp add: p_show_target_def Let_def rest_peek [OF r] rest_is_word [OF r1] upper_words eq_ignore_ascii_case_def)
  next
    case (12 s)
    then have r: "rest p = Word ''EVIDENCE'' # Word ''FOR'' # subject_kinds s @ ks" "rest (skip p) = Word ''FOR'' # subject_kinds s @ ks"
      using assms(1) by (simp_all add: rest_skip)
    have "yields (andthen (expect_word ''FOR'' (skip p)) (\<lambda>_ p2. andthen (p_subject p2) (\<lambda>s p3. Ok (Evidence s, p3)))) (Evidence s) ks"
      by (rule yields_andthen [OF expect_word_reads [OF r(2)]], simp add: ks(1), simp add: eq_ignore_ascii_case_def,
          rule yields_andthen [OF p_subject_reads], assumption, rule ks(1), simp add: ks(2), erule yields_Ok)
    then show ?thesis
      using 12 by (simp add: p_show_target_def Let_def rest_peek [OF r(1)] upper_words)
  qed (use assms(1) ks(1) in \<open>simp_all add: p_show_target_def Let_def rest_peek rest_skip upper_words yields_Ok kw\<close>)
qed

text \<open>From \<open>stmt\<close> the clauses \<open>ks\<close> lead to the statement \<open>s\<close>.\<close>

definition clauses_read :: "QueryEnv \<Rightarrow> ShowStatement \<Rightarrow> TokKind list \<Rightarrow> ShowStatement \<Rightarrow> bool" where
  "clauses_read env stmt ks s \<longleftrightarrow>
     closes ks \<and> (\<forall>n p. length ks \<le> n \<longrightarrow> rest p = ks \<longrightarrow> yields (p_clauses n env stmt p) s [Eof])"

lemma clauses_end: "clauses_read env s [Eof] s"
proof -
  have "yields (p_clauses n env s p) s [Eof]" if "1 \<le> n" and r: "rest p = [Eof]" for n p
    using that(1) by (cases n) (simp_all add: rest_is_word [OF r] at_eof_def rest_peek [OF r] yields_Ok r)
  then show ?thesis
    by (simp add: clauses_read_def closes_def)
qed

text \<open>One clause: its keyword, what it reads, and the update it makes.\<close>

lemma clauses_step:
  assumes "clauses_read env (upd x) ks s" and "w \<in> set CLAUSES" and "xs \<noteq> []"
    and "\<And>p n. rest p = Word w # xs @ ks \<Longrightarrow> rest (skip p) = xs @ ks \<Longrightarrow> length (xs @ ks) \<le> n \<Longrightarrow>
      (\<And>q. rest q = ks \<Longrightarrow> yields (p_clauses n env (upd x) q) s [Eof]) \<Longrightarrow> yields (p_clauses (Suc n) env stmt p) s [Eof]"
  shows "clauses_read env stmt (Word w # xs @ ks) s"
proof -
  have ks: "ks \<noteq> []"
    using assms(1) by (auto simp: clauses_read_def closes_def)
  have "yields (p_clauses n env stmt p) s [Eof]" if n: "length (Word w # xs @ ks) \<le> n" and r: "rest p = Word w # xs @ ks" for n p
  proof -
    obtain m where m: "n = Suc m" "length (xs @ ks) \<le> m"
      using n by (cases n) auto
    show ?thesis
      unfolding m(1)
      using assms(1) m(2) by (intro assms(4) [OF r rest_skip [OF r]]) (auto simp: ks clauses_read_def)
  qed
  then show ?thesis
    using assms(2) by (auto simp: clauses_read_def closes_def)
qed

lemmas clause_tests = p_clauses.simps Let_def rest_is_word eq_ignore_ascii_case_def lower_words TokKind.case

lemma clauses_limit:
  assumes "clauses_read env (stmt\<lparr>sh_limit := Some k\<rparr>) ks s" and "k < 2 ^ 64"
  shows "clauses_read env stmt (Word ''LIMIT'' # [Num (decimal k)] @ ks) s"
proof (rule clauses_step [where upd = "\<lambda>_. stmt\<lparr>sh_limit := Some k\<rparr>", OF assms(1)])
  fix p n
  assume r: "rest p = Word ''LIMIT'' # [Num (decimal k)] @ ks" "rest (skip p) = [Num (decimal k)] @ ks"
    and go: "\<And>q. rest q = ks \<Longrightarrow> yields (p_clauses n env (stmt\<lparr>sh_limit := Some k\<rparr>) q) s [Eof]"
  have "ks \<noteq> []"
    using assms(1) by (auto simp: clauses_read_def closes_def)
  then have "yields (p_integer ''LIMIT'' (skip p)) k ks"
    using p_integer_reads [of "skip p" k ks] r(2) assms(2) by simp
  then show "yields (p_clauses (Suc n) env stmt p) s [Eof]"
    using go by (simp add: clause_tests rest_is_word [OF r(1)]) (rule yields_andthen)
qed (simp_all add: CLAUSES_def)

lemma clauses_read_not_Nil: "clauses_read env stmt ks s \<Longrightarrow> ks \<noteq> []"
  by (auto simp: clauses_read_def closes_def)

lemma clauses_since:
  assumes "clauses_read env (stmt\<lparr>sh_since := Some t\<rparr>) ks s" and "time_ok env fmt t"
  shows "clauses_read env stmt (Word ''SINCE'' # [time_kind fmt t] @ ks) s"
proof (rule clauses_step [where upd = "\<lambda>_. stmt\<lparr>sh_since := Some t\<rparr>", OF assms(1)])
  fix p n
  assume r: "rest p = Word ''SINCE'' # [time_kind fmt t] @ ks" "rest (skip p) = [time_kind fmt t] @ ks"
    and go: "\<And>q. rest q = ks \<Longrightarrow> yields (p_clauses n env (stmt\<lparr>sh_since := Some t\<rparr>) q) s [Eof]"
  have "yields (p_time env (skip p)) t ks"
    using p_time_reads [of "skip p" fmt t ks env] r(2) assms(2) clauses_read_not_Nil [OF assms(1)] by simp
  then show "yields (p_clauses (Suc n) env stmt p) s [Eof]"
    using go by (simp add: clause_tests rest_is_word [OF r(1)]) (rule yields_andthen)
qed (simp_all add: CLAUSES_def)

lemma clauses_until:
  assumes "clauses_read env (stmt\<lparr>sh_until := Some t\<rparr>) ks s" and "time_ok env fmt t"
  shows "clauses_read env stmt (Word ''UNTIL'' # [time_kind fmt t] @ ks) s"
proof (rule clauses_step [where upd = "\<lambda>_. stmt\<lparr>sh_until := Some t\<rparr>", OF assms(1)])
  fix p n
  assume r: "rest p = Word ''UNTIL'' # [time_kind fmt t] @ ks" "rest (skip p) = [time_kind fmt t] @ ks"
    and go: "\<And>q. rest q = ks \<Longrightarrow> yields (p_clauses n env (stmt\<lparr>sh_until := Some t\<rparr>) q) s [Eof]"
  have "yields (p_time env (skip p)) t ks"
    using p_time_reads [of "skip p" fmt t ks env] r(2) assms(2) clauses_read_not_Nil [OF assms(1)] by simp
  then show "yields (p_clauses (Suc n) env stmt p) s [Eof]"
    using go by (simp add: clause_tests rest_is_word [OF r(1)]) (rule yields_andthen)
qed (simp_all add: CLAUSES_def)

lemma clauses_order:
  assumes "clauses_read env (stmt\<lparr>sh_order_by := Some ob\<rparr>) ks s" and "word_ok (ob_column ob)"
  shows "clauses_read env stmt (Word ''ORDER'' # tl (order_kinds ob) @ ks) s"
proof (rule clauses_step [where upd = "\<lambda>_. stmt\<lparr>sh_order_by := Some ob\<rparr>", OF assms(1)])
  fix p n
  assume r: "rest p = Word ''ORDER'' # tl (order_kinds ob) @ ks" "rest (skip p) = tl (order_kinds ob) @ ks"
    and go: "\<And>q. rest q = ks \<Longrightarrow> yields (p_clauses n env (stmt\<lparr>sh_order_by := Some ob\<rparr>) q) s [Eof]"
  have "yields (andthen (expect_word ''BY'' (skip p)) (\<lambda>_ p2. andthen (p_order_by p2) (\<lambda>ob p3.
      p_clauses n env (stmt\<lparr>sh_order_by := Some ob\<rparr>) p3))) s [Eof]"
    by (rule yields_andthen [OF expect_word_reads [where w = "''BY''" and p = "skip p"]], simp add: r(2) order_kinds_def, simp,
        simp add: eq_ignore_ascii_case_def, rule yields_andthen [OF p_order_by_reads [where ob = ob]], assumption,
        rule clauses_read_not_Nil [OF assms(1)], rule assms(2), erule go)
  then show "yields (p_clauses (Suc n) env stmt p) s [Eof]"
    by (simp add: clause_tests rest_is_word [OF r(1)])
qed (simp_all add: CLAUSES_def order_kinds_def)

lemma clauses_including:
  assumes "clauses_read env (stmt\<lparr>sh_including_retracted := True\<rparr>) ks s"
  shows "clauses_read env stmt (Word ''INCLUDING'' # [Word ''RETRACTED''] @ ks) s"
proof (rule clauses_step [where upd = "\<lambda>_. stmt\<lparr>sh_including_retracted := True\<rparr>", OF assms])
  fix p n
  assume r: "rest p = Word ''INCLUDING'' # [Word ''RETRACTED''] @ ks" "rest (skip p) = [Word ''RETRACTED''] @ ks"
    and go: "\<And>q. rest q = ks \<Longrightarrow> yields (p_clauses n env (stmt\<lparr>sh_including_retracted := True\<rparr>) q) s [Eof]"
  have "yields (expect_word ''RETRACTED'' (skip p)) () ks"
    using expect_word_reads [of "skip p" _ ks] r(2) clauses_read_not_Nil [OF assms] by (simp add: eq_ignore_ascii_case_def)
  then show "yields (p_clauses (Suc n) env stmt p) s [Eof]"
    using go by (simp add: clause_tests rest_is_word [OF r(1)]) (rule yields_andthen)
qed (simp_all add: CLAUSES_def)

lemma filters_kinds_length: "length fs \<le> length (filters_kinds fmt fs)"
proof (induction fs)
  case (Cons f fs)
  then show ?case
    using filter_kinds_not_Nil [of fmt f] by (cases "filter_kinds fmt f") (auto simp: filters_kinds_Cons)
qed simp

lemma rest_length: "length (rest p) \<le> length (ps_toks p)"
  by (simp add: rest_def)

lemma clauses_for:
  assumes "clauses_read env (stmt\<lparr>sh_filters := sh_filters stmt @ fs\<rparr>) ks s" and "fs \<noteq> []" and "list_all (filter_ok env fmt) fs"
  shows "clauses_read env stmt (Word ''FOR'' # filters_kinds fmt fs @ ks) s"
proof (rule clauses_step [where upd = "\<lambda>_. stmt\<lparr>sh_filters := sh_filters stmt @ fs\<rparr>", OF assms(1)])
  fix p n
  assume r: "rest p = Word ''FOR'' # filters_kinds fmt fs @ ks" "rest (skip p) = filters_kinds fmt fs @ ks"
    and go: "\<And>q. rest q = ks \<Longrightarrow> yields (p_clauses n env (stmt\<lparr>sh_filters := sh_filters stmt @ fs\<rparr>) q) s [Eof]"
  have "closes ks"
    using assms(1) by (simp add: clauses_read_def)
  moreover have "length fs \<le> length (ps_toks p)"
    using rest_length [of p] filters_kinds_length [of fs fmt] by (simp add: r(1))
  ultimately have "yields (p_filter_list (length (ps_toks p)) env (skip p)) fs ks"
    using p_filter_list_reads [OF r(2) _ assms(2,3)] closesD [of ks] by blast
  then show "yields (p_clauses (Suc n) env stmt p) s [Eof]"
    using go by (simp add: clause_tests rest_is_word [OF r(1)]) (rule yields_andthen)
next
  show "filters_kinds fmt fs \<noteq> []"
    using assms(2) filter_kinds_not_Nil by (cases fs) (simp_all add: filters_kinds_Cons)
qed (simp_all add: CLAUSES_def)

text \<open>The same for a clause that may be missing.\<close>

lemma opt_for:
  assumes "clauses_read env (stmt\<lparr>sh_filters := fs\<rparr>) ks s" and "sh_filters stmt = []" and "list_all (filter_ok env fmt) fs"
  shows "clauses_read env stmt ((if fs = [] then [] else Word ''FOR'' # filters_kinds fmt fs) @ ks) s"
  using assms clauses_for [of env stmt fs ks s fmt] by (cases "fs = []") (cases stmt, simp_all)

lemma opt_since:
  assumes "clauses_read env (stmt\<lparr>sh_since := x\<rparr>) ks s" and "sh_since stmt = None" and "pred_option (time_ok env fmt) x"
  shows "clauses_read env stmt (opt_kinds (\<lambda>t. [Word ''SINCE'', time_kind fmt t]) x @ ks) s"
  using assms clauses_since [where stmt = stmt] by (cases x) (cases stmt, simp_all add: opt_kinds_def)

lemma opt_until:
  assumes "clauses_read env (stmt\<lparr>sh_until := x\<rparr>) ks s" and "sh_until stmt = None" and "pred_option (time_ok env fmt) x"
  shows "clauses_read env stmt (opt_kinds (\<lambda>t. [Word ''UNTIL'', time_kind fmt t]) x @ ks) s"
  using assms clauses_until [where stmt = stmt] by (cases x) (cases stmt, simp_all add: opt_kinds_def)

lemma opt_order:
  assumes "clauses_read env (stmt\<lparr>sh_order_by := x\<rparr>) ks s" and "sh_order_by stmt = None"
    and "pred_option (\<lambda>ob. word_ok (ob_column ob)) x"
  shows "clauses_read env stmt (opt_kinds order_kinds x @ ks) s"
  using assms clauses_order [where stmt = stmt and ks = ks and s = s] by (cases x) (cases stmt, simp_all add: opt_kinds_def order_kinds_def)

lemma opt_limit:
  assumes "clauses_read env (stmt\<lparr>sh_limit := x\<rparr>) ks s" and "sh_limit stmt = None" and "pred_option (\<lambda>k. k < 2 ^ 64) x"
  shows "clauses_read env stmt (opt_kinds (\<lambda>k. [Word ''LIMIT'', Num (decimal k)]) x @ ks) s"
  using assms clauses_limit [where stmt = stmt] by (cases x) (cases stmt, simp_all add: opt_kinds_def)

lemma opt_including:
  assumes "clauses_read env (stmt\<lparr>sh_including_retracted := b\<rparr>) ks s" and "\<not> sh_including_retracted stmt"
  shows "clauses_read env stmt ((if b then [Word ''INCLUDING'', Word ''RETRACTED''] else []) @ ks) s"
  using assms clauses_including [of env stmt ks s] by (cases b) (simp, cases stmt, simp)

lemma clauses_all:
  assumes "show_ok env fmt s"
  shows "clauses_read env (show_default (sh_target s)) (clause_kinds fmt s @ [Eof]) s"
proof -
  note ok = assms [unfolded show_ok_def]
  let ?s = "(show_default (sh_target s))\<lparr>sh_filters := sh_filters s, sh_since := sh_since s, sh_until := sh_until s,
    sh_order_by := sh_order_by s, sh_limit := sh_limit s, sh_including_retracted := sh_including_retracted s\<rparr>"
  have "?s = s"
    using ok by (cases s) (simp add: show_default_def)
  then have "clauses_read env ?s [Eof] s"
    by (simp add: clauses_end)
  then show ?thesis
    unfolding clause_kinds_def append_assoc
    by (intro opt_for opt_since opt_until opt_order opt_limit opt_including) (use ok in \<open>simp_all add: show_default_def\<close>)
qed

lemma p_show_reads:
  assumes "rest p = statement_kinds fmt (Show s) @ [Eof]" and "show_ok env fmt s"
  shows "yields (p_show env p) s [Eof]"
proof -
  let ?ks = "clause_kinds fmt s @ [Eof]"
  have c: "closes ?ks" "\<And>n q. length ?ks \<le> n \<Longrightarrow> rest q = ?ks \<Longrightarrow> yields (p_clauses n env (show_default (sh_target s)) q) s [Eof]"
    using clauses_all [OF assms(2)] by (auto simp: clauses_read_def)
  have len: "length ?ks \<le> length (ps_toks p)"
    using rest_length [of p] by (simp add: assms(1))
  have r: "rest p = Word ''SHOW'' # target_kinds (sh_target s) @ ?ks"
    using assms(1) by simp
  show ?thesis
    unfolding p_show_def
    by (rule yields_andthen [OF expect_word_reads [OF r]], simp, simp add: eq_ignore_ascii_case_def,
        rule yields_andthen [OF p_show_target_reads], assumption, rule c(1), rule c(2) [OF len])
qed

lemma p_why_reads:
  assumes "rest p = statement_kinds fmt (Why s) @ [Eof]" and "to_ascii_uppercase (wy_state s) = wy_state s"
  shows "yields (p_why p) s [Eof]"
proof -
  let ?ks = "[Word ''STATUS'', Word (wy_state s), Eof]"
  have r: "rest p = Word ''WHY'' # subject_kinds (wy_subject s) @ ?ks"
    using assms(1) by simp
  have last: "yields (let p3 = snd (eat_word ''STATUS'' q) in case tok_kind (peek p3) of
      Word st \<Rightarrow> Ok (\<lparr>wy_subject = wy_subject s, wy_state = to_ascii_uppercase st\<rparr>, skip p3) | _ \<Rightarrow> Err (unexpected p3 m)) s [Eof]"
    if q: "rest q = ?ks" for q m
  proof -
    have "rest (skip q) = [Word (wy_state s), Eof]"
      using q by (simp add: rest_skip)
    then show ?thesis
      using assms(2)
      by (simp add: eat_word_def rest_is_word [OF q] eq_ignore_ascii_case_def rest_peek rest_skip yields_def)
  qed
  show ?thesis
    unfolding p_why_def
    by (rule yields_andthen [OF expect_word_reads [OF r]], simp, simp add: eq_ignore_ascii_case_def,
        rule yields_andthen [OF p_subject_reads], assumption, simp, simp, rule last)
qed

lemma p_direction_reads: "rest p = [Word (direction_word d), Eof] \<Longrightarrow> yields (p_direction p) d [Eof]"
  by (cases d) (simp_all add: p_direction_def rest_is_word eq_ignore_ascii_case_def lower_words rest_skip yields_Ok)

lemma p_trace_options_end:
  assumes "rest p = [Word ''DIRECTION'', Word (direction_word d), Eof]" and "2 \<le> n"
  shows "yields (p_trace_options n stmt p) (stmt\<lparr>tr_direction := d\<rparr>) [Eof]"
proof -
  obtain m where n: "n = Suc (Suc m)"
    using le_Suc_ex [OF assms(2)] by auto
  have r: "rest (skip p) = [Word (direction_word d), Eof]"
    using rest_skip [OF assms(1)] by simp
  have "yields (p_trace_options (Suc m) st q) st [Eof]" if q: "rest q = [Eof]" for q st
    by (simp add: rest_is_word [OF q] yields_Ok q)
  then have go: "yields (andthen (p_direction (skip p)) (\<lambda>d p1. p_trace_options (Suc m) (stmt\<lparr>tr_direction := d\<rparr>) p1))
      (stmt\<lparr>tr_direction := d\<rparr>) [Eof]"
    by (intro yields_andthen [OF p_direction_reads [OF r]])
  have "is_word ''DEPTH'' p = False" "is_word ''DIRECTION'' p = True"
    by (simp_all add: rest_is_word [OF assms(1)] eq_ignore_ascii_case_def lower_words)
  then show ?thesis
    unfolding n p_trace_options.simps(2) [of "Suc m"] using go by (simp only: if_True if_False)
qed

lemma p_trace_options_reads:
  assumes "rest p = opt_kinds (\<lambda>k. [Word ''DEPTH'', Num (decimal k)]) x @ [Word ''DIRECTION'', Word (direction_word d), Eof]"
    and "pred_option (\<lambda>k. k < 2 ^ 64) x" and "3 \<le> n"
  shows "yields (p_trace_options n \<lparr>tr_subject = s, tr_depth = None, tr_direction = Up\<rparr> p)
    \<lparr>tr_subject = s, tr_depth = x, tr_direction = d\<rparr> [Eof]"
proof (cases x)
  case None
  then show ?thesis
    using p_trace_options_end [of p d n "\<lparr>tr_subject = s, tr_depth = None, tr_direction = Up\<rparr>"] assms by (simp add: opt_kinds_def)
next
  case (Some k)
  obtain m where n: "n = Suc m" "2 \<le> m"
    using assms(3) by (cases n) auto
  let ?ks = "[Word ''DIRECTION'', Word (direction_word d), Eof]"
  have r: "rest p = Word ''DEPTH'' # Num (decimal k) # ?ks" "rest (skip p) = Num (decimal k) # ?ks"
    using assms(1) rest_skip [of p] Some by (simp_all add: opt_kinds_def)
  have "yields (p_integer ''DEPTH'' (skip p)) k ?ks"
    using p_integer_reads [OF r(2)] assms(2) Some by simp
  moreover have "yields (p_trace_options m (\<lparr>tr_subject = s, tr_depth = None, tr_direction = Up\<rparr>\<lparr>tr_depth := Some k\<rparr>) q)
      \<lparr>tr_subject = s, tr_depth = Some k, tr_direction = d\<rparr> [Eof]" if "rest q = ?ks" for q
    using p_trace_options_end [OF that n(2), of "\<lparr>tr_subject = s, tr_depth = Some k, tr_direction = Up\<rparr>"] by simp
  ultimately have "yields (andthen (p_integer ''DEPTH'' (skip p)) (\<lambda>k p1. p_trace_options m
      (\<lparr>tr_subject = s, tr_depth = None, tr_direction = Up\<rparr>\<lparr>tr_depth := Some k\<rparr>) p1))
      \<lparr>tr_subject = s, tr_depth = Some k, tr_direction = d\<rparr> [Eof]"
    by (rule yields_andthen)
  then show ?thesis
    by (simp add: n(1) Some rest_is_word [OF r(1)] eq_ignore_ascii_case_def)
qed

lemma p_trace_reads:
  assumes "rest p = statement_kinds fmt (Trace s) @ [Eof]" and "pred_option (\<lambda>k. k < 2 ^ 64) (tr_depth s)"
  shows "yields (p_trace p) s [Eof]"
proof -
  let ?ks = "opt_kinds (\<lambda>k. [Word ''DEPTH'', Num (decimal k)]) (tr_depth s) @ [Word ''DIRECTION'', Word (direction_word (tr_direction s)), Eof]"
  have r: "rest p = Word ''TRACE'' # subject_kinds (tr_subject s) @ Word ''CAUSES'' # ?ks"
    using assms(1) by simp
  have len: "3 \<le> length (ps_toks p)"
    using rest_length [of p] by (simp add: r)
  have s: "s = \<lparr>tr_subject = tr_subject s, tr_depth = tr_depth s, tr_direction = tr_direction s\<rparr>"
    by simp
  show ?thesis
    unfolding p_trace_def
    by (rule yields_andthen [OF expect_word_reads [OF r]], simp, simp add: eq_ignore_ascii_case_def,
        rule yields_andthen [OF p_subject_reads], assumption, simp, simp,
        rule yields_andthen [OF expect_word_reads], assumption, simp, simp add: eq_ignore_ascii_case_def,
        subst s, rule p_trace_options_reads [OF _ assms(2) len], assumption)
qed

lemma p_state_reads:
  assumes "rest p = statement_kinds fmt (State s) @ [Eof]" and "time_ok env fmt (st_at s)"
  shows "yields (p_state env p) s [Eof]"
proof -
  have r: "rest p = Word ''STATE'' # subject_kinds (st_subject s) @ [Word ''AT'', time_kind fmt (st_at s), Eof]"
    using assms(1) by simp
  have last: "yields (if is_word ''AS'' q then x else Ok (\<lparr>st_subject = st_subject s, st_at = st_at s\<rparr>, q)) s [Eof]"
    if "rest q = [Eof]" for q x
    by (simp add: rest_is_word [OF that] yields_def that)
  show ?thesis
    unfolding p_state_def
    by (rule yields_andthen [OF expect_word_reads [OF r]], simp, simp add: eq_ignore_ascii_case_def,
        rule yields_andthen [OF p_subject_reads], assumption, simp, simp,
        rule yields_andthen [OF expect_word_reads], assumption, simp, simp add: eq_ignore_ascii_case_def,
        rule yields_andthen [OF p_time_reads], assumption, simp, rule assms(2), erule last)
qed

lemma p_what_is_reads:
  assumes "rest p = statement_kinds fmt (WhatIs s) @ [Eof]"
  shows "yields (p_what_is p) s [Eof]"
proof -
  have r: "rest p = Word ''WHAT'' # Word ''IS'' # subject_kinds (wi_subject s) @ [Word ''DOING'', Word ''NOW'', Eof]"
    using assms by simp
  show ?thesis
    unfolding p_what_is_def
    by (rule yields_andthen [OF expect_word_reads [OF r]], simp, simp add: eq_ignore_ascii_case_def,
        rule yields_andthen [OF expect_word_reads], assumption, simp, simp add: eq_ignore_ascii_case_def,
        rule yields_andthen [OF p_subject_reads], assumption, simp, simp,
        rule yields_andthen [OF expect_word_reads], assumption, simp, simp add: eq_ignore_ascii_case_def,
        rule yields_andthen [OF expect_word_reads], assumption, simp, simp add: eq_ignore_ascii_case_def,
        simp add: yields_def)
qed

definition value_kind :: "TokKind \<Rightarrow> bool" where
  "value_kind k \<longleftrightarrow> (case k of Str _ \<Rightarrow> True | Word _ \<Rightarrow> True | Num _ \<Rightarrow> True | Relative _ \<Rightarrow> True | _ \<Rightarrow> False)"

lemma remaining_values_rest:
  "remaining_values p = length (filter value_kind (takeWhile (\<lambda>k. k \<noteq> Eof \<and> k \<noteq> Punct '';'') (rest p)))"
  unfolding remaining_values_def rest_def takeWhile_map filter_map length_map by (simp add: comp_def value_kind_def)

lemma time_kind_value: "value_kind (time_kind fmt t)" "value_kind (Str v)"
  by (cases t) (simp_all add: value_kind_def)

lemma time_kind_no_subject:
  assumes "rest p = time_kind fmt t # ks"
  shows "\<not> is_word ''project'' p" and "\<not> starts_subject p"
  by (cases t; simp add: rest_is_word [OF assms] starts_subject_def rest_peek [OF assms] eq_ignore_ascii_case_def lower_words)+

lemma subject_words:
  assumes "\<forall>x. s \<noteq> SubjectProject x" and "\<forall>v. s \<noteq> SubjectId v"
  obtains w v where "subject_kinds s = [Word w, Str v]"
    and "w \<in> {''session'', ''attempt'', ''turn'', ''span'', ''event'', ''agent'', ''work_unit''}"
  using assms by (cases s rule: subject_kinds.cases) auto

lemma p_diff_project_reads:
  assumes "rest p = subject_kinds (SubjectProject y) @ [time_kind fmt a, time_kind fmt b, Eof]"
  shows "yields (p_diff_subject p) (Some (SubjectProject y)) [time_kind fmt a, time_kind fmt b, Eof]"
proof (cases y)
  case None
  let ?ks = "[time_kind fmt a, time_kind fmt b, Eof]"
  have r: "rest p = Word ''project'' # ?ks"
    using assms None by simp
  have r1: "rest (skip p) = ?ks"
    using rest_skip [OF r] by simp
  have "remaining_values (skip p) = 2"
    unfolding remaining_values_rest r1 by (simp add: time_kind_value time_kind_not)
  moreover have "is_word ''project'' p"
    by (simp add: rest_is_word [OF r] eq_ignore_ascii_case_def)
  ultimately have "p_diff_subject p = Ok (Some (SubjectProject None), skip p)"
    unfolding p_diff_subject_def Let_def by (simp split: TokKind.split)
  then show ?thesis
    using r1 None by (simp add: yields_def)
next
  case (Some v)
  let ?ks = "[time_kind fmt a, time_kind fmt b, Eof]"
  have r: "rest p = Word ''project'' # Str v # ?ks"
    using assms Some by simp
  have r1: "rest (skip p) = Str v # ?ks"
    using rest_skip [OF r] by simp
  have "remaining_values (skip p) = 3"
    unfolding remaining_values_rest r1 by (simp add: time_kind_value time_kind_not)
  moreover have "is_word ''project'' p"
    by (simp add: rest_is_word [OF r] eq_ignore_ascii_case_def)
  ultimately have "p_diff_subject p = Ok (Some (SubjectProject (Some v)), skip (skip p))"
    unfolding p_diff_subject_def Let_def by (simp add: rest_peek [OF r1])
  then show ?thesis
    using rest_skip [OF r1] Some by (simp add: yields_def)
qed

lemma p_diff_other_reads:
  assumes "rest p = subject_kinds s @ [time_kind fmt a, time_kind fmt b, Eof]"
    and "\<forall>x. s \<noteq> SubjectProject x" and "\<forall>v. s \<noteq> SubjectId v"
  shows "yields (p_diff_subject p) (Some s) [time_kind fmt a, time_kind fmt b, Eof]"
proof -
  obtain w v where w: "subject_kinds s = [Word w, Str v]"
    "w \<in> {''session'', ''attempt'', ''turn'', ''span'', ''event'', ''agent'', ''work_unit''}"
    by (rule subject_words [OF assms(2,3)])
  have r: "rest p = Word w # Str v # [time_kind fmt a, time_kind fmt b, Eof]"
    using assms(1) w(1) by simp
  have "to_ascii_lowercase w = w \<and> \<not> is_reserved w \<and> w \<notin> {''project'', ''now'', ''today'', ''yesterday''}"
    using w(2) by (simp only: insert_iff empty_iff) (elim disjE; simp add: lower_words not_reserved)
  then have "is_word ''project'' p = False" "starts_subject p = True"
    by (simp_all add: rest_is_word [OF r] starts_subject_def rest_peek [OF r] eq_ignore_ascii_case_def lower_words)
  moreover have "yields (p_subject p) s [time_kind fmt a, time_kind fmt b, Eof]"
    using assms by (intro p_subject_reads) simp_all
  then have "yields (andthen (p_subject p) (\<lambda>s p1. Ok (Some s, p1))) (Some s) [time_kind fmt a, time_kind fmt b, Eof]"
    by (rule yields_andthen) (rule yields_Ok)
  ultimately show ?thesis
    unfolding p_diff_subject_def by (simp only: if_True if_False)
qed

lemma p_diff_subject_reads:
  assumes "rest p = opt_kinds subject_kinds x @ [time_kind fmt a, time_kind fmt b, Eof]" and "\<forall>v. x \<noteq> Some (SubjectId v)"
  shows "yields (p_diff_subject p) x [time_kind fmt a, time_kind fmt b, Eof]"
proof (cases x)
  case None
  then show ?thesis
    using assms(1) time_kind_no_subject [of p fmt a] by (simp add: opt_kinds_def p_diff_subject_def yields_Ok)
next
  case (Some s)
  then have r: "rest p = subject_kinds s @ [time_kind fmt a, time_kind fmt b, Eof]" and "\<forall>v. s \<noteq> SubjectId v"
    using assms by (simp_all add: opt_kinds_def)
  then show ?thesis
    using p_diff_project_reads [of p _ fmt a b] p_diff_other_reads [OF r] Some by (cases "\<exists>y. s = SubjectProject y") auto
qed

lemma p_diff_reads:
  assumes "rest p = statement_kinds fmt (Diff s) @ [Eof]" and "statement_ok env fmt (Diff s)"
  shows "yields (p_diff env p) s [Eof]"
proof -
  let ?ks = "[time_kind fmt (df_from s), time_kind fmt (df_to s), Eof]"
  have r: "rest p = Word ''DIFF'' # Word ''STATE'' # opt_kinds subject_kinds (df_subject s) @ ?ks"
    using assms(1) by simp
  have ok: "time_ok env fmt (df_from s)" "time_ok env fmt (df_to s)" "\<forall>v. df_subject s \<noteq> Some (SubjectId v)"
    using assms(2) by simp_all
  show ?thesis
    unfolding p_diff_def
    by (rule yields_andthen [OF expect_word_reads [OF r]], simp, simp add: eq_ignore_ascii_case_def,
        rule yields_andthen [OF expect_word_reads], assumption, simp, simp add: eq_ignore_ascii_case_def,
        rule yields_andthen [OF p_diff_subject_reads], assumption, rule ok(3),
        rule yields_andthen [OF p_time_reads], assumption, simp, rule ok(1),
        rule yields_andthen [OF p_time_reads], assumption, simp, rule ok(2), simp add: yields_def)
qed

text \<open>The first word of a statement chooses the production.\<close>

lemma p_statement_reads:
  assumes "rest p = statement_kinds fmt s @ [Eof]" and "statement_ok env fmt s"
  shows "yields (p_statement env p) s [Eof]"
proof -
  have ret: "yields (andthen r (\<lambda>s p1. Ok (f s, p1))) (f x) [Eof]" if "yields r x [Eof]" for r x and f :: "'s \<Rightarrow> Statement"
    using that by (auto intro: yields_andthen yields_Ok)
  show ?thesis
    using assms
    by (cases s)
      (simp_all add: p_statement_def rest_peek upper_words ret p_show_reads p_why_reads p_trace_reads p_state_reads
        p_diff_reads p_what_is_reads)
qed

section \<open>From text to statement\<close>

lemmas words_ok = WORDS_ok [unfolded WORDS_def RESERVED_def append.simps list.pred_inject]

lemma writable_decimal: "writable (Num (decimal k))"
  using decimal_digits [of k] by (simp add: list_all_iff)

lemma writable_time: "time_ok env fmt t \<Longrightarrow> writable (time_kind fmt t)"
proof (cases t)
  case (RelativeTime n u)
  moreover assume "time_ok env fmt t"
  ultimately have "describe fmt (RelativeTime n u) = CHR ''-'' # decimal (nat n) @ [u]" "is_unit u"
    by (simp_all add: describe_amount_def)
  then show ?thesis
    unfolding RelativeTime time_kind.simps writable.simps
    using decimal_digits [of "nat n"]
    by (intro exI [of _ "decimal (nat n)"] exI [of _ u]) (simp add: list_all_iff is_unit_def)
qed (simp_all add: word_ok_writable words_ok del: writable.simps(1))

lemmas write_simps = word_ok_writable words_ok writable_decimal opt_kinds_def ONE_CHAR_def

lemma writable_subject: "list_all writable (subject_kinds s)"
  by (cases s rule: subject_kinds.cases) (simp_all add: write_simps del: writable.simps(1,3))

lemma writable_target: "list_all writable (target_kinds t)"
  by (cases t rule: target_kinds.cases) (simp_all add: write_simps writable_subject del: writable.simps(1,3))

lemma writable_filter: "filter_ok env fmt f \<Longrightarrow> list_all writable (filter_kinds fmt f)"
  by (cases f) (simp_all add: write_simps writable_time del: writable.simps(1,3))

lemma writable_filters: "list_all (filter_ok env fmt) fs \<Longrightarrow> list_all writable (filters_kinds fmt fs)"
  by (induction fs) (auto simp: filters_kinds_Cons write_simps intro: writable_filter simp del: writable.simps(1,3))

lemma writable_clauses: "show_ok env fmt s \<Longrightarrow> list_all writable (clause_kinds fmt s)"
  by (auto simp: show_ok_def clause_kinds_def order_kinds_def write_simps writable_time writable_filters
      simp del: writable.simps(1,3) split: option.split)

lemma writable_statement: "statement_ok env fmt s \<Longrightarrow> list_all writable (statement_kinds fmt s)"
proof (cases s)
  case (Trace t)
  then show ?thesis
    by (cases "tr_direction t") (auto simp: write_simps writable_subject simp del: writable.simps(1,3) split: option.split)
next
  case (Diff d)
  moreover assume "statement_ok env fmt s"
  ultimately show ?thesis
    by (auto simp: write_simps writable_subject writable_time simp del: writable.simps(1,3) split: option.split)
qed (auto simp: write_simps writable_subject writable_target writable_clauses writable_time simp del: writable.simps(1,3))

lemma statement_kinds_first:
  assumes "statement_ok env fmt s"
  obtains w ks where "statement_kinds fmt s = Word w # ks" and "\<not> eq_ignore_ascii_case w ''EXPLAIN''"
  using assms by (cases s) (auto simp: eq_ignore_ascii_case_def lower_words)

lemma parse_tokens_reads:
  assumes "statement_ok env fmt s" and "map tok_kind toks = (if x then [Word ''EXPLAIN''] else []) @ statement_kinds fmt s @ [Eof]"
  shows "parse_tokens env txt toks = Ok (if x then Explain s else s)"
proof -
  let ?p = "\<lparr>ps_text = txt, ps_toks = toks, ps_pos = 0\<rparr>"
  have r: "rest ?p = (if x then [Word ''EXPLAIN''] else []) @ statement_kinds fmt s @ [Eof]"
    using assms(2) by (simp add: rest_def)
  obtain w ks where w: "statement_kinds fmt s = Word w # ks" "\<not> eq_ignore_ascii_case w ''EXPLAIN''"
    by (rule statement_kinds_first [OF assms(1)])
  have "at_eof ?p = False"
    using r w(1) by (cases x) (simp_all add: at_eof_def rest_peek)
  moreover obtain p1 where p1: "eat_word ''EXPLAIN'' ?p = (x, p1)" "rest p1 = statement_kinds fmt s @ [Eof]"
    using r w rest_skip [of ?p "Word ''EXPLAIN''"]
    by (cases x) (auto simp: eat_word_def rest_is_word eq_ignore_ascii_case_def)
  moreover obtain q where q: "p_statement env p1 = Ok (s, q)" "rest q = [Eof]"
    using p_statement_reads [OF p1(2) assms(1)] by (auto simp: yields_def)
  moreover have "snd (eat_punct '';'' q) = q" "at_eof q"
    using q(2) by (simp_all add: eat_punct_def rest_is_punct at_eof_def rest_peek)
  ultimately show ?thesis
    by (simp add: parse_tokens_def)
qed

section \<open>Theorems\<close>



end
