(* ===== verification/Distance.thy ===== *)
theory Distance
  imports AttemptQl
begin

text \<open>
  The distance behind the suggestion for a mistyped verb (\<open>edit_distance\<close> and \<open>closest_keyword\<close> of
  \<open>attemptdb-query/src/attemptql/mod.rs\<close>): the rolling row of the code computes the recursive distance, and
  that is the least number of single-character edits.
\<close>

section \<open>The table\<close>

fun lev :: "'a list \<Rightarrow> 'a list \<Rightarrow> nat" where
  "lev [] ys = length ys"
| "lev xs [] = length xs"
| "lev (x # xs) (y # ys) =
     min (min (lev xs ys + (if x \<noteq> y then 1 else 0)) (lev (x # xs) ys + 1)) (lev xs (y # ys) + 1)"

text \<open>The values of \<open>f\<close> at the growing (reversed) prefixes of \<open>bs\<close> after \<open>q\<close>.\<close>

fun cols :: "('a list \<Rightarrow> nat) \<Rightarrow> 'a list \<Rightarrow> 'a list \<Rightarrow> nat list" where
  "cols f q [] = []"
| "cols f q (c # bs) = f (c # q) # cols f (c # q) bs"

lemma lev_Nil2 [simp]: "lev xs [] = length xs"
  by (cases xs) simp_all

lemma edit_row_cols: "edit_row ca (lev p q) (lev (ca # p) q) bs (cols (lev p) q bs) = cols (lev (ca # p)) q bs"
proof (induction bs arbitrary: q)
  case (Cons c bs)
  have "edit_row ca (lev p q) (lev (ca # p) q) (c # bs) (cols (lev p) q (c # bs)) =
      lev (ca # p) (c # q) # edit_row ca (lev p (c # q)) (lev (ca # p) (c # q)) bs (cols (lev p) (c # q) bs)"
    by (simp only: edit_row.simps cols.simps Let_def lev.simps)
  then show ?case
    by (simp only: Cons.IH cols.simps)
qed simp

lemma edit_rows_cols:
  "length p = i \<Longrightarrow> edit_rows i as b (lev p [] # cols (lev p) [] b) = lev (rev as @ p) [] # cols (lev (rev as @ p)) [] b"
proof (induction as arbitrary: i p)
  case (Cons ca as)
  then show ?case
    using edit_row_cols [of ca p "[]" b] Cons.IH [of "ca # p" "Suc i"] by simp
qed simp

lemma cols_length: "cols length q b = [Suc (length q) ..< Suc (length q + length b)]"
proof (induction b arbitrary: q)
  case (Cons c b)
  have "[Suc (length q) ..< Suc (length q + length (c # b))] = Suc (length q) # [Suc (Suc (length q)) ..< Suc (length q + length (c # b))]"
    by (rule upt_conv_Cons) simp
  then show ?case
    by (simp only: cols.simps Cons.IH list.size) simp
qed simp

lemma cols_last: "(f q # cols f q b) ! length b = f (rev b @ q)"
  by (induction b arbitrary: q) simp_all

lemma lev_Nil: "lev [] = length"
  by (rule ext) simp

lemma edit_distance_lev: "edit_distance a b = lev (rev (chars a)) (rev (chars b))"
proof -
  have "[0 ..< Suc (length (chars b))] = lev [] [] # cols (lev []) [] (chars b)"
    unfolding lev_Nil cols_length using upt_conv_Cons [of 0 "Suc (length (chars b))"] by simp
  then show ?thesis
    using edit_rows_cols [of "[]" 0 "chars a" "chars b"] cols_last [of "lev (rev (chars a))" "[]" "chars b"]
    by (simp add: edit_distance_def Let_def)
qed

section \<open>Edits\<close>

inductive edit1 :: "'a list \<Rightarrow> 'a list \<Rightarrow> bool" where
  insert_char: "edit1 (u @ v) (u @ y # v)"
| delete_char: "edit1 (u @ x # v) (u @ v)"
| replace_char: "edit1 (u @ x # v) (u @ y # v)"

lemma edit1_Cons: "edit1 xs ys \<Longrightarrow> edit1 (c # xs) (c # ys)"
  by (erule edit1.cases) (metis append_Cons edit1.intros)+

lemma edit1_rev: "edit1 xs ys \<Longrightarrow> edit1 (rev xs) (rev ys)"
proof (induction rule: edit1.induct)
  case (insert_char u v y)
  then show ?case
    using edit1.insert_char [of "rev v" "rev u" y] by simp
next
  case (delete_char u x v)
  then show ?case
    using edit1.delete_char [of "rev v" x "rev u"] by simp
next
  case (replace_char u x v y)
  then show ?case
    using edit1.replace_char [of "rev v" x "rev u" y] by simp
qed

lemma edits_map:
  assumes "(edit1 ^^ n) xs ys" and "\<And>xs ys. edit1 xs ys \<Longrightarrow> edit1 (g xs) (g ys)"
  shows "(edit1 ^^ n) (g xs) (g ys)"
  using assms(1)
proof (induction n arbitrary: ys)
  case (Suc n)
  then show ?case
    using assms(2) by (auto intro!: relcomppI)
qed simp

lemma edits_rev: "(edit1 ^^ n) xs ys \<Longrightarrow> (edit1 ^^ n) (rev xs) (rev ys)"
  by (erule edits_map) (rule edit1_rev)

lemma edits_Cons: "(edit1 ^^ n) xs ys \<Longrightarrow> (edit1 ^^ n) (c # xs) (c # ys)"
  by (erule edits_map) (rule edit1_Cons)

lemma edits_first: "edit1 xs ys \<Longrightarrow> (edit1 ^^ n) ys zs \<Longrightarrow> (edit1 ^^ Suc n) xs zs"
  by (rule relpowp_Suc_I2)

lemma min_three: "P a \<Longrightarrow> P b \<Longrightarrow> P c \<Longrightarrow> P (min (min a b) (c :: nat))"
  by (simp add: min_def)

lemma edits_lev: "(edit1 ^^ lev xs ys) xs ys"
proof (induction xs ys rule: lev.induct)
  case (1 ys)
  have "(edit1 ^^ length zs) [] zs" for zs :: "'a list"
  proof (induction zs)
    case (Cons z zs)
    then show ?case
      using relpowp_Suc_I [OF Cons.IH] insert_char [of "[]" zs z] by simp
  qed simp
  then show ?case
    by simp
next
  case (2 x xs)
  have "(edit1 ^^ length zs) zs []" for zs :: "'a list"
  proof (induction zs)
    case (Cons z zs)
    then show ?case
      using edits_first [OF delete_char [of "[]" z zs]] by simp
  qed simp
  from this [of "x # xs"] show ?case
    by (simp only: lev.simps)
next
  case (3 x xs y ys)
  have del: "(edit1 ^^ Suc (lev xs (y # ys))) (x # xs) (y # ys)"
    using edits_first [OF delete_char [of "[]" x xs]] 3 by simp
  have ins: "(edit1 ^^ Suc (lev (x # xs) ys)) (x # xs) (y # ys)"
    using relpowp_Suc_I [OF "3.IH"(2)] insert_char [of "[]" ys y] by simp
  have rep: "(edit1 ^^ (lev xs ys + (if x \<noteq> y then 1 else 0))) (x # xs) (y # ys)"
  proof (cases "x = y")
    case True
    then show ?thesis
      using edits_Cons [OF "3.IH"(1)] by simp
  next
    case False
    then show ?thesis
      using edits_first [OF replace_char [of "[]" x xs y]] edits_Cons [OF "3.IH"(1), of y] by simp
  qed
  show ?case
    unfolding lev.simps Suc_eq_plus1 [symmetric]
    by (rule min_three [where P = "\<lambda>n. (edit1 ^^ n) (x # xs) (y # ys)", OF rep ins del])
qed

section \<open>No shorter way\<close>

lemma lev_insert: "lev xs (z # zs) \<le> Suc (lev xs zs)"
  by (cases xs) simp_all

lemma lev_delete: "lev (x # xs) zs \<le> Suc (lev xs zs)"
  by (cases zs) simp_all

lemma lev_grow: "lev xs zs \<le> Suc (lev (x # xs) zs)"
proof (induction zs)
  case (Cons z zs)
  then show ?case
    using lev_insert [of xs z zs] by simp
qed simp

lemma lev_replace: "lev (x # v) zs \<le> Suc (lev (y # v) zs)"
  by (induction zs) auto

lemma lev_Cons:
  assumes "\<And>zs. lev xs zs \<le> Suc (lev ys zs)"
  shows "lev (c # xs) zs \<le> Suc (lev (c # ys) zs)"
proof (induction zs)
  case Nil
  then show ?case
    using assms [of "[]"] by simp
next
  case (Cons z zs)
  then show ?case
    using assms [of zs] assms [of "z # zs"] by auto
qed

lemma lev_context: "(\<And>zs. lev xs zs \<le> Suc (lev ys zs)) \<Longrightarrow> lev (u @ xs) zs \<le> Suc (lev (u @ ys) zs)"
  by (induction u arbitrary: zs) (simp_all add: lev_Cons)

lemma lev_edit1: "edit1 xs ys \<Longrightarrow> lev xs zs \<le> Suc (lev ys zs)"
  by (erule edit1.cases) (auto intro!: lev_context lev_grow lev_delete lev_replace)

lemma lev_same: "lev xs xs = 0"
  by (induction xs) simp_all

lemma lev_least: "(edit1 ^^ n) xs ys \<Longrightarrow> lev xs ys \<le> n"
proof (induction n arbitrary: xs)
  case (Suc n)
  then obtain zs where "edit1 xs zs" "(edit1 ^^ n) zs ys"
    by (meson relpowp_Suc_D2)
  then show ?case
    using lev_edit1 [of xs zs ys] Suc.IH [of zs] by simp
qed (simp add: lev_same)

section \<open>Theorems\<close>

text \<open>
  C35: the edit distance is what its comment says. The one-row computation returns the least number of
  insertions, deletions and replacements of a character that turn one word into the other: that many
  edits are enough and fewer never are.
\<close>

theorem edit_distance_least:
  "(edit1 ^^ edit_distance a b) (chars a) (chars b) \<and> (\<forall>n < edit_distance a b. \<not> (edit1 ^^ n) (chars a) (chars b))"
proof (intro conjI allI impI notI)
  show "(edit1 ^^ edit_distance a b) (chars a) (chars b)"
    using edits_rev [OF edits_lev [of "rev (chars a)" "rev (chars b)"]] by (simp add: edit_distance_lev)
next
  fix n
  assume n: "n < edit_distance a b" and e: "(edit1 ^^ n) (chars a) (chars b)"
  show False
    using lev_least [OF edits_rev [OF e]] n by (simp add: edit_distance_lev)
qed

theorem edit_distance_least_witness:
  "edit_distance ''SHOWW'' ''SHOW'' = 1 \<and> (edit1 ^^ 1) (chars ''SHOWW'') (chars ''SHOW'') \<and>
   \<not> (edit1 ^^ 0) (chars ''SHOWW'') (chars ''SHOW'')"
proof -
  have "edit_distance ''SHOWW'' ''SHOW'' = 1"
    by code_simp
  then show ?thesis
    using edit_distance_least [of "''SHOWW''" "''SHOW''"] by (metis less_one)
qed

end
