(* ===== verification/Model.thy ===== *)
theory Model
  imports Event Paths Clock
begin

text \<open>
  The entities a projection derives from events (\<open>attemptdb-project/src/model.rs\<close>, \<open>approach.rs\<close>,
  \<open>order.rs\<close>, \<open>liveness.rs\<close>): tool calls, turns, attempts, handoffs, causal edges and signals, the summary of an
  approach, the order of the stream and the liveness of a session. A confidence is one of the program's
  decimal constants or the least of several; it is kept in hundredths, which preserves their order.
\<close>

section \<open>Identifiers and grades\<close>

type_synonym TurnId = uuid
type_synonym AttemptId = uuid
type_synonym WorkUnitId = uuid
type_synonym Confidence = nat

definition nil_id :: uuid where
  "nil_id = 0"

datatype CoverageGrade = CoverageFull | CoveragePartial | CoverageMinimal | CoverageUnknown

fun CoverageGrade_as_str :: "CoverageGrade \<Rightarrow> string" where
  "CoverageGrade_as_str CoverageFull = ''full''"
| "CoverageGrade_as_str CoveragePartial = ''partial''"
| "CoverageGrade_as_str CoverageMinimal = ''minimal''"
| "CoverageGrade_as_str CoverageUnknown = ''unknown''"

datatype SessionStatus = SessionOpen | SessionStale | SessionClosed

fun SessionStatus_as_str :: "SessionStatus \<Rightarrow> string" where
  "SessionStatus_as_str SessionOpen = ''open''"
| "SessionStatus_as_str SessionStale = ''stale''"
| "SessionStatus_as_str SessionClosed = ''closed''"

record Session =
  ss_session_id :: SessionId
  ss_provider :: Provider
  ss_provider_session_id :: string
  ss_project_id :: ProjectId
  ss_project_name :: string
  ss_started_at :: Timestamp
  ss_ended_at :: "Timestamp option"
  ss_end_reason :: "string option"
  ss_start_source :: "string option"
  ss_event_count :: nat
  ss_turn_count :: nat
  ss_prompt_count :: nat
  ss_tool_call_count :: nat
  ss_failure_count :: nat
  ss_agents :: "AgentId list"
  ss_coverage :: CoverageGrade
  ss_first_event_id :: EventId
  ss_last_event_id :: EventId
  ss_last_event_at :: Timestamp
  ss_start_event_id :: "EventId option"
  ss_end_event_id :: "EventId option"
  ss_state :: SessionStatus
  ss_last_activity_at :: Timestamp

definition Session_confidence :: "Session \<Rightarrow> Confidence" where
  "Session_confidence s =
     (let by_coverage = (case ss_coverage s of
            CoverageFull \<Rightarrow> 100 | CoveragePartial \<Rightarrow> 80 | CoverageMinimal \<Rightarrow> 60 | CoverageUnknown \<Rightarrow> 40)
      in if ss_state s = SessionStale then min by_coverage 70 else by_coverage)"

datatype TurnStatus = TurnCompleted | TurnHasFailed | TurnInProgress | TurnUnknown

fun TurnStatus_as_str :: "TurnStatus \<Rightarrow> string" where
  "TurnStatus_as_str TurnCompleted = ''completed''"
| "TurnStatus_as_str TurnHasFailed = ''failed''"
| "TurnStatus_as_str TurnInProgress = ''in_progress''"
| "TurnStatus_as_str TurnUnknown = ''unknown''"

datatype CorrectionType = AttemptOutcomeCorrection | AttemptNoteCorrection | TurnObjectiveCorrection

record CorrectionRef =
  cr_event_id :: EventId
  cr_at :: Timestamp
  cr_correction_type :: CorrectionType

record Turn =
  tu_turn_id :: TurnId
  tu_session_id :: SessionId
  tu_index :: nat
  tu_started_at :: Timestamp
  tu_ended_at :: "Timestamp option"
  tu_prompt_event_id :: "EventId option"
  tu_stop_event_id :: "EventId option"
  tu_status :: TurnStatus
  tu_tool_call_ids :: "SpanId list"
  tu_objective :: "string option"
  tu_prompt_chars :: "nat option"
  tu_first_event_id :: EventId
  tu_last_event_id :: EventId
  tu_corrected :: "CorrectionRef option"
  tu_inferred_objective :: "string option"

section \<open>Tool calls and attempts\<close>

datatype ToolPairing = CallIdPairing | FifoPairing | EndOnlyPairing | InFlightPairing

fun ToolPairing_as_str :: "ToolPairing \<Rightarrow> string" where
  "ToolPairing_as_str CallIdPairing = ''call_id''"
| "ToolPairing_as_str FifoPairing = ''fifo''"
| "ToolPairing_as_str EndOnlyPairing = ''end_only''"
| "ToolPairing_as_str InFlightPairing = ''in_flight''"

record ToolCall =
  tc_tool_call_id :: SpanId
  tc_session_id :: SessionId
  tc_turn_id :: "TurnId option"
  tc_agent_id :: AgentId
  tc_tool :: ToolRef
  tc_started_at :: "Timestamp option"
  tc_finished_at :: "Timestamp option"
  tc_duration_ms :: "nat option"
  tc_outcome :: "Outcome option"
  tc_paths :: "PortablePath list"
  tc_start_event_id :: "EventId option"
  tc_end_event_id :: "EventId option"
  tc_command_category :: "string option"
  tc_git_subcommand :: "string option"
  tc_lines_added :: "nat option"
  tc_lines_removed :: "nat option"
  tc_pairing :: ToolPairing
  tc_tests_failed :: "nat option"

definition ToolCall_confidence :: "ToolCall \<Rightarrow> Confidence" where
  "ToolCall_confidence c =
     (case tc_pairing c of CallIdPairing \<Rightarrow> 100 | EndOnlyPairing \<Rightarrow> 100 | FifoPairing \<Rightarrow> 90 | InFlightPairing \<Rightarrow> 70)"

datatype AttemptOutcome = Succeeded | Failed | Abandoned | Superseded | InProgress | OutcomeUnknown

fun AttemptOutcome_as_str :: "AttemptOutcome \<Rightarrow> string" where
  "AttemptOutcome_as_str Succeeded = ''succeeded''"
| "AttemptOutcome_as_str Failed = ''failed''"
| "AttemptOutcome_as_str Abandoned = ''abandoned''"
| "AttemptOutcome_as_str Superseded = ''superseded''"
| "AttemptOutcome_as_str InProgress = ''in_progress''"
| "AttemptOutcome_as_str OutcomeUnknown = ''unknown''"

definition is_failure :: "AttemptOutcome \<Rightarrow> bool" where
  "is_failure x \<longleftrightarrow> x = Failed \<or> x = Superseded"

datatype Verification = VerificationPassed | VerificationFailed

fun Verification_as_str :: "Verification \<Rightarrow> string" where
  "Verification_as_str VerificationPassed = ''passed''"
| "Verification_as_str VerificationFailed = ''failed''"

definition ALGORITHM_VERSION :: string where
  "ALGORITHM_VERSION = ''tier1-v5''"

record Attempt =
  at_attempt_id :: AttemptId
  at_session_id :: SessionId
  at_turn_id :: TurnId
  at_turn_index :: nat
  at_index :: nat
  at_agent_id :: AgentId
  at_objective :: "string option"
  at_approach :: string
  at_started_at :: Timestamp
  at_ended_at :: "Timestamp option"
  at_outcome :: AttemptOutcome
  at_failure_class :: "string option"
  at_verification :: "Verification option"
  at_tool_call_ids :: "SpanId list"
  at_paths :: "string list"
  at_commit_shas :: "string list"
  at_superseded_by :: "AttemptId option"
  at_supersedes :: "AttemptId option"
  at_evidence :: "EventId list"
  at_confidence :: Confidence
  at_algorithm_version :: string
  at_work_unit_id :: "WorkUnitId option"
  at_corrected :: "CorrectionRef option"
  at_inferred_outcome :: "AttemptOutcome option"
  at_inferred_failure_class :: "string option"
  at_note :: "string option"

section \<open>Edges, handoffs and signals\<close>

datatype EdgeKind =
    ParentOf | Caused | Triggered | BlockedEdge | Resolved | SupersededEdge | Produced | Verified | Contradicted | HandedOff | EvidenceFor

fun EdgeKind_as_str :: "EdgeKind \<Rightarrow> string" where
  "EdgeKind_as_str ParentOf = ''parent_of''"
| "EdgeKind_as_str Caused = ''caused''"
| "EdgeKind_as_str Triggered = ''triggered''"
| "EdgeKind_as_str BlockedEdge = ''blocked''"
| "EdgeKind_as_str Resolved = ''resolved''"
| "EdgeKind_as_str SupersededEdge = ''superseded''"
| "EdgeKind_as_str Produced = ''produced''"
| "EdgeKind_as_str Verified = ''verified''"
| "EdgeKind_as_str Contradicted = ''contradicted''"
| "EdgeKind_as_str HandedOff = ''handed_off''"
| "EdgeKind_as_str EvidenceFor = ''evidence_for''"

datatype EdgeEndpoint =
    EventEnd EventId | SpanEnd SpanId | TurnEnd TurnId | AttemptEnd AttemptId | SessionEnd SessionId | WorkUnitEnd WorkUnitId

record CausalEdge =
  ce_from :: EdgeEndpoint
  ce_to :: EdgeEndpoint
  ce_kind :: EdgeKind
  ce_evidence :: "EventId list"
  ce_confidence :: Confidence

definition HEURISTIC_EDGE_CONFIDENCE :: Confidence where
  "HEURISTIC_EDGE_CONFIDENCE = 60"

record Handoff =
  ho_from_session :: SessionId
  ho_to_session :: SessionId
  ho_from_provider :: Provider
  ho_to_provider :: Provider
  ho_project_id :: ProjectId
  ho_at :: Timestamp
  ho_gap_ms :: nat
  ho_shared_paths :: "string list"
  ho_evidence :: "EventId list"
  ho_from_turn :: "TurnId option"
  ho_to_turn :: "TurnId option"
  ho_confidence :: Confidence

record Signal =
  sg_session_id :: SessionId
  sg_event_id :: EventId
  sg_at :: Timestamp
  sg_kind :: EventKind
  sg_signal_type :: "string option"
  sg_agent_id :: AgentId
  sg_blocking :: bool
  sg_cleared_at :: "Timestamp option"
  sg_cleared_by :: "EventId option"

definition WAIT_CONFIDENCE_FULL :: Confidence where
  "WAIT_CONFIDENCE_FULL = 85"

definition WAIT_CONFIDENCE_DEGRADED :: Confidence where
  "WAIT_CONFIDENCE_DEGRADED = 65"

definition SETTLED_SIGNAL_CONFIDENCE :: Confidence where
  "SETTLED_SIGNAL_CONFIDENCE = 90"

definition Signal_confidence :: "Signal \<Rightarrow> CoverageGrade \<Rightarrow> Confidence" where
  "Signal_confidence g coverage =
     (if sg_cleared_at g \<noteq> None \<or> \<not> sg_blocking g then SETTLED_SIGNAL_CONFIDENCE
      else if coverage = CoverageFull then WAIT_CONFIDENCE_FULL
      else WAIT_CONFIDENCE_DEGRADED)"

section \<open>Approach summaries\<close>

definition MAX_PATHS :: nat where
  "MAX_PATHS = 4"

definition COUNTED :: "(ToolCategory \<times> string) list" where
  "COUNTED = [(Shell, ''shell''), (FileRead, ''read''), (Search, ''search''), (Web, ''web''), (Mcp, ''mcp''), (Subagent, ''subagent''),
     (Plan, ''plan''), (OtherTool, ''other'')]"

definition path_key :: "PortablePath \<Rightarrow> string" where
  "path_key p = display p"

text \<open>Appending what is not there yet.\<close>

definition push_new :: "'a \<Rightarrow> 'a list \<Rightarrow> 'a list" where
  "push_new x xs = (if x \<in> set xs then xs else xs @ [x])"

text \<open>\<open>entry(k).or_default().push(v)\<close> on a hash map, and what a map filled that way holds.\<close>

definition push_entry :: "'k \<Rightarrow> 'v \<Rightarrow> ('k \<rightharpoonup> 'v list) \<Rightarrow> 'k \<rightharpoonup> 'v list" where
  "push_entry k i m = m(k \<mapsto> (case m k of None \<Rightarrow> [] | Some is \<Rightarrow> is) @ [i])"

lemma push_entries:
  "fold (\<lambda>x. push_entry (key x) (val x)) xs Map.empty k =
     (let ys = map val (filter (\<lambda>x. key x = k) xs) in if ys = [] then None else Some ys)"
proof (induction xs rule: rev_induct)
  case (snoc x xs)
  then show ?case
    by (cases "k = key x") (simp_all add: push_entry_def Let_def split: if_splits)
qed simp

record ApproachBucket =
  bk_count :: nat
  bk_paths :: "string list"

definition Bucket_default :: ApproachBucket where
  "Bucket_default = \<lparr>bk_count = 0, bk_paths = []\<rparr>"

definition Bucket_add :: "ToolCall \<Rightarrow> ApproachBucket \<Rightarrow> ApproachBucket" where
  "Bucket_add call b = b\<lparr>bk_count := bk_count b + 1, bk_paths := fold (\<lambda>p. push_new (path_key p)) (tc_paths call) (bk_paths b)\<rparr>"

definition counted :: "string \<Rightarrow> nat \<Rightarrow> string" where
  "counted verb n = (if n = 1 then verb else verb @ '' '' @ map char_of [0xC3, 0x97 :: nat] @ decimal n)"

definition Bucket_render :: "string \<Rightarrow> ApproachBucket \<Rightarrow> string option" where
  "Bucket_render verb b =
     (if bk_count b = 0 then None
      else if bk_paths b = [] then Some (counted verb (bk_count b))
      else
        (let shown = join '', '' (take MAX_PATHS (bk_paths b));
             more = (if MAX_PATHS < length (bk_paths b) then '' +'' @ decimal (length (bk_paths b) - MAX_PATHS) @ '' more'' else [])
         in Some (verb @ '' '' @ shown @ more)))"

definition bucket_of :: "ToolCategory \<Rightarrow> ToolCall list \<Rightarrow> ApproachBucket" where
  "bucket_of cat calls = fold Bucket_add (filter (\<lambda>c. tool_category (tc_tool c) = cat) calls) Bucket_default"

definition summarise :: "ToolCall list \<Rightarrow> string" where
  "summarise calls =
     (let segments =
            List.map_filter id
              [Bucket_render ''edit'' (bucket_of FileEdit calls), Bucket_render ''write'' (bucket_of FileWrite calls),
               Bucket_render ''notebook'' (bucket_of Notebook calls)] @
            List.map_filter (\<lambda>(cat, label).
              let n = length (filter (\<lambda>c. tool_category (tc_tool c) = cat) calls) in if 0 < n then Some (counted label n) else None) COUNTED
      in if segments = [] then ''no tool calls'' else join ('' '' @ map char_of [0xC2, 0xB7 :: nat] @ '' '') segments)"

section \<open>Order of the stream\<close>

record OrderKey =
  ok_hlc :: u64
  ok_source_seq :: nat
  ok_observed_at :: Timestamp
  ok_captured_at :: Timestamp
  ok_event_id :: EventId

definition OrderKey_from_event :: "Event \<Rightarrow> OrderKey" where
  "OrderKey_from_event ev =
     \<lparr>ok_hlc = ev_hlc ev, ok_source_seq = ev_source_seq ev, ok_observed_at = ev_observed_at ev,
      ok_captured_at = ev_captured_at ev, ok_event_id = ev_event_id ev\<rparr>"

datatype OrderMode = HlcOrder | WallOrder

text \<open>\<open>compare\<close>: whether the first key comes before the second, as the tuples of the source compare.\<close>

definition key_before :: "OrderMode \<Rightarrow> OrderKey \<Rightarrow> OrderKey \<Rightarrow> bool" where
  "key_before mode a b \<longleftrightarrow>
     (case mode of
        HlcOrder \<Rightarrow>
          ok_observed_at a < ok_observed_at b \<or> ok_observed_at a = ok_observed_at b \<and>
          (ok_hlc a < ok_hlc b \<or> ok_hlc a = ok_hlc b \<and>
           (ok_source_seq a < ok_source_seq b \<or> ok_source_seq a = ok_source_seq b \<and> ok_event_id a < ok_event_id b))
      | WallOrder \<Rightarrow>
          ok_observed_at a < ok_observed_at b \<or> ok_observed_at a = ok_observed_at b \<and>
          (ok_captured_at a < ok_captured_at b \<or> ok_captured_at a = ok_captured_at b \<and> ok_event_id a < ok_event_id b))"

definition choose_mode :: "OrderKey list \<Rightarrow> OrderMode" where
  "choose_mode keys = (if list_ex (\<lambda>k. ok_hlc k = 0) keys then WallOrder else if keys = [] then WallOrder else HlcOrder)"

section \<open>Liveness\<close>

definition STALE_AFTER_US :: int where
  "STALE_AFTER_US = 30 * 60 * 1000000"

definition PENDING_STALE_AFTER_US :: int where
  "PENDING_STALE_AFTER_US = 12 * 60 * 60 * 1000000"

definition is_stale :: "Timestamp \<Rightarrow> bool \<Rightarrow> Timestamp \<Rightarrow> bool" where
  "is_stale last_activity awaiting_human as_of \<longleftrightarrow>
     (if awaiting_human then PENDING_STALE_AFTER_US else STALE_AFTER_US) < i64_wrap (as_of - last_activity)"

definition judge_session :: "Session \<Rightarrow> bool \<Rightarrow> Timestamp \<Rightarrow> SessionStatus" where
  "judge_session s awaiting_human as_of =
     (if ss_ended_at s \<noteq> None then SessionClosed
      else if is_stale (ss_last_activity_at s) awaiting_human as_of then SessionStale
      else SessionOpen)"

end
