(* ===== verification/Attempts.thy ===== *)
theory Attempts
  imports Model "HOL-Library.Multiset" "HOL-Library.Product_Lexorder"
begin

text \<open>
  Attempts (\<open>attemptdb-project/src/attempts.rs\<close>): a turn's tool calls split by agent and then at the calls
  that end an attempt by failing, the attempt built from each group, and the link from a failed attempt
  to the later attempt of the same agent that retried it. Identifiers are derived with UUIDv5 from their
  text form; both are parameters.
\<close>

section \<open>Which calls end an attempt\<close>

type_synonym paired = "ToolCall \<times> ToolPairing"

record IdEnv =
  ie_v5 :: "string \<Rightarrow> uuid"
  ie_text :: "uuid \<Rightarrow> string"

record TurnInput =
  ti_session_id :: SessionId
  ti_coverage :: CoverageGrade
  ti_turn :: Turn
  ti_turn_failure_class :: "string option"
  ti_calls :: "paired list"

record AttemptMeta =
  am_failing_event_id :: "EventId option"
  am_first_action_event_id :: "EventId option"
  am_edited :: "string list"
  am_agent_id :: AgentId
  am_failed_check :: "string option"
  am_passed_checks :: "string list"

record Group =
  gr_calls :: "paired list"
  gr_failing :: "nat option"
  gr_has_edit :: bool

definition Group_default :: Group where
  "Group_default = \<lparr>gr_calls = [], gr_failing = None, gr_has_edit = False\<rparr>"

text \<open>\<open>Option::or\<close>.\<close>

definition or_else :: "'a option \<Rightarrow> 'a option \<Rightarrow> 'a option" where
  "or_else a b = (case a of Some x \<Rightarrow> Some x | None \<Rightarrow> b)"

definition is_edit :: "ToolCall \<Rightarrow> bool" where
  "is_edit call \<longleftrightarrow> mutates_files (tool_category (tc_tool call))"

definition check_kind :: "ToolCall \<Rightarrow> string option" where
  "check_kind call =
     (if tool_category (tc_tool call) \<noteq> Shell then None
      else if tc_command_category call = Some ''test'' \<or> tc_command_category call = Some ''build'' then tc_command_category call
      else if tc_tests_failed call \<noteq> None then Some ''test''
      else None)"

definition status_failed :: "ToolCall \<Rightarrow> bool" where
  "status_failed call \<longleftrightarrow>
     (case tc_outcome call of Some o' \<Rightarrow> oc_status o' = Failure \<or> oc_status o' = Denied | None \<Rightarrow> False)"

definition tests_failing :: "ToolCall \<Rightarrow> bool" where
  "tests_failing call \<longleftrightarrow> (case tc_tests_failed call of Some n \<Rightarrow> 0 < n | None \<Rightarrow> False)"

definition check_failed :: "ToolCall \<Rightarrow> bool" where
  "check_failed call \<longleftrightarrow> status_failed call \<or> tests_failing call"

definition denied :: "ToolCall \<Rightarrow> bool" where
  "denied call \<longleftrightarrow> (case tc_outcome call of Some o' \<Rightarrow> oc_status o' = Denied | None \<Rightarrow> False)"

definition ends_attempt :: "ToolCall \<Rightarrow> bool \<Rightarrow> bool" where
  "ends_attempt call has_edit =
     (let cat = tool_category (tc_tool call) in
      if mutates_files cat then status_failed call
      else if cat \<noteq> Shell then False
      else if check_kind call \<noteq> None then check_failed call
      else status_failed call \<and> (denied call \<or> has_edit))"

definition failure_class :: "ToolCall \<Rightarrow> string" where
  "failure_class call =
     (case tc_outcome call of
        Some o' \<Rightarrow>
          if status_failed call then (case oc_class o' of Some c \<Rightarrow> c | None \<Rightarrow> OutcomeStatus_as_str (oc_status o'))
          else if tests_failing call then ''tests_failed'' else ''failure''
      | None \<Rightarrow> if tests_failing call then ''tests_failed'' else ''failure'')"

section \<open>Splitting the calls of one agent\<close>

definition observed :: "ToolCall \<Rightarrow> Timestamp option" where
  "observed call = or_else (tc_started_at call) (tc_finished_at call)"

definition failure_end :: "Turn \<Rightarrow> ToolCall \<Rightarrow> Timestamp" where
  "failure_end turn call =
     (case or_else (tc_finished_at call) (observed call) of Some t \<Rightarrow> t | None \<Rightarrow> tu_started_at turn)"

definition past :: "Timestamp option \<Rightarrow> ToolCall \<Rightarrow> bool" where
  "past boundary call \<longleftrightarrow> (case (boundary, observed call) of (Some b, Some t) \<Rightarrow> b < t | _ \<Rightarrow> False)"

fun split_loop :: "Turn \<Rightarrow> Group list \<Rightarrow> Group \<Rightarrow> Timestamp option \<Rightarrow> paired list \<Rightarrow> Group list" where
  "split_loop turn groups current boundary [] =
     (if gr_calls current \<noteq> [] \<or> groups = [] then groups @ [current] else groups)"
| "split_loop turn groups current boundary ((call, pairing) # calls) =
     (let (groups, current, boundary) =
        (if past boundary call then (groups @ [current], Group_default, None) else (groups, current, boundary));
          current = current\<lparr>gr_calls := gr_calls current @ [(call, pairing)],
                            gr_has_edit := gr_has_edit current \<or> is_edit call\<rparr>
      in if gr_failing current = None \<and> ends_attempt call (gr_has_edit current)
         then split_loop turn groups (current\<lparr>gr_failing := Some (length (gr_calls current) - 1)\<rparr>)
                (Some (failure_end turn call)) calls
         else split_loop turn groups current boundary calls)"

definition split_agent :: "Turn \<Rightarrow> paired list \<Rightarrow> (paired list \<times> nat option) list" where
  "split_agent turn calls = map (\<lambda>g. (gr_calls g, gr_failing g)) (split_loop turn [] Group_default None calls)"

section \<open>Building an attempt\<close>

definition first_some :: "('a \<Rightarrow> 'b option) \<Rightarrow> 'a list \<Rightarrow> 'b option" where
  "first_some f xs = (case List.map_filter f xs of [] \<Rightarrow> None | y # _ \<Rightarrow> Some y)"

definition anchor :: "Turn \<Rightarrow> paired list \<Rightarrow> nat option \<Rightarrow> string \<times> EventId" where
  "anchor turn calls failing =
     (case Option.bind failing (\<lambda>f. let c = fst (calls ! f) in or_else (tc_end_event_id c) (tc_start_event_id c)) of
        Some e \<Rightarrow> (''fail'', e)
      | None \<Rightarrow>
          (case first_some (\<lambda>(c, _). or_else (tc_start_event_id c) (tc_end_event_id c)) calls of
             Some e \<Rightarrow> (''act'', e)
           | None \<Rightarrow> (''turn'', case tu_prompt_event_id turn of Some e \<Rightarrow> e | None \<Rightarrow> tu_first_event_id turn)))"

definition attempt_result ::
  "TurnInput \<Rightarrow> bool \<Rightarrow> paired list \<Rightarrow> nat option \<Rightarrow> AttemptOutcome \<times> string option \<times> Timestamp option"
where
  "attempt_result input is_last calls failing =
     (let turn = ti_turn input in
      case failing of
        Some f \<Rightarrow> (let call = fst (calls ! f) in (Failed, Some (failure_class call), tc_finished_at call))
      | None \<Rightarrow>
          if is_last then
            (case tu_status turn of
               TurnCompleted \<Rightarrow> (if calls = [] then OutcomeUnknown else Succeeded, None, tu_ended_at turn)
             | TurnHasFailed \<Rightarrow>
                 (Failed, Some (case ti_turn_failure_class input of Some c \<Rightarrow> c | None \<Rightarrow> ''turn_failed''), tu_ended_at turn)
             | TurnUnknown \<Rightarrow> (Abandoned, None, tu_ended_at turn)
             | TurnInProgress \<Rightarrow> (InProgress, None, None))
          else (OutcomeUnknown, None, None))"

definition attempt_start :: "Turn \<Rightarrow> bool \<Rightarrow> paired list \<Rightarrow> Timestamp" where
  "attempt_start turn first_of_turn calls =
     (if first_of_turn then tu_started_at turn
      else case calls of
             [] \<Rightarrow> tu_started_at turn
           | (c, _) # _ \<Rightarrow> (case observed c of Some t \<Rightarrow> t | None \<Rightarrow> tu_started_at turn))"

definition push_evidence :: "EventId option \<Rightarrow> EventId list \<Rightarrow> EventId list" where
  "push_evidence e evidence = (case e of Some x \<Rightarrow> push_new x evidence | None \<Rightarrow> evidence)"

definition attempt_evidence :: "Turn \<Rightarrow> bool \<Rightarrow> paired list \<Rightarrow> EventId list" where
  "attempt_evidence turn is_last calls =
     (let e1 = push_evidence (tu_prompt_event_id turn) [];
          e2 = fold (\<lambda>(c, _). push_evidence (tc_end_event_id c) \<circ> push_evidence (tc_start_event_id c)) calls e1
      in if is_last then push_evidence (tu_stop_event_id turn) e2 else e2)"

definition attempt_paths :: "paired list \<Rightarrow> string list" where
  "attempt_paths calls = fold (\<lambda>(c, _). fold (\<lambda>p. push_new (path_key p)) (tc_paths c)) calls []"

definition attempt_edited :: "paired list \<Rightarrow> string list" where
  "attempt_edited calls = fold (\<lambda>(c, _). if is_edit c then fold (\<lambda>p. push_new (path_key p)) (tc_paths c) else id) calls []"

definition attempt_checks :: "paired list \<Rightarrow> Verification option \<times> string option \<times> string list" where
  "attempt_checks calls =
     fold (\<lambda>(c, _) (verification, failed, passed).
       case check_kind c of
         None \<Rightarrow> (verification, failed, passed)
       | Some kind \<Rightarrow>
           if check_failed c then (Some VerificationFailed, Some kind, passed)
           else if tc_outcome c \<noteq> None then (Some VerificationPassed, failed, passed @ [kind])
           else (verification, failed, passed)) calls (None, None, [])"

definition attempt_confidence :: "TurnInput \<Rightarrow> paired list \<Rightarrow> Confidence" where
  "attempt_confidence input calls =
     (let status = tu_status (ti_turn input);
          explicit_stop = (status = TurnCompleted \<or> status = TurnHasFailed);
          clean_pairing = list_all (\<lambda>(_, p). p = CallIdPairing) calls
      in if ti_coverage input = CoverageMinimal \<or> ti_coverage input = CoverageUnknown then 40
         else if \<not> explicit_stop \<or> \<not> clean_pairing then 60
         else 90)"

definition build_attempt ::
  "IdEnv \<Rightarrow> TurnInput \<Rightarrow> AgentId \<Rightarrow> bool \<Rightarrow> bool \<Rightarrow> paired list \<Rightarrow> nat option \<Rightarrow> Attempt \<times> AttemptMeta"
where
  "build_attempt ids input agent first_of_turn is_last calls failing =
     (let turn = ti_turn input;
          (outcome, failure_cls, ended_at) = attempt_result input is_last calls failing;
          (verification, failed_check, passed_checks) = attempt_checks calls;
          (kind, event) = anchor turn calls failing
      in (\<lparr>at_attempt_id = derive_id (ie_v5 ids) ''att_'' [ie_text ids (ti_session_id input), kind, ie_text ids event],
           at_session_id = ti_session_id input, at_turn_id = tu_turn_id turn, at_turn_index = tu_index turn, at_index = 0,
           at_agent_id = agent, at_objective = tu_objective turn, at_approach = summarise (map fst calls),
           at_started_at = attempt_start turn first_of_turn calls, at_ended_at = ended_at, at_outcome = outcome,
           at_failure_class = failure_cls, at_verification = verification,
           at_tool_call_ids = map (\<lambda>(c, _). tc_tool_call_id c) calls, at_paths = attempt_paths calls, at_commit_shas = [],
           at_superseded_by = None, at_supersedes = None, at_evidence = attempt_evidence turn is_last calls,
           at_confidence = attempt_confidence input calls, at_algorithm_version = ALGORITHM_VERSION, at_work_unit_id = None,
           at_corrected = None, at_inferred_outcome = None, at_inferred_failure_class = None, at_note = None\<rparr>,
          \<lparr>am_failing_event_id =
             Option.bind failing (\<lambda>f. let c = fst (calls ! f) in or_else (tc_end_event_id c) (tc_start_event_id c)),
           am_first_action_event_id =
             (case calls of [] \<Rightarrow> None | (c, _) # _ \<Rightarrow> or_else (tc_start_event_id c) (tc_end_event_id c)),
           am_edited = attempt_edited calls, am_agent_id = agent, am_failed_check = failed_check,
           am_passed_checks = passed_checks\<rparr>))"

section \<open>Splitting a turn\<close>

fun push_call :: "paired \<Rightarrow> (AgentId \<times> paired list) list \<Rightarrow> (AgentId \<times> paired list) list" where
  "push_call c [] = [(tc_agent_id (fst c), [c])]"
| "push_call c ((a, calls) # agents) =
     (if a = tc_agent_id (fst c) then (a, calls @ [c]) # agents else (a, calls) # push_call c agents)"

definition agents_of :: "paired list \<Rightarrow> (AgentId \<times> paired list) list" where
  "agents_of calls = (let agents = fold push_call calls [] in if agents = [] then [(nil_id, [])] else agents)"

definition agent_attempts ::
  "IdEnv \<Rightarrow> TurnInput \<Rightarrow> nat \<Rightarrow> AgentId \<times> paired list \<Rightarrow> (nat \<times> nat \<times> Attempt \<times> AttemptMeta) list"
where
  "agent_attempts ids input agent_order = (\<lambda>(agent, calls).
     let groups = split_agent (ti_turn input) calls; n = length groups in
     map (\<lambda>(i, gcalls, failing).
       (agent_order, i, build_attempt ids input agent (agent_order = 0 \<and> i = 0) (i + 1 = n) gcalls failing))
       (enumerate 0 groups))"

definition split_turn :: "IdEnv \<Rightarrow> TurnInput \<Rightarrow> (Attempt \<times> AttemptMeta) list" where
  "split_turn ids input =
     (let built = concat (map (\<lambda>(k, a). agent_attempts ids input k a) (enumerate 0 (agents_of (ti_calls input))));
          ordered = sort_key (\<lambda>(k, i, a, _). (at_started_at a, k, i)) built
      in map (\<lambda>(index, _, _, a, meta). (a\<lparr>at_index := index\<rparr>, meta)) (enumerate 0 ordered))"

section \<open>Supersession\<close>

datatype Retry = SameEdit | PassedCheck

definition retry_reason :: "Attempt list \<Rightarrow> AttemptMeta list \<Rightarrow> nat \<Rightarrow> nat \<Rightarrow> Retry option" where
  "retry_reason attempts metas i j =
     (let from = metas ! i; candidate = attempts ! j; upto = metas ! j; turn_index = at_turn_index (attempts ! i) in
      if at_turn_index candidate \<noteq> turn_index \<and> at_turn_index candidate \<noteq> turn_index + 1 then None
      else if am_agent_id upto \<noteq> am_agent_id from then None
      else if list_ex (\<lambda>p. p \<in> set (am_edited from)) (am_edited upto) then Some SameEdit
      else if (case am_failed_check from of Some k \<Rightarrow> k \<in> set (am_passed_checks upto) | None \<Rightarrow> False) then Some PassedCheck
      else None)"

definition find_retry :: "Attempt list \<Rightarrow> AttemptMeta list \<Rightarrow> nat \<Rightarrow> (nat \<times> Retry) option" where
  "find_retry attempts metas i =
     first_some (\<lambda>j. map_option (Pair j) (retry_reason attempts metas i j)) [i + 1 ..< length attempts]"

definition link_edges :: "Attempt list \<Rightarrow> AttemptMeta list \<Rightarrow> nat \<Rightarrow> nat \<Rightarrow> Retry \<Rightarrow> CausalEdge list" where
  "link_edges attempts metas i j retry =
     (let failing = am_failing_event_id (metas ! i); first = am_first_action_event_id (metas ! j);
          evidence = (case failing of Some e \<Rightarrow> [e] | None \<Rightarrow> []) @ (case first of Some e \<Rightarrow> [e] | None \<Rightarrow> []);
          confidence = at_confidence (attempts ! i)
      in \<lparr>ce_from = AttemptEnd (at_attempt_id (attempts ! i)), ce_to = AttemptEnd (at_attempt_id (attempts ! j)),
          ce_kind = SupersededEdge, ce_evidence = evidence,
          ce_confidence = (case retry of SameEdit \<Rightarrow> confidence | PassedCheck \<Rightarrow> min confidence HEURISTIC_EDGE_CONFIDENCE)\<rparr> #
         (case (failing, first) of
            (Some f, Some n) \<Rightarrow>
              [\<lparr>ce_from = EventEnd f, ce_to = EventEnd n, ce_kind = Caused, ce_evidence = evidence,
                ce_confidence = min confidence HEURISTIC_EDGE_CONFIDENCE\<rparr>]
          | _ \<Rightarrow> []))"

definition link_one :: "AttemptMeta list \<Rightarrow> nat \<Rightarrow> Attempt list \<times> CausalEdge list \<Rightarrow> Attempt list \<times> CausalEdge list" where
  "link_one metas i = (\<lambda>(attempts, edges).
     if at_outcome (attempts ! i) \<noteq> Failed then (attempts, edges)
     else if am_edited (metas ! i) = [] \<and> am_failed_check (metas ! i) = None then (attempts, edges)
     else case find_retry attempts metas i of
            None \<Rightarrow> (attempts, edges)
          | Some (j, retry) \<Rightarrow>
              (let from_id = at_attempt_id (attempts ! i); to_id = at_attempt_id (attempts ! j);
                   attempts1 = attempts[i := (attempts ! i)\<lparr>at_outcome := Superseded, at_superseded_by := Some to_id\<rparr>];
                   attempts2 = (if at_supersedes (attempts1 ! j) = None
                                then attempts1[j := (attempts1 ! j)\<lparr>at_supersedes := Some from_id\<rparr>] else attempts1)
               in (attempts2, edges @ link_edges attempts metas i j retry)))"

definition link_supersession :: "AttemptMeta list \<Rightarrow> Attempt list \<times> CausalEdge list \<Rightarrow> Attempt list \<times> CausalEdge list" where
  "link_supersession metas = (\<lambda>(attempts, edges). fold (link_one metas) [0 ..< length attempts] (attempts, edges))"

section \<open>What a split is\<close>

text \<open>
  The first call of a group that ends it, judged with the edits up to it; and a split: every group
  but the last has one, what follows it in its group was already running when it ended, and the next group
  opens with the first call seen after that.
\<close>

definition failing_at :: "paired list \<Rightarrow> nat \<Rightarrow> bool" where
  "failing_at gs k \<longleftrightarrow> ends_attempt (fst (gs ! k)) (list_ex (\<lambda>c. is_edit (fst c)) (take (Suc k) gs))"

definition first_failing :: "paired list \<Rightarrow> nat option" where
  "first_failing gs = find (failing_at gs) [0 ..< length gs]"

definition after_failure :: "Turn \<Rightarrow> paired list \<Rightarrow> nat option \<Rightarrow> ToolCall \<Rightarrow> bool" where
  "after_failure turn gs f call \<longleftrightarrow> past (map_option (\<lambda>k. failure_end turn (fst (gs ! k))) f) call"

definition group_ok :: "Turn \<Rightarrow> paired list \<Rightarrow> nat option \<Rightarrow> bool" where
  "group_ok turn gs f \<longleftrightarrow>
     f = first_failing gs \<and> (\<forall>k m. f = Some k \<longrightarrow> k < m \<longrightarrow> m < length gs \<longrightarrow> \<not> after_failure turn gs f (fst (gs ! m)))"

fun well_split :: "Turn \<Rightarrow> (paired list \<times> nat option) list \<Rightarrow> bool" where
  "well_split turn [] \<longleftrightarrow> True"
| "well_split turn [(gs, f)] \<longleftrightarrow> group_ok turn gs f"
| "well_split turn ((gs, f) # (gs', f') # rest) \<longleftrightarrow>
     group_ok turn gs f \<and> f \<noteq> None \<and> gs \<noteq> [] \<and> gs' \<noteq> [] \<and> after_failure turn gs f (fst (hd gs')) \<and> well_split turn ((gs', f') # rest)"

lemma first_failing_Some: "first_failing gs = Some k \<Longrightarrow> k < length gs \<and> failing_at gs k \<and> (\<forall>m < k. \<not> failing_at gs m)"
  unfolding first_failing_def find_Some_iff by (auto simp: nth_append)

lemma failing_at_append: "k < length gs \<Longrightarrow> failing_at (gs @ xs) k = failing_at gs k"
  by (simp add: failing_at_def nth_append)

lemma find_append_cases: "find P (xs @ ys) = (case find P xs of Some x \<Rightarrow> Some x | None \<Rightarrow> find P ys)"
  by (induction xs) simp_all

lemma first_failing_snoc:
  "first_failing (gs @ [c]) =
     (case first_failing gs of
        Some f \<Rightarrow> Some f
      | None \<Rightarrow> if ends_attempt (fst c) (list_ex (\<lambda>c. is_edit (fst c)) (gs @ [c])) then Some (length gs) else None)"
proof -
  have "find (failing_at (gs @ [c])) [0 ..< length gs] = first_failing gs"
    unfolding first_failing_def by (rule find_cong) (simp_all add: failing_at_append)
  moreover have "failing_at (gs @ [c]) (length gs) = ends_attempt (fst c) (list_ex (\<lambda>c. is_edit (fst c)) (gs @ [c]))"
    by (simp add: failing_at_def)
  ultimately show ?thesis
    by (simp add: first_failing_def [of "gs @ [c]"] find_append_cases split: option.split)
qed

text \<open>The state of the loop: the group being filled and the end of the failure that closes it.\<close>

definition push_group :: "Turn \<Rightarrow> paired \<Rightarrow> Group \<times> Timestamp option \<Rightarrow> Group \<times> Timestamp option" where
  "push_group turn c = (\<lambda>(current, boundary).
     let g = current\<lparr>gr_calls := gr_calls current @ [c], gr_has_edit := gr_has_edit current \<or> is_edit (fst c)\<rparr>
     in if gr_failing g = None \<and> ends_attempt (fst c) (gr_has_edit g)
        then (g\<lparr>gr_failing := Some (length (gr_calls current))\<rparr>, Some (failure_end turn (fst c))) else (g, boundary))"

lemma split_loop_step:
  "split_loop turn groups current boundary (c # calls) =
     (if past boundary (fst c)
      then (let (g, b) = push_group turn c (Group_default, None) in split_loop turn (groups @ [current]) g b calls)
      else (let (g, b) = push_group turn c (current, boundary) in split_loop turn groups g b calls))"
  by (cases c) (simp add: push_group_def Let_def Group_default_def)

definition state_ok :: "Turn \<Rightarrow> Group \<times> Timestamp option \<Rightarrow> bool" where
  "state_ok turn = (\<lambda>(g, b).
     group_ok turn (gr_calls g) (gr_failing g) \<and> gr_has_edit g = list_ex (\<lambda>c. is_edit (fst c)) (gr_calls g) \<and>
     b = map_option (\<lambda>k. failure_end turn (fst (gr_calls g ! k))) (gr_failing g))"

lemma state_ok_default: "state_ok turn (Group_default, None)"
  by (simp add: state_ok_def Group_default_def group_ok_def first_failing_def)

lemma push_group_ok:
  assumes "state_ok turn (g, b)" and "\<not> past b (fst c)"
  shows "state_ok turn (push_group turn c (g, b)) \<and> gr_calls (fst (push_group turn c (g, b))) = gr_calls g @ [c]"
proof -
  have g: "gr_failing g = first_failing (gr_calls g)" "gr_has_edit g = list_ex (\<lambda>c. is_edit (fst c)) (gr_calls g)"
    "b = map_option (\<lambda>k. failure_end turn (fst (gr_calls g ! k))) (gr_failing g)"
    and tail: "\<And>k m. gr_failing g = Some k \<Longrightarrow> k < m \<Longrightarrow> m < length (gr_calls g) \<Longrightarrow> \<not> past b (fst (gr_calls g ! m))"
    using assms(1) by (auto simp: state_ok_def group_ok_def after_failure_def)
  show ?thesis
  proof (cases "gr_failing g")
    case None
    then show ?thesis
      using g by (auto simp: push_group_def state_ok_def group_ok_def first_failing_snoc Let_def)
  next
    case (Some k)
    have k: "k < length (gr_calls g)"
      using first_failing_Some g(1) Some by metis
    have "\<not> past b (fst ((gr_calls g @ [c]) ! m))" if "k < m" "m < Suc (length (gr_calls g))" for m
      using tail [OF Some that(1)] assms(2) that(2) by (cases "m < length (gr_calls g)") (auto simp: nth_append less_Suc_eq)
    moreover have "push_group turn c (g, b) = (g\<lparr>gr_calls := gr_calls g @ [c], gr_has_edit := gr_has_edit g \<or> is_edit (fst c)\<rparr>, b)"
      using Some by (simp add: push_group_def Let_def)
    moreover have "(gr_calls g @ [c]) ! k = gr_calls g ! k"
      using k by (simp add: nth_append)
    moreover have "first_failing (gr_calls g) = Some k"
      using g(1) Some by simp
    moreover have "b = Some (failure_end turn (fst (gr_calls g ! k)))"
      using g(3) unfolding Some by simp
    ultimately show ?thesis
      using g(2) Some by (simp add: state_ok_def group_ok_def first_failing_snoc after_failure_def)
  qed
qed

lemma split_loop_groups:
  "gr_calls g \<noteq> [] \<Longrightarrow> split_loop turn groups g b calls = groups @ split_loop turn [] g b calls"
proof (induction calls arbitrary: groups g b)
  case (Cons c calls)
  have ne: "gr_calls (fst (push_group turn c (x, y))) \<noteq> []" for x y
    by (simp add: push_group_def Let_def)
  show ?case
  proof (cases "past b (fst c)")
    case True
    obtain g' b' where p: "push_group turn c (Group_default, None) = (g', b')"
      by (cases "push_group turn c (Group_default, None)")
    have "gr_calls g' \<noteq> []"
      using ne [of Group_default None] p by simp
    then show ?thesis
      using Cons.IH [of g' "groups @ [g]" b'] Cons.IH [of g' "[g]" b'] True by (simp add: split_loop_step p del: split_loop.simps)
  next
    case False
    obtain g' b' where p: "push_group turn c (g, b) = (g', b')"
      by (cases "push_group turn c (g, b)")
    have "gr_calls g' \<noteq> []"
      using ne [of g b] p by simp
    then show ?thesis
      using Cons.IH [of g' groups b'] False by (simp add: split_loop_step p del: split_loop.simps)
  qed
qed simp

abbreviation group_out :: "Group \<Rightarrow> paired list \<times> nat option" where
  "group_out g \<equiv> (gr_calls g, gr_failing g)"

lemma split_loop_ok:
  "state_ok turn (g, b) \<Longrightarrow> gr_calls g \<noteq> [] \<Longrightarrow>
   \<exists>ys f rest. map group_out (split_loop turn [] g b calls) = (gr_calls g @ ys, f) # rest \<and>
     gr_calls g @ ys @ concat (map fst rest) = gr_calls g @ calls \<and> well_split turn ((gr_calls g @ ys, f) # rest)"
proof (induction calls arbitrary: g b)
  case Nil
  then show ?case
    by (auto simp: state_ok_def)
next
  case (Cons c calls)
  show ?case
  proof (cases "past b (fst c)")
    case True
    obtain g' b' where p: "push_group turn c (Group_default, None) = (g', b')"
      by (cases "push_group turn c (Group_default, None)")
    have ok: "state_ok turn (g', b')" "gr_calls g' = [c]"
      using push_group_ok [OF state_ok_default [of turn], of c] p by (simp_all add: past_def Group_default_def)
    obtain ys f rest where ih: "map group_out (split_loop turn [] g' b' calls) = (c # ys, f) # rest"
      "ys @ concat (map fst rest) = calls" "well_split turn ((c # ys, f) # rest)"
      using Cons.IH [OF ok(1)] ok(2) by auto
    have "split_loop turn [] g b (c # calls) = g # split_loop turn [] g' b' calls"
      using True split_loop_groups [of g' turn "[g]" b' calls] ok(2) by (simp add: split_loop_step p del: split_loop.simps)
    moreover have "group_ok turn (gr_calls g) (gr_failing g)" "after_failure turn (gr_calls g) (gr_failing g) (fst c)" "gr_failing g \<noteq> None"
      using Cons.prems(1) True by (auto simp: state_ok_def after_failure_def past_def split: option.splits)
    ultimately show ?thesis
      using ih Cons.prems(2) by (intro exI [of _ "[]"] exI [of _ "gr_failing g"] exI [of _ "(c # ys, f) # rest"]) simp
  next
    case False
    obtain g' b' where p: "push_group turn c (g, b) = (g', b')"
      by (cases "push_group turn c (g, b)")
    have ok: "state_ok turn (g', b')" "gr_calls g' = gr_calls g @ [c]"
      using push_group_ok [OF Cons.prems(1) False] p by simp_all
    obtain ys f rest where "map group_out (split_loop turn [] g' b' calls) = (gr_calls g @ c # ys, f) # rest"
      "gr_calls g @ c # ys @ concat (map fst rest) = gr_calls g @ c # calls" "well_split turn ((gr_calls g @ c # ys, f) # rest)"
      using Cons.IH [OF ok(1)] ok(2) by auto
    then show ?thesis
      using False by (intro exI [of _ "c # ys"] exI [of _ f] exI [of _ rest]) (simp add: split_loop_step p del: split_loop.simps)
  qed
qed

lemma split_agent_ok:
  "concat (map fst (split_agent turn calls)) = calls \<and> well_split turn (split_agent turn calls) \<and> split_agent turn calls \<noteq> []"
proof (cases calls)
  case Nil
  then show ?thesis
    by (simp add: split_agent_def Group_default_def group_ok_def first_failing_def)
next
  case (Cons c cs)
  obtain g b where p: "push_group turn c (Group_default, None) = (g, b)"
    by (cases "push_group turn c (Group_default, None)")
  have ok: "state_ok turn (g, b)" "gr_calls g = [c]"
    using push_group_ok [OF state_ok_default [of turn], of c] p by (simp_all add: past_def Group_default_def)
  have "split_agent turn calls = map group_out (split_loop turn [] g b cs)"
    unfolding split_agent_def Cons by (simp add: split_loop_step p past_def del: split_loop.simps)
  then show ?thesis
    using split_loop_ok [OF ok(1), of cs] ok(2) Cons by fastforce
qed

section \<open>What a turn's attempts hold\<close>

abbreviation call_ids :: "paired list \<Rightarrow> SpanId list" where
  "call_ids calls \<equiv> map (\<lambda>(c, _). tc_tool_call_id c) calls"

lemma build_attempt_fields:
  "at_tool_call_ids (fst (build_attempt ids input agent first_of_turn is_last calls failing)) = call_ids calls"
  "at_agent_id (fst (build_attempt ids input agent first_of_turn is_last calls failing)) = agent"
  by (simp_all add: build_attempt_def Let_def split: prod.split)

lemma push_call_mset: "mset (concat (map snd (push_call c agents))) = add_mset c (mset (concat (map snd agents)))"
  by (induction c agents rule: push_call.induct) auto

definition agents_ok :: "(AgentId \<times> paired list) list \<Rightarrow> bool" where
  "agents_ok agents \<longleftrightarrow> (\<forall>(a, cs) \<in> set agents. \<forall>c \<in> set cs. tc_agent_id (fst c) = a)"

lemma push_call_agents: "agents_ok agents \<Longrightarrow> agents_ok (push_call c agents)"
  unfolding agents_ok_def by (induction c agents rule: push_call.induct) auto

lemma fold_push_call:
  "mset (concat (map snd (fold push_call calls agents))) = mset (concat (map snd agents)) + mset calls"
  "agents_ok agents \<Longrightarrow> agents_ok (fold push_call calls agents)"
  by (induction calls arbitrary: agents) (simp_all add: push_call_mset push_call_agents)

lemma agents_of_ok:
  "mset (concat (map snd (agents_of calls))) = mset calls"
  "agents_ok (agents_of calls)" "agents_of calls \<noteq> []"
proof -
  show "mset (concat (map snd (agents_of calls))) = mset calls"
    using fold_push_call(1) [of calls "[]"] by (cases "fold push_call calls [] = []") (simp_all add: agents_of_def)
  show "agents_ok (agents_of calls)" "agents_of calls \<noteq> []"
    using fold_push_call(2) [of "[]" calls] by (simp_all add: agents_of_def Let_def agents_ok_def)
qed

text \<open>The attempts of one agent hold its calls, in order.\<close>

lemma agent_attempts_ids:
  "concat (map (\<lambda>(_, _, a, _). at_tool_call_ids a) (agent_attempts ids input k (agent, calls))) = call_ids calls"
proof -
  let ?gs = "split_agent (ti_turn input) calls"
  have "map (\<lambda>(_, _, a, _). at_tool_call_ids a) (agent_attempts ids input k (agent, calls)) =
      map (\<lambda>x. call_ids (fst (snd x))) (enumerate 0 ?gs)"
    by (auto simp: agent_attempts_def Let_def case_prod_beta build_attempt_fields)
  also have "\<dots> = map (\<lambda>g. call_ids (fst g)) (map snd (enumerate 0 ?gs))"
    by (simp only: map_map comp_def)
  also have "\<dots> = map (\<lambda>g. call_ids (fst g)) ?gs"
    by (simp only: map_snd_enumerate)
  finally have "concat (map (\<lambda>(_, _, a, _). at_tool_call_ids a) (agent_attempts ids input k (agent, calls))) =
      call_ids (concat (map fst ?gs))"
    by (simp add: map_concat comp_def)
  then show ?thesis
    by (simp add: split_agent_ok)
qed

lemma agent_attempts_agent:
  assumes "(k', i, a, m) \<in> set (agent_attempts ids input k (agent, calls))"
  shows "at_agent_id a = agent \<and> (\<exists>gs. set gs \<subseteq> set calls \<and> at_tool_call_ids a = call_ids gs)"
proof -
  obtain n gs f where "(n, gs, f) \<in> set (enumerate 0 (split_agent (ti_turn input) calls))"
    and a: "(a, m) = build_attempt ids input agent (k = 0 \<and> n = 0) (n + 1 = length (split_agent (ti_turn input) calls)) gs f"
    using assms unfolding agent_attempts_def Let_def by fastforce
  then have gs: "(gs, f) \<in> set (split_agent (ti_turn input) calls)" "at_tool_call_ids a = call_ids gs" "at_agent_id a = agent"
    using build_attempt_fields [of ids input agent] by (metis in_set_zip enumerate_eq_zip snd_conv nth_mem, metis fst_conv, metis fst_conv)
  have "set gs \<subseteq> set (concat (map fst (split_agent (ti_turn input) calls)))"
    using gs(1) by force
  then show ?thesis
    using gs by (auto simp: split_agent_ok)
qed

definition built_attempts :: "IdEnv \<Rightarrow> TurnInput \<Rightarrow> (nat \<times> nat \<times> Attempt \<times> AttemptMeta) list" where
  "built_attempts ids input = concat (map (\<lambda>(k, a). agent_attempts ids input k a) (enumerate 0 (agents_of (ti_calls input))))"

lemma enumerate_map:
  "map (\<lambda>(i, x). f x) (enumerate n xs) = map f xs" "map (\<lambda>(i, x). i) (enumerate n xs) = [n ..< n + length xs]"
proof -
  show "map (\<lambda>(i, x). f x) (enumerate n xs) = map f xs"
    by (induction xs arbitrary: n) simp_all
  have "(\<lambda>(i, x). i) = (fst :: nat \<times> 'b \<Rightarrow> nat)"
    by auto
  then show "map (\<lambda>(i, x). i) (enumerate n xs) = [n ..< n + length xs]"
    by simp
qed

lemma mset_concat_cong: "mset xs = mset ys \<Longrightarrow> mset (concat (map f xs)) = mset (concat (map f ys))"
proof -
  assume "mset xs = mset ys"
  moreover have "mset (concat (map f zs)) = sum_mset (image_mset (\<lambda>z. mset (f z)) (mset zs))" for zs
    by (induction zs) simp_all
  ultimately show ?thesis
    by simp
qed

lemma concat_map_concat: "concat (map f (concat xss)) = concat (map (\<lambda>xs. concat (map f xs)) xss)"
  by (induction xss) simp_all

lemma agent_attempts_of:
  "filter (\<lambda>(_, _, a, _). at_agent_id a = g) (agent_attempts ids input k (agent, calls)) =
     (if agent = g then agent_attempts ids input k (agent, calls) else [])"
  using agent_attempts_agent [of _ _ _ _ ids input k agent calls] by (auto simp: filter_id_conv filter_empty_conv)

lemma agents_ok_filter:
  "agents_ok agents \<Longrightarrow>
   filter (\<lambda>c. tc_agent_id (fst c) = g) (concat (map snd agents)) = concat (map (\<lambda>(a, cs). if a = g then cs else []) agents)"
proof (induction agents)
  case (Cons x agents)
  have "filter (\<lambda>c. tc_agent_id (fst c) = g) (snd x) = (if fst x = g then snd x else [])"
    using Cons.prems by (cases x) (auto simp: agents_ok_def filter_id_conv filter_empty_conv)
  moreover have "agents_ok agents"
    using Cons.prems by (simp add: agents_ok_def)
  ultimately show ?case
    using Cons.IH by (simp add: case_prod_beta)
qed simp

lemma built_attempts_ids:
  "mset (concat (map (\<lambda>(_, _, a, _). at_tool_call_ids a) (filter (\<lambda>(_, _, a, _). at_agent_id a = g) (built_attempts ids input)))) =
   mset (call_ids (filter (\<lambda>c. tc_agent_id (fst c) = g) (ti_calls input)))"
proof -
  let ?agents = "agents_of (ti_calls input)" and ?ids = "\<lambda>(_, _, a, _). at_tool_call_ids a"
  have "concat (map ?ids (filter (\<lambda>(_, _, a, _). at_agent_id a = g) (built_attempts ids input))) =
      concat (map (\<lambda>(i, x). call_ids (if fst x = g then snd x else [])) (enumerate 0 ?agents))"
    unfolding built_attempts_def filter_concat concat_map_concat map_map
    by (rule arg_cong [where f = concat]) (auto simp: agent_attempts_ids agent_attempts_of)
  also have "\<dots> = call_ids (concat (map (\<lambda>(a, cs). if a = g then cs else []) ?agents))"
    unfolding enumerate_map by (simp add: map_concat comp_def case_prod_beta)
  also have "\<dots> = call_ids (filter (\<lambda>c. tc_agent_id (fst c) = g) (concat (map snd ?agents)))"
    by (simp only: agents_ok_filter [OF agents_of_ok(2)])
  finally have "mset (concat (map ?ids (filter (\<lambda>(_, _, a, _). at_agent_id a = g) (built_attempts ids input)))) =
      image_mset (\<lambda>(c, _). tc_tool_call_id c) (filter_mset (\<lambda>c. tc_agent_id (fst c) = g) (mset (concat (map snd ?agents))))"
    by (simp only: mset_map mset_filter)
  then show ?thesis
    by (simp add: agents_of_ok(1))
qed

lemma split_turn_eq:
  "split_turn ids input =
     map (\<lambda>(index, _, _, a, meta). (a\<lparr>at_index := index\<rparr>, meta))
       (enumerate 0 (sort_key (\<lambda>(k, i, a, _). (at_started_at a, k, i)) (built_attempts ids input)))"
  by (simp add: split_turn_def built_attempts_def Let_def)

lemma built_not_Nil: "built_attempts ids input \<noteq> []"
proof -
  obtain agent cs rest where "agents_of (ti_calls input) = (agent, cs) # rest"
    using agents_of_ok(3) [of "ti_calls input"] by (cases "agents_of (ti_calls input)") auto
  moreover have "agent_attempts ids input 0 (agent, cs) \<noteq> []"
    using split_agent_ok [of "ti_turn input" cs] by (cases "split_agent (ti_turn input) cs") (auto simp: agent_attempts_def Let_def)
  ultimately show ?thesis
    by (simp add: built_attempts_def)
qed

lemma sorted_map_fst: "sorted (xs :: ('a :: linorder \<times> 'b :: linorder) list) \<Longrightarrow> sorted (map fst xs)"
  by (induction xs) (auto simp: less_eq_prod_def)

lemma split_turn_ok:
  fixes ids :: IdEnv and input :: TurnInput
  defines "R \<equiv> split_turn ids input"
  shows "R \<noteq> []" and "map (\<lambda>(a, _). at_index a) R = [0 ..< length R]"
    and "sorted (map (\<lambda>(a, _). at_started_at a) R)"
    and "mset (concat (map (\<lambda>(a, _). at_tool_call_ids a) (filter (\<lambda>(a, _). at_agent_id a = g) R))) =
      mset (call_ids (filter (\<lambda>c. tc_agent_id (fst c) = g) (ti_calls input)))"
proof -
  let ?key = "\<lambda>(k, i, a, _ :: AttemptMeta). (at_started_at a, k, i)"
  define xs where "xs = sort_key ?key (built_attempts ids input)"
  have ms: "mset xs = mset (built_attempts ids input)" and srt: "sorted (map ?key xs)"
    unfolding xs_def by simp_all
  have R: "R = map (\<lambda>(index, _, _, a, meta). (a\<lparr>at_index := index\<rparr>, meta)) (enumerate 0 xs)"
    unfolding R_def xs_def by (rule split_turn_eq)
  have len: "length R = length xs"
    by (simp add: R)
  show "R \<noteq> []"
    using built_not_Nil [of ids input] len ms by auto
  have "map (\<lambda>(a, _). at_index a) R = map (\<lambda>(i, x). i) (enumerate 0 xs)"
    unfolding R map_map by (rule map_cong) auto
  then show "map (\<lambda>(a, _). at_index a) R = [0 ..< length R]"
    using len by (simp only: enumerate_map add_0)
  have start: "map (\<lambda>(a, _). at_started_at a) R = map (\<lambda>(i, x). fst (?key x)) (enumerate 0 xs)"
    unfolding R map_map by (rule map_cong) auto
  show "sorted (map (\<lambda>(a, _). at_started_at a) R)"
    unfolding start enumerate_map using sorted_map_fst [OF srt] by (simp add: comp_def)
  have "map (\<lambda>(a, _). at_tool_call_ids a) (filter (\<lambda>(a, _). at_agent_id a = g) R) =
      map (\<lambda>(_, _, a, _). at_tool_call_ids a) (filter (\<lambda>(_, _, a, _). at_agent_id a = g) (map snd (enumerate 0 xs)))"
    unfolding R filter_map map_map by (rule map_cong) (auto intro!: filter_cong)
  moreover have f: "mset (filter (\<lambda>(_, _, a, _). at_agent_id a = g) xs) = mset (filter (\<lambda>(_, _, a, _). at_agent_id a = g) (built_attempts ids input))"
    using ms by simp
  ultimately show "mset (concat (map (\<lambda>(a, _). at_tool_call_ids a) (filter (\<lambda>(a, _). at_agent_id a = g) R))) =
      mset (call_ids (filter (\<lambda>c. tc_agent_id (fst c) = g) (ti_calls input)))"
    using mset_concat_cong [OF f, of "\<lambda>(_, _, a, _). at_tool_call_ids a"] by (simp only: map_snd_enumerate built_attempts_ids)
qed

text \<open>Over all agents: a turn's attempts hold each of its calls once.\<close>

lemma split_turn_all:
  "mset (concat (map (\<lambda>(a, _). at_tool_call_ids a) (split_turn ids input))) = mset (call_ids (ti_calls input))"
proof -
  let ?ids = "\<lambda>(_, _, a, _). at_tool_call_ids a" and ?agents = "agents_of (ti_calls input)"
  let ?xs = "sort_key (\<lambda>(k, i, a, _ :: AttemptMeta). (at_started_at a, k, i)) (built_attempts ids input)"
  have "map (\<lambda>(a, _). at_tool_call_ids a) (split_turn ids input) = map ?ids (map snd (enumerate 0 ?xs))"
    unfolding split_turn_eq map_map by (rule map_cong) auto
  then have "mset (concat (map (\<lambda>(a, _). at_tool_call_ids a) (split_turn ids input))) = mset (concat (map ?ids (built_attempts ids input)))"
    using mset_concat_cong [of ?xs "built_attempts ids input" ?ids] by (simp only: map_snd_enumerate mset_sort)
  also have "concat (map ?ids (built_attempts ids input)) = concat (map (\<lambda>(i, x). call_ids (snd x)) (enumerate 0 ?agents))"
    unfolding built_attempts_def concat_map_concat map_map
    by (rule arg_cong [where f = concat]) (auto simp: agent_attempts_ids)
  also have "\<dots> = call_ids (concat (map snd ?agents))"
    unfolding enumerate_map by (simp add: map_concat comp_def)
  also have "mset \<dots> = mset (call_ids (ti_calls input))"
    unfolding mset_map agents_of_ok(1) ..
  finally show ?thesis .
qed

section \<open>What the links are\<close>

text \<open>
  On the attempts as they were before linking: attempt \<open>j\<close> retries attempt \<open>i\<close> when it is of the same agent, in
  the same or the next turn, and edited a path \<open>i\<close> edited or passed the check that \<open>i\<close> failed. The retry of
  a failed attempt is the first such attempt after it.
\<close>

definition retries :: "Attempt list \<Rightarrow> AttemptMeta list \<Rightarrow> nat \<Rightarrow> nat \<Rightarrow> bool" where
  "retries A metas i j \<longleftrightarrow>
     at_turn_index (A ! j) \<in> {at_turn_index (A ! i), at_turn_index (A ! i) + 1} \<and>
     am_agent_id (metas ! j) = am_agent_id (metas ! i) \<and>
     (set (am_edited (metas ! i)) \<inter> set (am_edited (metas ! j)) \<noteq> {} \<or>
      (\<exists>k. am_failed_check (metas ! i) = Some k \<and> k \<in> set (am_passed_checks (metas ! j))))"

definition retry_of :: "Attempt list \<Rightarrow> AttemptMeta list \<Rightarrow> nat \<Rightarrow> nat option" where
  "retry_of A metas i = (if at_outcome (A ! i) = Failed then find (retries A metas i) [i + 1 ..< length A] else None)"

definition retry_kind :: "AttemptMeta list \<Rightarrow> nat \<Rightarrow> nat \<Rightarrow> Retry" where
  "retry_kind metas i j = (if set (am_edited (metas ! i)) \<inter> set (am_edited (metas ! j)) \<noteq> {} then SameEdit else PassedCheck)"

lemma retry_reason_eq: "retry_reason A metas i j = (if retries A metas i j then Some (retry_kind metas i j) else None)"
  by (auto simp: retry_reason_def retries_def retry_kind_def Let_def list_ex_iff split: option.split)

lemma first_some_find: "first_some (\<lambda>j. if P j then Some (f j) else None) xs = map_option f (find P xs)"
  by (induction xs) (auto simp: first_some_def List.map_filter_simps)

lemma find_retry_eq:
  "find_retry A metas i = map_option (\<lambda>j. (j, retry_kind metas i j)) (find (retries A metas i) [i + 1 ..< length A])"
proof -
  have "(\<lambda>j. map_option (Pair j) (retry_reason A metas i j)) = (\<lambda>j. if retries A metas i j then Some (j, retry_kind metas i j) else None)"
    by (auto simp: retry_reason_eq)
  then show ?thesis
    unfolding find_retry_def by (simp only: first_some_find)
qed

lemma nothing_to_retry: "am_edited (metas ! i) = [] \<Longrightarrow> am_failed_check (metas ! i) = None \<Longrightarrow> \<not> retries A metas i j"
  by (simp add: retries_def)

text \<open>The loop after \<open>k\<close> rounds, as a function of the attempts before it.\<close>

definition mark :: "Attempt list \<Rightarrow> nat option \<Rightarrow> Attempt \<Rightarrow> Attempt" where
  "mark A x a = (case x of None \<Rightarrow> a | Some j \<Rightarrow> a\<lparr>at_outcome := Superseded, at_superseded_by := Some (at_attempt_id (A ! j))\<rparr>)"

definition mark_back :: "Attempt list \<Rightarrow> nat option \<Rightarrow> Attempt \<Rightarrow> Attempt" where
  "mark_back A y a =
     (case y of None \<Rightarrow> a | Some i \<Rightarrow> if at_supersedes a = None then a\<lparr>at_supersedes := Some (at_attempt_id (A ! i))\<rparr> else a)"

definition linked :: "Attempt list \<Rightarrow> AttemptMeta list \<Rightarrow> nat \<Rightarrow> nat \<Rightarrow> Attempt" where
  "linked A metas k i =
     mark_back A (find (\<lambda>i'. retry_of A metas i' = Some i) [0 ..< k])
       (mark A (if i < k then retry_of A metas i else None) (A ! i))"

definition linked_edges :: "Attempt list \<Rightarrow> AttemptMeta list \<Rightarrow> nat \<Rightarrow> CausalEdge list" where
  "linked_edges A metas k =
     concat (map (\<lambda>i. case retry_of A metas i of None \<Rightarrow> [] | Some j \<Rightarrow> link_edges A metas i j (retry_kind metas i j)) [0 ..< k])"

lemma retry_of_bounds: "retry_of A metas i = Some j \<Longrightarrow> i < j \<and> j < length A \<and> retries A metas i j"
  by (auto simp: retry_of_def find_Some_iff split: if_splits)

lemma mark_simps [simp]:
  "mark A None a = a" "at_supersedes (mark A x a) = at_supersedes a" "mark_back A None a = a"
  "at_outcome (mark_back A y a) = at_outcome a"
  by (simp_all add: mark_def mark_back_def split: option.split)

lemma linked_core:
  "at_attempt_id (linked A metas k i) = at_attempt_id (A ! i)" "at_turn_index (linked A metas k i) = at_turn_index (A ! i)"
  "at_confidence (linked A metas k i) = at_confidence (A ! i)"
  by (simp_all add: linked_def mark_def mark_back_def split: option.split)

lemma linked_later: "k \<le> i \<Longrightarrow> at_outcome (linked A metas k i) = at_outcome (A ! i)"
  by (simp add: linked_def)

lemma mark_commute: "mark A x (mark_back A y a) = mark_back A y (mark A x a)"
  by (simp add: mark_def mark_back_def split: option.split)

lemma mark_back_twice: "mark_back A (Some i) (mark_back A (Some i') a) = mark_back A (Some i') a"
  by (simp add: mark_back_def)

text \<open>One more round marks the attempt it looks at and the one that retries it.\<close>

lemma linked_Suc:
  "linked A metas (Suc k) i =
     mark_back A (if retry_of A metas k = Some i then Some k else None)
       (mark A (if i = k then retry_of A metas k else None) (linked A metas k i))"
proof -
  have f: "find (\<lambda>i'. retry_of A metas i' = Some i) [0 ..< Suc k] =
      (case find (\<lambda>i'. retry_of A metas i' = Some i) [0 ..< k] of
         Some x \<Rightarrow> Some x | None \<Rightarrow> if retry_of A metas k = Some i then Some k else None)"
    unfolding upt_Suc_append [OF le0] find_append_cases by (simp split: option.split)
  show ?thesis
  proof (cases "i = k")
    case True
    then have "retry_of A metas k \<noteq> Some i"
      using retry_of_bounds [of A metas k i] by auto
    then show ?thesis
      using True unfolding linked_def f by (simp add: mark_commute split: option.split)
  next
    case False
    then show ?thesis
      unfolding linked_def f by (auto simp: mark_back_twice less_Suc_eq split: option.split)
  qed
qed

abbreviation linked_all :: "Attempt list \<Rightarrow> AttemptMeta list \<Rightarrow> nat \<Rightarrow> Attempt list" where
  "linked_all A metas k \<equiv> map (linked A metas k) [0 ..< length A]"

lemma linked_0: "linked_all A metas 0 = A" "linked_edges A metas 0 = []"
  by (auto intro!: nth_equalityI simp: linked_def linked_edges_def)

lemma linked_edges_Suc:
  "linked_edges A metas (Suc k) = linked_edges A metas k @
     (case retry_of A metas k of None \<Rightarrow> [] | Some j \<Rightarrow> link_edges A metas k j (retry_kind metas k j))"
  by (simp add: linked_edges_def)

lemma retries_linked:
  "k < length A \<Longrightarrow> j < length A \<Longrightarrow> retries (linked_all A metas n) metas k j = retries A metas k j"
  by (simp add: retries_def linked_core)

lemma find_retry_linked:
  assumes "k < length A"
  shows "find_retry (linked_all A metas n) metas k = find_retry A metas k"
proof -
  have "find (retries (linked_all A metas n) metas k) [k + 1 ..< length A] = find (retries A metas k) [k + 1 ..< length A]"
    by (rule find_cong) (simp_all add: retries_linked assms)
  then show ?thesis
    by (simp add: find_retry_eq)
qed

lemma link_edges_linked:
  "k < length A \<Longrightarrow> j < length A \<Longrightarrow> link_edges (linked_all A metas n) metas k j r = link_edges A metas k j r"
  by (simp add: link_edges_def linked_core)

lemma linked_all_skip: "retry_of A metas k = None \<Longrightarrow> linked_all A metas (Suc k) = linked_all A metas k"
  by (simp add: linked_Suc)

lemma linked_all_mark:
  assumes "retry_of A metas k = Some j"
  shows "linked_all A metas (Suc k) =
     (linked_all A metas k)[k := mark A (Some j) (linked A metas k k), j := mark_back A (Some k) (linked A metas k j)]"
  using retry_of_bounds [OF assms] by (auto intro!: nth_equalityI simp: linked_Suc assms nth_list_update)

lemma link_one_linked:
  assumes k: "k < length A"
  shows "link_one metas k (linked_all A metas k, E) =
     (linked_all A metas (Suc k),
      E @ (case retry_of A metas k of None \<Rightarrow> [] | Some j \<Rightarrow> link_edges A metas k j (retry_kind metas k j)))"
proof (cases "retry_of A metas k")
  case None
  then have "at_outcome (A ! k) = Failed \<Longrightarrow> find_retry A metas k = None"
    by (simp add: retry_of_def find_retry_eq)
  then show ?thesis
    using None k by (simp add: link_one_def linked_later find_retry_linked linked_all_skip)
next
  case (Some j)
  have j: "k < j" "j < length A" "retries A metas k j"
    using retry_of_bounds [OF Some] by simp_all
  have f: "at_outcome (A ! k) = Failed" "find_retry A metas k = Some (j, retry_kind metas k j)"
    using Some by (simp_all add: retry_of_def find_retry_eq split: if_splits)
  have ne: "(am_edited (metas ! k) = [] \<and> am_failed_check (metas ! k) = None) = False"
    using nothing_to_retry [of metas k A j] j(3) by blast
  have same: "(linked_all A metas k)[k := v, j := linked A metas k j] = (linked_all A metas k)[k := v]" for v
    using j by (simp add: list_update_same_conv)
  show ?thesis
    unfolding linked_all_mark [OF Some] Some
    unfolding link_one_def prod.case ne if_False
    using f k j(1,2)
    by (cases "at_supersedes (linked A metas k j)")
      (simp_all add: linked_later find_retry_linked link_edges_linked linked_core mark_def mark_back_def same)
qed

lemma link_loop:
  "k \<le> length A \<Longrightarrow> fold (link_one metas) [0 ..< k] (A, E) = (linked_all A metas k, E @ linked_edges A metas k)"
  by (induction k) (simp_all add: linked_0 link_one_linked linked_edges_Suc)

lemma link_supersession_ids:
  "map at_tool_call_ids (fst (link_supersession metas (A, E))) = map at_tool_call_ids A"
proof -
  have "at_tool_call_ids (linked A metas k i) = at_tool_call_ids (A ! i)" for k i
    by (simp add: linked_def mark_def mark_back_def split: option.split)
  then have "map at_tool_call_ids (linked_all A metas (length A)) = map (\<lambda>i. at_tool_call_ids (A ! i)) [0 ..< length A]"
    by simp
  also have "\<dots> = map at_tool_call_ids (map ((!) A) [0 ..< length A])"
    by simp
  finally show ?thesis
    using link_loop [of "length A" A metas E] by (simp add: link_supersession_def map_nth)
qed

section \<open>Examples\<close>

text \<open>Two attempts of one agent at the same file: the first failed, the second did not.\<close>

definition example_attempt :: "AttemptId \<Rightarrow> AttemptOutcome \<Rightarrow> Attempt" where
  "example_attempt n outcome =
     \<lparr>at_attempt_id = n, at_session_id = 1, at_turn_id = 1, at_turn_index = 0, at_index = 0, at_agent_id = 7,
      at_objective = None, at_approach = '''', at_started_at = 10, at_ended_at = None, at_outcome = outcome,
      at_failure_class = None, at_verification = None, at_tool_call_ids = [], at_paths = [''a.rs''], at_commit_shas = [],
      at_superseded_by = None, at_supersedes = None, at_evidence = [], at_confidence = 90,
      at_algorithm_version = ALGORITHM_VERSION, at_work_unit_id = None, at_corrected = None,
      at_inferred_outcome = None, at_inferred_failure_class = None, at_note = None\<rparr>"

definition example_meta :: "EventId \<Rightarrow> AttemptMeta" where
  "example_meta e =
     \<lparr>am_failing_event_id = Some e, am_first_action_event_id = Some e, am_edited = [''a.rs''], am_agent_id = 7,
      am_failed_check = None, am_passed_checks = []\<rparr>"

section \<open>Theorems\<close>

text \<open>
  C28: splitting one agent's calls loses, repeats and reorders none of them; a group's failing
  call is the first that ends an attempt given the edits up to it; a group opens exactly at the first call
  observed after the failure of the group before it ended; there is always a group.
\<close>

theorem split_agent_exact:
  "concat (map fst (split_agent turn calls)) = calls \<and> well_split turn (split_agent turn calls) \<and> split_agent turn calls \<noteq> []"
  by (rule split_agent_ok)

text \<open>
  C29: a turn always has an attempt; its attempts are numbered from 0 in order of their start; and
  the attempts of an agent hold exactly that agent's tool calls of the turn, each once.
\<close>

theorem split_turn_covers:
  "split_turn ids input \<noteq> [] \<and>
   map (\<lambda>(a, _). at_index a) (split_turn ids input) = [0 ..< length (split_turn ids input)] \<and>
   sorted (map (\<lambda>(a, _). at_started_at a) (split_turn ids input)) \<and>
   mset (concat (map (\<lambda>(a, _). at_tool_call_ids a) (filter (\<lambda>(a, _). at_agent_id a = g) (split_turn ids input)))) =
     mset (call_ids (filter (\<lambda>c. tc_agent_id (fst c) = g) (ti_calls input)))"
  by (intro conjI split_turn_ok)

text \<open>
  C30: linking, which updates the attempts in place while it looks for retries among them, computes
  the links of the attempts as they were: a failed attempt is superseded by the first later attempt that retries it,
  an attempt that retries several points back at the first of them, no other field and no other attempt changes, and
  the edges are those of the links in order.
\<close>

theorem supersession_links:
  assumes "length metas = length attempts"
  shows "link_supersession metas (attempts, edges) =
     (map (\<lambda>i. mark_back attempts (find (\<lambda>i'. retry_of attempts metas i' = Some i) [0 ..< length attempts])
        (mark attempts (retry_of attempts metas i) (attempts ! i))) [0 ..< length attempts],
      edges @ concat (map (\<lambda>i. case retry_of attempts metas i of None \<Rightarrow> []
        | Some j \<Rightarrow> link_edges attempts metas i j (retry_kind metas i j)) [0 ..< length attempts]))"
  using link_loop [of "length attempts" attempts metas edges]
  by (simp add: link_supersession_def linked_def linked_edges_def)

theorem supersession_links_witness:
  "length [example_meta 1, example_meta 2] = length [example_attempt 21 Failed, example_attempt 22 Succeeded] \<and>
   map at_superseded_by (fst (link_supersession [example_meta 1, example_meta 2]
     ([example_attempt 21 Failed, example_attempt 22 Succeeded], []))) = [Some 22, None] \<and>
   map at_outcome (fst (link_supersession [example_meta 1, example_meta 2]
     ([example_attempt 21 Failed, example_attempt 22 Succeeded], []))) = [Superseded, Succeeded]"
proof -
  have r: "retry_of [example_attempt 21 Failed, example_attempt 22 Succeeded] [example_meta 1, example_meta 2] 0 = Some 1"
    "retry_of [example_attempt 21 Failed, example_attempt 22 Succeeded] [example_meta 1, example_meta 2] (Suc 0) = None"
    by (simp_all add: retry_of_def retries_def example_attempt_def example_meta_def)
  show ?thesis
    using supersession_links [of "[example_meta 1, example_meta 2]" "[example_attempt 21 Failed, example_attempt 22 Succeeded]" "[]"]
    by (simp add: r mark_def mark_back_def) (simp add: example_attempt_def)
qed

end
