(* ===== verification/Handoffs.thy ===== *)
theory Handoffs
  imports Model "HOL-Library.Multiset" "HOL-Library.Product_Lexorder"
begin

text \<open>
  Cross-provider handoffs (\<open>attemptdb-project/src/handoff.rs\<close>). Detection sorts a project's turn spans by their beginning
  with a prefix maximum of their ends, and by their end with a binary search for the span that ended last; the
  theorem shows that this finds exactly the pairs of spans that the rule names. The order in which a hash map
  yields its keys is a parameter.
\<close>

section \<open>Inputs\<close>

definition SHARED_PATH_WINDOW_US :: int where
  "SHARED_PATH_WINDOW_US = 30 * 60 * 1000000"

definition QUICK_WINDOW_US :: int where
  "QUICK_WINDOW_US = 5 * 60 * 1000000"

definition BASE_TENTHS :: nat where
  "BASE_TENTHS = 6"

definition ENDED_BONUS_TENTHS :: nat where
  "ENDED_BONUS_TENTHS = 2"

definition MANY_PATHS_BONUS_TENTHS :: nat where
  "MANY_PATHS_BONUS_TENTHS = 1"

definition MANY_SHARED_PATHS :: nat where
  "MANY_SHARED_PATHS = 3"

definition CEILING_TENTHS :: nat where
  "CEILING_TENTHS = 9"

definition QUICK_CONFIDENCE :: Confidence where
  "QUICK_CONFIDENCE = 50"

record PathTouch =
  pt_first :: EventId
  pt_last :: EventId
  pt_last_at :: Timestamp
  pt_first_edit_at :: "Timestamp option"

record TurnSpan =
  sp_turn_id :: TurnId
  sp_start :: Timestamp
  sp_end :: Timestamp
  sp_first_event :: EventId
  sp_last_event :: EventId

text \<open>The paths of a session are an ordered map: here an association list in the order of its keys.\<close>

record HandoffInput =
  hi_session_id :: SessionId
  hi_provider :: Provider
  hi_project_id :: ProjectId
  hi_started_at :: Timestamp
  hi_ended_at :: "Timestamp option"
  hi_first_event_id :: EventId
  hi_end_event_id :: "EventId option"
  hi_spans :: "TurnSpan list"
  hi_paths :: "(string \<times> PathTouch) list"
  hi_active :: bool

record SpanRef =
  sr_input :: HandoffInput
  sr_span :: TurnSpan
  sr_begins :: Timestamp
  sr_first :: bool

abbreviation sr_session :: "SpanRef \<Rightarrow> SessionId" where
  "sr_session s \<equiv> hi_session_id (sr_input s)"

abbreviation sr_turn :: "SpanRef \<Rightarrow> TurnId" where
  "sr_turn s \<equiv> sp_turn_id (sr_span s)"

abbreviation sr_end :: "SpanRef \<Rightarrow> Timestamp" where
  "sr_end s \<equiv> sp_end (sr_span s)"

section \<open>Judging a pair of spans\<close>

definition giver_last :: "SpanRef \<Rightarrow> SpanRef \<Rightarrow> Timestamp" where
  "giver_last g r =
     (case hi_ended_at (sr_input g) of
        Some e \<Rightarrow> if e \<le> sr_begins r then max e (sr_end g) else sr_end g
      | None \<Rightarrow> sr_end g)"

definition giver_ended :: "SpanRef \<Rightarrow> SpanRef \<Rightarrow> bool" where
  "giver_ended g r \<longleftrightarrow> (case hi_ended_at (sr_input g) of Some e \<Rightarrow> e \<le> sr_begins r | None \<Rightarrow> False)"

definition shared_paths :: "SpanRef \<Rightarrow> SpanRef \<Rightarrow> string list" where
  "shared_paths g r =
     map fst (filter (\<lambda>(path, touch).
       (case pt_first_edit_at touch of Some t \<Rightarrow> t \<le> sr_begins r | None \<Rightarrow> False) \<and>
       (case map_of (hi_paths (sr_input r)) path of Some rt \<Rightarrow> sr_begins r \<le> pt_last_at rt | None \<Rightarrow> False))
       (hi_paths (sr_input g)))"

definition shared_confidence :: "SpanRef \<Rightarrow> SpanRef \<Rightarrow> Confidence" where
  "shared_confidence g r =
     (let tenths = BASE_TENTHS;
          tenths = (if giver_ended g r then tenths + ENDED_BONUS_TENTHS else tenths);
          tenths = (if MANY_SHARED_PATHS \<le> length (shared_paths g r) then tenths + MANY_PATHS_BONUS_TENTHS else tenths)
      in 10 * min tenths CEILING_TENTHS)"

definition handoff_evidence :: "SpanRef \<Rightarrow> SpanRef \<Rightarrow> EventId list" where
  "handoff_evidence g r =
     (let giver_event = (case (giver_ended g r, hi_end_event_id (sr_input g)) of
            (True, Some e) \<Rightarrow> e | _ \<Rightarrow> sp_last_event (sr_span g));
          receiver_event = (if sr_first r then hi_first_event_id (sr_input r) else sp_first_event (sr_span r));
          evidence = [giver_event, receiver_event] @
            (case shared_paths g r of
               [] \<Rightarrow> []
             | p # _ \<Rightarrow> [pt_last (the (map_of (hi_paths (sr_input g)) p)), pt_first (the (map_of (hi_paths (sr_input r)) p))])
      in fold push_new evidence [])"

definition judge_handoff :: "SpanRef \<Rightarrow> SpanRef \<Rightarrow> Handoff option" where
  "judge_handoff g r =
     (let gap = i64_wrap (sr_begins r - giver_last g r) in
      if gap < 0 then None
      else
        map_option (\<lambda>confidence.
          \<lparr>ho_from_session = sr_session g, ho_to_session = sr_session r, ho_from_provider = hi_provider (sr_input g),
           ho_to_provider = hi_provider (sr_input r), ho_project_id = hi_project_id (sr_input r), ho_at = sr_begins r,
           ho_gap_ms = nat (gap div 1000), ho_shared_paths = shared_paths g r, ho_evidence = handoff_evidence g r,
           ho_from_turn = Some (sr_turn g), ho_to_turn = Some (sr_turn r), ho_confidence = confidence\<rparr>)
        (if shared_paths g r \<noteq> [] \<and> gap \<le> SHARED_PATH_WINDOW_US then Some (shared_confidence g r)
         else if gap \<le> QUICK_WINDOW_US then Some QUICK_CONFIDENCE
         else None))"

section \<open>Detection\<close>

definition begin_key :: "SpanRef \<Rightarrow> Timestamp \<times> SessionId \<times> Timestamp \<times> TurnId" where
  "begin_key s = (sr_begins s, sr_session s, sp_start (sr_span s), sr_turn s)"

definition end_key :: "SpanRef \<Rightarrow> Timestamp \<times> SessionId \<times> TurnId" where
  "end_key s = (sr_end s, sr_session s, sr_turn s)"

fun prefix_max :: "Timestamp \<Rightarrow> SpanRef list \<Rightarrow> Timestamp list" where
  "prefix_max running [] = []"
| "prefix_max running (s # spans) = max running (sr_end s) # prefix_max (max running (sr_end s)) spans"

definition prefix_max_end :: "SpanRef list \<Rightarrow> Timestamp list" where
  "prefix_max_end spans = prefix_max (- (2 ^ 63)) spans"

definition same_span :: "SpanRef \<Rightarrow> SpanRef \<Rightarrow> bool" where
  "same_span g r \<longleftrightarrow> sr_session g = sr_session r \<and> sr_turn g = sr_turn r"

text \<open>\<open>partition_point\<close> on an ordered slice is the length of its longest prefix that satisfies the predicate.\<close>

definition find_giver :: "SpanRef list \<Rightarrow> nat list \<Rightarrow> SpanRef \<Rightarrow> SpanRef option" where
  "find_giver spans by_end r =
     (let upto = length (takeWhile (\<lambda>i. sr_end (spans ! i) \<le> sr_begins r) by_end)
      in find (\<lambda>g. \<not> same_span g r) (map ((!) spans) (rev (take upto by_end))))"

definition receive :: "SpanRef list \<Rightarrow> Timestamp list \<Rightarrow> nat list \<Rightarrow> nat \<Rightarrow> Handoff list" where
  "receive spans ends by_end r_pos =
     (let r = spans ! r_pos in
      if 0 < r_pos \<and> sr_begins r < ends ! (r_pos - 1) then []
      else
        (case find_giver spans by_end r of
           None \<Rightarrow> []
         | Some g \<Rightarrow>
             if sr_session g = sr_session r \<or> hi_provider (sr_input g) = hi_provider (sr_input r) then []
             else (case judge_handoff g r of None \<Rightarrow> [] | Some h \<Rightarrow> [h])))"

definition detect_in_project :: "SpanRef list \<Rightarrow> Handoff list" where
  "detect_in_project spans =
     (let spans = sort_key begin_key spans; ends = prefix_max_end spans;
          by_end = sort_key (\<lambda>i. end_key (spans ! i)) [0 ..< length spans]
      in concat (map (receive spans ends by_end) [0 ..< length spans]))"

definition span_refs :: "HandoffInput \<Rightarrow> SpanRef list" where
  "span_refs input =
     map (\<lambda>(n, span). \<lparr>sr_input = input, sr_span = span,
        sr_begins = (if n = 0 then min (hi_started_at input) (sp_start span) else sp_start span), sr_first = (n = 0)\<rparr>)
       (enumerate 0 (hi_spans input))"

definition all_spans :: "HandoffInput list \<Rightarrow> SpanRef list" where
  "all_spans inputs = concat (map span_refs (filter hi_active inputs))"

definition by_project :: "HandoffInput list \<Rightarrow> ProjectId \<rightharpoonup> SpanRef list" where
  "by_project inputs = fold (\<lambda>s. push_entry (hi_project_id (sr_input s)) s) (all_spans inputs) Map.empty"

definition handoff_key :: "Handoff \<Rightarrow> Timestamp \<times> SessionId \<times> SessionId \<times> TurnId" where
  "handoff_key h = (ho_at h, ho_to_session h, ho_from_session h, the (ho_to_turn h))"

definition detect :: "((ProjectId \<rightharpoonup> SpanRef list) \<Rightarrow> ProjectId list) \<Rightarrow> HandoffInput list \<Rightarrow> Handoff list" where
  "detect keys inputs =
     sort_key handoff_key (concat (map (\<lambda>p. detect_in_project (the (by_project inputs p))) (keys (by_project inputs))))"

section \<open>What a handoff is\<close>

text \<open>
  A span receives when no span that began before it is still running; the giver is the span that ended
  last before it; the two are of different sessions and of different providers.
\<close>

definition quiet :: "SpanRef list \<Rightarrow> SpanRef \<Rightarrow> bool" where
  "quiet spans r \<longleftrightarrow> (\<forall>s \<in> set spans. begin_key s < begin_key r \<longrightarrow> sr_end s \<le> sr_begins r)"

definition ended_last :: "SpanRef list \<Rightarrow> SpanRef \<Rightarrow> SpanRef \<Rightarrow> bool" where
  "ended_last spans g r \<longleftrightarrow> g \<in> set spans \<and> \<not> same_span g r \<and> sr_end g \<le> sr_begins r \<and>
     (\<forall>s \<in> set spans. \<not> same_span s r \<longrightarrow> sr_end s \<le> sr_begins r \<longrightarrow> end_key s \<le> end_key g)"

definition handed_off :: "SpanRef list \<Rightarrow> SpanRef \<Rightarrow> SpanRef \<Rightarrow> bool" where
  "handed_off spans g r \<longleftrightarrow> r \<in> set spans \<and> quiet spans r \<and> ended_last spans g r \<and>
     sr_session g \<noteq> sr_session r \<and> hi_provider (sr_input g) \<noteq> hi_provider (sr_input r)"

text \<open>Spans are known apart by their session and turn; timestamps are 64-bit.\<close>

definition spans_ok :: "SpanRef list \<Rightarrow> bool" where
  "spans_ok spans \<longleftrightarrow> distinct (map (\<lambda>s. (sr_session s, sr_turn s)) spans) \<and> list_all (\<lambda>s. i64_range (sr_begins s)) spans"

section \<open>Sorted lists\<close>

lemma distinct_map_mset: "mset xs = mset ys \<Longrightarrow> distinct (map f xs) = distinct (map f ys)"
  by (metis mset_map mset_eq_imp_distinct_iff)

lemma distinct_key: "distinct (map f xs) \<Longrightarrow> (\<And>x y. k x = k y \<Longrightarrow> f x = f y) \<Longrightarrow> distinct (map k xs)"
  unfolding distinct_map inj_on_def by blast

lemma sorted_key_less:
  assumes "sorted (map k xs)" and "distinct (map k xs)" and "i < length xs" and "j < length xs"
  shows "(k (xs ! i) :: 'k :: linorder) < k (xs ! j) \<longleftrightarrow> i < j"
proof -
  have "sorted_wrt (<) (map k xs)"
    using assms(1,2) strict_sorted_iff by blast
  then have "k (xs ! a) < k (xs ! b)" if "a < b" "b < length xs" for a b
    using sorted_wrt_nth_less [of "(<)" "map k xs" a b] that by simp
  then show ?thesis
    using assms(3,4) by (cases i j rule: linorder_cases) (auto dest: less_not_sym)
qed

lemma takeWhile_filter:
  assumes "sorted (map k xs)" and "\<And>x y. k x \<le> (k y :: 'k :: linorder) \<Longrightarrow> Q y \<Longrightarrow> Q x"
  shows "takeWhile Q xs = filter Q xs"
  using assms(1)
proof (induction xs)
  case (Cons x xs)
  then have "\<not> Q x \<Longrightarrow> filter Q xs = []"
    using assms(2) by (auto simp: filter_empty_conv)
  then show ?case
    using Cons by simp
qed simp

lemma find_rev: "find P (rev xs) = (if filter P xs = [] then None else Some (last (filter P xs)))"
  by (induction xs rule: rev_induct) auto

lemma sorted_last_max: "sorted (map k xs) \<Longrightarrow> x \<in> set xs \<Longrightarrow> (k x :: 'k :: linorder) \<le> k (last xs)"
  by (induction xs) auto

text \<open>The last element of a sorted list with a property is the one with the greatest key.\<close>

lemma find_last_sorted:
  assumes k: "sorted (map k xs)" "distinct (map k xs)" and Q: "\<And>x y. k x \<le> (k y :: 'k :: linorder) \<Longrightarrow> Q y \<Longrightarrow> Q x"
  shows "find P (rev (takeWhile Q xs)) = Some g \<longleftrightarrow>
    g \<in> set xs \<and> P g \<and> Q g \<and> (\<forall>s \<in> set xs. P s \<longrightarrow> Q s \<longrightarrow> k s \<le> k g)"
proof -
  let ?L = "filter P (filter Q xs)"
  have eq: "find P (rev (takeWhile Q xs)) = (if ?L = [] then None else Some (last ?L))"
    using takeWhile_filter [OF k(1), of Q] Q by (simp add: find_rev)
  have sortedL: "sorted (map k ?L)"
    using k(1) by (simp add: sorted_filter)
  have inj: "inj_on k (set xs)"
    using k(2) by (simp add: distinct_map)
  show ?thesis
  proof
    assume "find P (rev (takeWhile Q xs)) = Some g"
    then have "?L \<noteq> []" "g = last ?L"
      unfolding eq by (simp_all split: if_splits)
    then show "g \<in> set xs \<and> P g \<and> Q g \<and> (\<forall>s \<in> set xs. P s \<longrightarrow> Q s \<longrightarrow> k s \<le> k g)"
      using last_in_set [of ?L] sorted_last_max [OF sortedL] by auto
  next
    assume g: "g \<in> set xs \<and> P g \<and> Q g \<and> (\<forall>s \<in> set xs. P s \<longrightarrow> Q s \<longrightarrow> k s \<le> k g)"
    then have L: "g \<in> set ?L"
      by simp
    then have last: "last ?L \<in> set ?L"
      by (intro last_in_set) (auto simp: filter_empty_conv)
    then have "k (last ?L) = k g"
      using g sorted_last_max [OF sortedL L] by (intro antisym) auto
    then show "find P (rev (takeWhile Q xs)) = Some g"
      using inj last g L unfolding eq inj_on_def by (auto simp: filter_empty_conv)
  qed
qed

section \<open>Detection is exact\<close>

lemma prefix_max_length [simp]: "length (prefix_max m spans) = length spans"
  by (induction spans arbitrary: m) simp_all

lemma prefix_max_le:
  "k < length spans \<Longrightarrow> prefix_max m spans ! k \<le> t \<longleftrightarrow> m \<le> t \<and> (\<forall>j \<le> k. sr_end (spans ! j) \<le> t)"
proof (induction spans arbitrary: m k)
  case (Cons s spans)
  show ?case
  proof (cases k)
    case (Suc n)
    have "(\<forall>j \<le> Suc n. sr_end ((s # spans) ! j) \<le> t) \<longleftrightarrow> sr_end s \<le> t \<and> (\<forall>j \<le> n. sr_end (spans ! j) \<le> t)"
      by (metis Suc_le_mono le0 not0_implies_Suc nth_Cons_0 nth_Cons_Suc)
    then show ?thesis
      using Cons Suc by auto
  qed simp
qed simp

lemma quiet_prefix:
  assumes s: "sorted (map begin_key spans)" "distinct (map begin_key spans)" and k: "k < length spans"
    and b: "i64_range (sr_begins (spans ! k))"
  shows "\<not> (0 < k \<and> sr_begins (spans ! k) < prefix_max_end spans ! (k - 1)) \<longleftrightarrow> quiet spans (spans ! k)"
proof -
  have "quiet spans (spans ! k) \<longleftrightarrow> (\<forall>j < k. sr_end (spans ! j) \<le> sr_begins (spans ! k))"
    unfolding quiet_def all_set_conv_all_nth using sorted_key_less [OF s _ k] k by auto
  also have "\<dots> \<longleftrightarrow> k = 0 \<or> prefix_max_end spans ! (k - 1) \<le> sr_begins (spans ! k)"
    using k b by (cases k) (auto simp: prefix_max_end_def prefix_max_le i64_range_def less_Suc_eq_le)
  finally show ?thesis
    by auto
qed

lemma find_giver_eq:
  assumes B: "mset by_end = mset [0 ..< length spans]" "sorted (map (\<lambda>i. end_key (spans ! i)) by_end)"
    and d: "distinct (map end_key spans)"
  shows "find_giver spans by_end r = Some g \<longleftrightarrow> ended_last spans g r"
proof -
  let ?E = "map ((!) spans) by_end" and ?Q = "\<lambda>s. sr_end s \<le> sr_begins r"
  have "mset ?E = mset (map ((!) spans) [0 ..< length spans])"
    using B(1) by (metis mset_map)
  then have m: "mset ?E = mset spans"
    by (simp add: map_nth)
  have E: "sorted (map end_key ?E)" "distinct (map end_key ?E)" "set ?E = set spans"
    using B(2) d distinct_map_mset [OF m, of end_key] mset_eq_setD [OF m] by (simp_all add: comp_def)
  have "map ((!) spans) (rev (take (length (takeWhile (\<lambda>i. ?Q (spans ! i)) by_end)) by_end)) = rev (takeWhile ?Q ?E)"
    by (simp add: takeWhile_map comp_def rev_map flip: takeWhile_eq_take)
  then have "find_giver spans by_end r = find (\<lambda>g. \<not> same_span g r) (rev (takeWhile ?Q ?E))"
    by (simp add: find_giver_def Let_def)
  moreover have "?Q x" if "end_key x \<le> end_key y" "?Q y" for x y
    using that by (auto simp: end_key_def)
  ultimately show ?thesis
    using find_last_sorted [OF E(1,2), of ?Q "\<lambda>g. \<not> same_span g r" g] unfolding E(3) ended_last_def by presburger
qed

lemma set_spec: "mset xs = mset ys \<Longrightarrow> quiet xs r = quiet ys r \<and> ended_last xs g r = ended_last ys g r"
  using mset_eq_setD [of xs ys] by (simp add: quiet_def ended_last_def)

lemma receive_eq:
  assumes "quiet spans (spans ! k) \<longleftrightarrow> \<not> (0 < k \<and> sr_begins (spans ! k) < ends ! (k - 1))"
    and "\<And>g. find_giver spans by_end (spans ! k) = Some g \<longleftrightarrow> ended_last spans g (spans ! k)" and "k < length spans"
  shows "h \<in> set (receive spans ends by_end k) \<longleftrightarrow> (\<exists>g. handed_off spans g (spans ! k) \<and> judge_handoff g (spans ! k) = Some h)"
proof (cases "find_giver spans by_end (spans ! k)")
  case None
  then show ?thesis
    using assms(2) by (auto simp: receive_def handed_off_def Let_def)
next
  case (Some g)
  then have "ended_last spans g' (spans ! k) \<longleftrightarrow> g' = g" for g'
    using assms(2) [of g'] by auto
  then show ?thesis
    using assms(1,3) Some by (auto simp: receive_def handed_off_def Let_def split: option.splits)
qed

lemma detect_in_project_exact:
  assumes "spans_ok spans"
  shows "set (detect_in_project spans) = {h. \<exists>g r. handed_off spans g r \<and> judge_handoff g r = Some h}"
proof -
  define S where "S = sort_key begin_key spans"
  define B where "B = sort_key (\<lambda>i. end_key (S ! i)) [0 ..< length S]"
  have m: "mset S = mset spans"
    by (simp add: S_def)
  have dist: "distinct (map (\<lambda>s. (sr_session s, sr_turn s)) S)"
    unfolding distinct_map_mset [OF m] using assms by (simp add: spans_ok_def)
  have d: "distinct (map begin_key S)" "distinct (map end_key S)"
    by (rule distinct_key [OF dist], simp add: begin_key_def, rule distinct_key [OF dist], simp add: end_key_def)
  have B: "mset B = mset [0 ..< length S]" "sorted (map (\<lambda>i. end_key (S ! i)) B)"
    by (simp_all add: B_def)
  have range: "i64_range (sr_begins (S ! k))" if "k < length S" for k
    using assms nth_mem [OF that] mset_eq_setD [OF m] by (auto simp: spans_ok_def list_all_iff)
  have "h \<in> set (receive S (prefix_max_end S) B k) \<longleftrightarrow> (\<exists>g. handed_off S g (S ! k) \<and> judge_handoff g (S ! k) = Some h)"
    if "k < length S" for k h
    using quiet_prefix [OF _ d(1) that range [OF that]] find_giver_eq [OF B d(2)] that
    by (intro receive_eq) (simp_all add: S_def)
  then have "h \<in> set (detect_in_project spans) \<longleftrightarrow> (\<exists>k < length S. \<exists>g. handed_off S g (S ! k) \<and> judge_handoff g (S ! k) = Some h)" for h
    unfolding detect_in_project_def Let_def S_def [symmetric] B_def [symmetric] by auto
  moreover have "handed_off S g r \<longleftrightarrow> handed_off spans g r" for g r
    using set_spec [OF m] mset_eq_setD [OF m] by (simp add: handed_off_def)
  moreover have "handed_off spans g r \<Longrightarrow> \<exists>k < length S. r = S ! k" for g r
    using mset_eq_setD [OF m] by (metis handed_off_def in_set_conv_nth)
  ultimately show ?thesis
    by blast
qed

abbreviation project_spans :: "HandoffInput list \<Rightarrow> ProjectId \<Rightarrow> SpanRef list" where
  "project_spans inputs p \<equiv> filter (\<lambda>s. hi_project_id (sr_input s) = p) (all_spans inputs)"

lemma by_project_eq: "by_project inputs p = (if project_spans inputs p = [] then None else Some (project_spans inputs p))"
  unfolding by_project_def using push_entries [of "\<lambda>s. hi_project_id (sr_input s)" "\<lambda>s. s" "all_spans inputs" p]
  by (simp add: Let_def)

lemma spans_ok_filter: "spans_ok spans \<Longrightarrow> spans_ok (filter P spans)"
  by (auto simp: spans_ok_def distinct_map_filter list_all_iff)

lemma detect_set:
  assumes "set (keys (by_project inputs)) = dom (by_project inputs)" and "spans_ok (all_spans inputs)"
  shows "set (detect keys inputs) =
    {h. \<exists>g r. handed_off (project_spans inputs (hi_project_id (sr_input r))) g r \<and> judge_handoff g r = Some h}"
proof -
  have dom: "p \<in> dom (by_project inputs) \<longleftrightarrow> project_spans inputs p \<noteq> []" for p
    by (simp add: dom_def by_project_eq)
  have p: "hi_project_id (sr_input r) = p \<and> project_spans inputs p \<noteq> []" if "handed_off (project_spans inputs p) g r" for p g r
    using that by (auto simp: handed_off_def filter_empty_conv)
  have "set (detect keys inputs) = (\<Union>p \<in> {p. project_spans inputs p \<noteq> []}. set (detect_in_project (project_spans inputs p)))"
    using assms(1) dom by (auto simp: detect_def by_project_eq simp del: filter_empty_conv)
  also have "\<dots> = {h. \<exists>p g r. project_spans inputs p \<noteq> [] \<and> handed_off (project_spans inputs p) g r \<and> judge_handoff g r = Some h}"
    unfolding detect_in_project_exact [OF spans_ok_filter [OF assms(2)]] by blast
  also have "\<dots> = {h. \<exists>g r. handed_off (project_spans inputs (hi_project_id (sr_input r))) g r \<and> judge_handoff g r = Some h}"
    using p by blast
  finally show ?thesis .
qed

section \<open>Examples\<close>

text \<open>One session edits a file and goes quiet; a minute later a session of another provider touches it.\<close>

definition example_input :: "SessionId \<Rightarrow> Provider \<Rightarrow> Timestamp \<Rightarrow> HandoffInput" where
  "example_input n provider t =
     \<lparr>hi_session_id = n, hi_provider = provider, hi_project_id = 7, hi_started_at = t, hi_ended_at = None,
      hi_first_event_id = n, hi_end_event_id = None,
      hi_spans = [\<lparr>sp_turn_id = n, sp_start = t, sp_end = t + 1000000, sp_first_event = n, sp_last_event = n\<rparr>],
      hi_paths = [(''a.rs'', \<lparr>pt_first = n, pt_last = n, pt_last_at = t + 500000, pt_first_edit_at = Some (t + 500000)\<rparr>)],
      hi_active = True\<rparr>"

definition example_inputs :: "HandoffInput list" where
  "example_inputs = [example_input 1 ClaudeCode 0, example_input 2 Codex 61000000]"

section \<open>Theorems\<close>



end
