(* ===== verification/Trace.thy ===== *)
theory Trace
  imports Model AttemptQl
begin

text \<open>
  The causal graph behind \<open>TRACE\<close> (\<open>attemptdb-query/src/graph.rs\<close>): the edges of a projection with the
  edges derived from attempts and signals, the index of edges by endpoint, and the breadth-first walk. The walk's
  loop is a partial function; the theorem shows that it returns, and that its steps are exactly the
  causal edges within the depth asked for, each once, at its distance from the start.
\<close>

section \<open>The graph\<close>

text \<open>The tables of a projection that the graph is built from.\<close>

record Projection =
  pj_sessions :: "Session list"
  pj_turns :: "Turn list"
  pj_tool_calls :: "ToolCall list"
  pj_attempts :: "Attempt list"
  pj_edges :: "CausalEdge list"
  pj_signals :: "Signal list"

record GraphEdge =
  ge_from :: EdgeEndpoint
  ge_to :: EdgeEndpoint
  ge_kind :: EdgeKind
  ge_evidence :: "EventId list"
  ge_confidence :: Confidence
  ge_derived :: bool

record Graph =
  gh_edges :: "GraphEdge list"
  gh_incoming :: "EdgeEndpoint \<rightharpoonup> nat list"
  gh_outgoing :: "EdgeEndpoint \<rightharpoonup> nat list"

record TraceStep =
  ts_depth :: nat
  ts_edge :: nat

definition is_causal :: "EdgeKind \<Rightarrow> bool" where
  "is_causal kind \<longleftrightarrow> kind \<noteq> EvidenceFor"

fun endpoint_type :: "EdgeEndpoint \<Rightarrow> string" where
  "endpoint_type (EventEnd _) = ''event''"
| "endpoint_type (SpanEnd _) = ''tool_call''"
| "endpoint_type (TurnEnd _) = ''turn''"
| "endpoint_type (AttemptEnd _) = ''attempt''"
| "endpoint_type (SessionEnd _) = ''session''"
| "endpoint_type (WorkUnitEnd _) = ''work_unit''"

definition is_failed_status :: "OutcomeStatus \<Rightarrow> bool" where
  "is_failed_status status \<longleftrightarrow> status = Failure \<or> status = Denied"

text \<open>Collecting rows into a hash map by a key: of two rows with the same key the later one stays.\<close>

definition by_key :: "('a \<Rightarrow> 'k) \<Rightarrow> 'a list \<Rightarrow> 'k \<rightharpoonup> 'a" where
  "by_key key rows = map_of (rev (map (\<lambda>r. (key r, r)) rows))"

definition failing_call :: "(SpanId \<rightharpoonup> ToolCall) \<Rightarrow> SpanId \<Rightarrow> EventId option" where
  "failing_call calls i =
     (case calls i of
        None \<Rightarrow> None
      | Some c \<Rightarrow>
          (case tc_outcome c of
             None \<Rightarrow> None
           | Some o' \<Rightarrow> if is_failed_status (oc_status o') then tc_end_event_id c else None))"

fun first_event :: "(SpanId \<rightharpoonup> ToolCall) \<Rightarrow> SpanId list \<Rightarrow> EventId option" where
  "first_event calls [] = None"
| "first_event calls (i # is) = (case failing_call calls i of Some e \<Rightarrow> Some e | None \<Rightarrow> first_event calls is)"

definition failing_event :: "Attempt \<Rightarrow> (SpanId \<rightharpoonup> ToolCall) \<Rightarrow> Turn option \<Rightarrow> EventId option" where
  "failing_event a calls turn =
     (case first_event calls (rev (at_tool_call_ids a)) of
        Some e \<Rightarrow> Some e
      | None \<Rightarrow> (case turn of Some t \<Rightarrow> if tu_status t = TurnHasFailed then tu_stop_event_id t else None | None \<Rightarrow> None))"

definition projected_edge :: "CausalEdge \<Rightarrow> GraphEdge" where
  "projected_edge e =
     \<lparr>ge_from = ce_from e, ge_to = ce_to e, ge_kind = ce_kind e, ge_evidence = ce_evidence e,
      ge_confidence = ce_confidence e, ge_derived = False\<rparr>"

definition derived_edge :: "EventId \<Rightarrow> EdgeEndpoint \<Rightarrow> EdgeKind \<Rightarrow> Confidence \<Rightarrow> GraphEdge" where
  "derived_edge e target kind confidence =
     \<lparr>ge_from = EventEnd e, ge_to = target, ge_kind = kind, ge_evidence = [e], ge_confidence = confidence, ge_derived = True\<rparr>"

definition attempt_edges :: "(TurnId \<rightharpoonup> Turn) \<Rightarrow> (SpanId \<rightharpoonup> ToolCall) \<Rightarrow> Attempt \<Rightarrow> GraphEdge list" where
  "attempt_edges turns calls a =
     (let turn = turns (at_turn_id a) in
      (case Option.bind turn tu_prompt_event_id of
         None \<Rightarrow> []
       | Some prompt \<Rightarrow> [derived_edge prompt (AttemptEnd (at_attempt_id a)) Triggered (at_confidence a)]) @
      (if is_failure (at_outcome a)
       then case failing_event a calls turn of
              None \<Rightarrow> []
            | Some f \<Rightarrow> [derived_edge f (AttemptEnd (at_attempt_id a)) Caused (at_confidence a)]
       else []))"

definition signal_edge :: "(SessionId \<rightharpoonup> Session) \<Rightarrow> Signal \<Rightarrow> GraphEdge" where
  "signal_edge sessions g =
     (let coverage = (case sessions (sg_session_id g) of None \<Rightarrow> CoverageUnknown | Some s \<Rightarrow> ss_coverage s) in
      derived_edge (sg_event_id g) (SessionEnd (sg_session_id g)) BlockedEdge (Signal_confidence g coverage))"

definition build_edges :: "Projection \<Rightarrow> GraphEdge list" where
  "build_edges p =
     map projected_edge (pj_edges p) @
     concat (map (attempt_edges (by_key tu_turn_id (pj_turns p)) (by_key tc_tool_call_id (pj_tool_calls p))) (pj_attempts p)) @
     map (signal_edge (by_key ss_session_id (pj_sessions p))) (filter (\<lambda>g. sg_blocking g \<and> sg_cleared_at g = None) (pj_signals p))"

definition build_index :: "(GraphEdge \<Rightarrow> EdgeEndpoint) \<Rightarrow> GraphEdge list \<Rightarrow> EdgeEndpoint \<rightharpoonup> nat list" where
  "build_index key edges = fold (\<lambda>(i, e). push_entry (key e) i) (enumerate 0 edges) Map.empty"

definition Graph_of :: "GraphEdge list \<Rightarrow> Graph" where
  "Graph_of edges = \<lparr>gh_edges = edges, gh_incoming = build_index ge_to edges, gh_outgoing = build_index ge_from edges\<rparr>"

definition Graph_build :: "Projection \<Rightarrow> Graph" where
  "Graph_build p = Graph_of (build_edges p)"

section \<open>The walk\<close>

definition follow :: "Graph \<Rightarrow> (GraphEdge \<Rightarrow> EdgeEndpoint) \<Rightarrow> nat list option \<Rightarrow> (nat \<times> EdgeEndpoint) list" where
  "follow g far ids =
     (case ids of
        None \<Rightarrow> []
      | Some is \<Rightarrow> map (\<lambda>i. (i, far (gh_edges g ! i))) (filter (\<lambda>i. is_causal (ge_kind (gh_edges g ! i))) is))"

definition nexts :: "Graph \<Rightarrow> Direction \<Rightarrow> EdgeEndpoint \<Rightarrow> (nat \<times> EdgeEndpoint) list" where
  "nexts g direction node =
     (if direction = Up \<or> direction = Both then follow g ge_from (gh_incoming g node) else []) @
     (if direction = Down \<or> direction = Both then follow g ge_to (gh_outgoing g node) else [])"

record Walk =
  wk_steps :: "TraceStep list"
  wk_visited :: "EdgeEndpoint set"
  wk_emitted :: "nat set"
  wk_queue :: "(EdgeEndpoint \<times> nat) list"

definition visit :: "nat \<Rightarrow> nat \<times> EdgeEndpoint \<Rightarrow> Walk \<Rightarrow> Walk" where
  "visit depth = (\<lambda>(i, far) w.
     let w = (if i \<in> wk_emitted w then w
              else w\<lparr>wk_emitted := insert i (wk_emitted w),
                     wk_steps := wk_steps w @ [\<lparr>ts_depth = depth + 1, ts_edge = i\<rparr>]\<rparr>)
     in if far \<in> wk_visited w then w
        else w\<lparr>wk_visited := insert far (wk_visited w), wk_queue := wk_queue w @ [(far, depth + 1)]\<rparr>)"

partial_function (option) trace_loop :: "Graph \<Rightarrow> nat \<Rightarrow> Direction \<Rightarrow> Walk \<Rightarrow> bool \<Rightarrow> (TraceStep list \<times> bool) option" where
  "trace_loop g max_depth direction w truncated =
     (case wk_queue w of
        [] \<Rightarrow> Some (wk_steps w, truncated)
      | (node, depth) # queue \<Rightarrow>
          (let w = w\<lparr>wk_queue := queue\<rparr>; ns = nexts g direction node in
           if max_depth \<le> depth
           then trace_loop g max_depth direction w (truncated \<or> list_ex (\<lambda>(i, _). i \<notin> wk_emitted w) ns)
           else trace_loop g max_depth direction (fold (visit depth) ns w) truncated))"

definition trace :: "Graph \<Rightarrow> EdgeEndpoint \<Rightarrow> nat \<Rightarrow> Direction \<Rightarrow> (TraceStep list \<times> bool) option" where
  "trace g start max_depth direction =
     trace_loop g max_depth direction \<lparr>wk_steps = [], wk_visited = {start}, wk_emitted = {}, wk_queue = [(start, 0)]\<rparr> False"

section \<open>What a walk reaches\<close>

text \<open>
  An edge goes from a node to another in the direction asked for; the nodes within a distance of the start, and the
  edges a walk of a given depth has to cross.
\<close>

definition goes :: "GraphEdge \<Rightarrow> Direction \<Rightarrow> EdgeEndpoint \<Rightarrow> EdgeEndpoint \<Rightarrow> bool" where
  "goes e direction v w \<longleftrightarrow> is_causal (ge_kind e) \<and>
     (direction \<noteq> Down \<and> ge_to e = v \<and> ge_from e = w \<or> direction \<noteq> Up \<and> ge_from e = v \<and> ge_to e = w)"

primrec within :: "GraphEdge list \<Rightarrow> Direction \<Rightarrow> EdgeEndpoint \<Rightarrow> nat \<Rightarrow> EdgeEndpoint set" where
  "within es direction start 0 = {start}"
| "within es direction start (Suc n) =
     within es direction start n \<union> {w. \<exists>v \<in> within es direction start n. \<exists>e \<in> set es. goes e direction v w}"

definition edges_from :: "GraphEdge list \<Rightarrow> Direction \<Rightarrow> EdgeEndpoint set \<Rightarrow> nat set" where
  "edges_from es direction V = {i. i < length es \<and> (\<exists>v \<in> V. \<exists>w. goes (es ! i) direction v w)}"

primrec walked :: "GraphEdge list \<Rightarrow> Direction \<Rightarrow> EdgeEndpoint \<Rightarrow> nat \<Rightarrow> nat set" where
  "walked es direction start 0 = {}"
| "walked es direction start (Suc n) = edges_from es direction (within es direction start n)"

section \<open>The index\<close>

lemma build_index_set:
  "set (case build_index key es v of None \<Rightarrow> [] | Some is \<Rightarrow> is) = {i. i < length es \<and> key (es ! i) = v}"
proof -
  have "build_index key es = fold (\<lambda>x. push_entry (key (snd x)) (fst x)) (enumerate 0 es) Map.empty"
    unfolding build_index_def by (rule fold_cong) auto
  then have "build_index key es v =
      (let is = map fst (filter (\<lambda>x. key (snd x) = v) (enumerate 0 es)) in if is = [] then None else Some is)"
    by (simp only: push_entries)
  then have "set (case build_index key es v of None \<Rightarrow> [] | Some is \<Rightarrow> is) = fst ` {x \<in> set (enumerate 0 es). key (snd x) = v}"
    by (auto simp: Let_def filter_empty_conv split: if_splits)
  then show ?thesis
    by (simp only: in_set_enumerate_eq image_Collect) auto
qed

lemma follow_set:
  "set (follow (Graph_of es) far (build_index key es v)) = {(i, w). i < length es \<and> is_causal (ge_kind (es ! i)) \<and> key (es ! i) = v \<and> far (es ! i) = w}"
proof -
  have "set (follow (Graph_of es) far ids) =
      (\<lambda>i. (i, far (es ! i))) ` {i \<in> set (case ids of None \<Rightarrow> [] | Some is \<Rightarrow> is). is_causal (ge_kind (es ! i))}" for ids
    by (auto simp: follow_def Graph_of_def split: option.split)
  from this [of "build_index key es v", unfolded build_index_set] show ?thesis
    by auto
qed

lemma nexts_set: "set (nexts (Graph_of es) direction v) = {(i, w). i < length es \<and> goes (es ! i) direction v w}"
proof -
  have "gh_incoming (Graph_of es) = build_index ge_to es" "gh_outgoing (Graph_of es) = build_index ge_from es"
    by (simp_all add: Graph_of_def)
  then show ?thesis
    unfolding nexts_def by (cases direction) (auto simp: follow_set goes_def)
qed

section \<open>One level of the walk\<close>

lemma visit_fold:
  "\<exists>I Q. distinct I \<and> set I = fst ` set ns - wk_emitted w \<and> set Q = snd ` set ns - wk_visited w \<and>
     fold (visit d) ns w =
       \<lparr>wk_steps = wk_steps w @ map (\<lambda>i. \<lparr>ts_depth = Suc d, ts_edge = i\<rparr>) I, wk_visited = wk_visited w \<union> snd ` set ns,
        wk_emitted = wk_emitted w \<union> fst ` set ns, wk_queue = wk_queue w @ map (\<lambda>v. (v, Suc d)) Q\<rparr>"
proof (induction ns arbitrary: w)
  case Nil
  then show ?case
    by (intro exI [of _ "[]"]) simp
next
  case (Cons n ns)
  obtain i v where n: "n = (i, v)"
    by (cases n)
  let ?I = "if i \<in> wk_emitted w then [] else [i]" and ?Q = "if v \<in> wk_visited w then [] else [v]"
  have v: "visit d (i, v) w =
      \<lparr>wk_steps = wk_steps w @ map (\<lambda>i. \<lparr>ts_depth = Suc d, ts_edge = i\<rparr>) ?I, wk_visited = insert v (wk_visited w),
       wk_emitted = insert i (wk_emitted w), wk_queue = wk_queue w @ map (\<lambda>v. (v, Suc d)) ?Q\<rparr>"
    by (cases w) (auto simp: visit_def Let_def insert_absorb)
  obtain I Q where IQ: "distinct I" "set I = fst ` set ns - insert i (wk_emitted w)" "set Q = snd ` set ns - insert v (wk_visited w)"
    and f: "fold (visit d) ns (visit d (i, v) w) =
       \<lparr>wk_steps = (wk_steps w @ map (\<lambda>i. \<lparr>ts_depth = Suc d, ts_edge = i\<rparr>) ?I) @ map (\<lambda>i. \<lparr>ts_depth = Suc d, ts_edge = i\<rparr>) I,
        wk_visited = insert v (wk_visited w) \<union> snd ` set ns, wk_emitted = insert i (wk_emitted w) \<union> fst ` set ns,
        wk_queue = (wk_queue w @ map (\<lambda>v. (v, Suc d)) ?Q) @ map (\<lambda>v. (v, Suc d)) Q\<rparr>"
    using Cons.IH [of "visit d (i, v) w"] unfolding v by auto
  show ?case
    by (rule exI [of _ "?I @ I"], rule exI [of _ "?Q @ Q"]) (use IQ f in \<open>auto simp: n\<close>)
qed

abbreviation around :: "Graph \<Rightarrow> Direction \<Rightarrow> EdgeEndpoint list \<Rightarrow> (nat \<times> EdgeEndpoint) set" where
  "around g direction F \<equiv> \<Union>v \<in> set F. set (nexts g direction v)"

lemma trace_level:
  assumes "d < max_depth" and "wk_queue w = map (\<lambda>v. (v, d)) F @ map (\<lambda>v. (v, Suc d)) B"
  shows "\<exists>I Q. distinct I \<and> set I = fst ` around g direction F - wk_emitted w \<and> set Q = snd ` around g direction F - wk_visited w \<and>
     trace_loop g max_depth direction w truncated = trace_loop g max_depth direction
       \<lparr>wk_steps = wk_steps w @ map (\<lambda>i. \<lparr>ts_depth = Suc d, ts_edge = i\<rparr>) I, wk_visited = wk_visited w \<union> snd ` around g direction F,
        wk_emitted = wk_emitted w \<union> fst ` around g direction F, wk_queue = map (\<lambda>v. (v, Suc d)) (B @ Q)\<rparr> truncated"
  using assms(2)
proof (induction F arbitrary: w B)
  case Nil
  then have "w = \<lparr>wk_steps = wk_steps w, wk_visited = wk_visited w, wk_emitted = wk_emitted w, wk_queue = map (\<lambda>v. (v, Suc d)) B\<rparr>"
    by (cases w) simp
  then show ?case
    by (intro exI [of _ "[]"]) simp
next
  case (Cons v F)
  let ?w = "w\<lparr>wk_queue := map (\<lambda>v. (v, d)) F @ map (\<lambda>v. (v, Suc d)) B\<rparr>" and ?ns = "nexts g direction v"
  obtain I Q where IQ: "distinct I" "set I = fst ` set ?ns - wk_emitted w" "set Q = snd ` set ?ns - wk_visited w"
    and f: "fold (visit d) ?ns ?w =
       \<lparr>wk_steps = wk_steps w @ map (\<lambda>i. \<lparr>ts_depth = Suc d, ts_edge = i\<rparr>) I, wk_visited = wk_visited w \<union> snd ` set ?ns,
        wk_emitted = wk_emitted w \<union> fst ` set ?ns, wk_queue = (map (\<lambda>v. (v, d)) F @ map (\<lambda>v. (v, Suc d)) B) @ map (\<lambda>v. (v, Suc d)) Q\<rparr>"
    using visit_fold [of ?ns ?w d] by auto
  have step: "trace_loop g max_depth direction w truncated = trace_loop g max_depth direction (fold (visit d) ?ns ?w) truncated"
    by (subst trace_loop.simps) (use assms(1) Cons.prems in simp)
  obtain I' Q' where IQ': "distinct I'" "set I' = fst ` around g direction F - (wk_emitted w \<union> fst ` set ?ns)"
      "set Q' = snd ` around g direction F - (wk_visited w \<union> snd ` set ?ns)"
    and r: "trace_loop g max_depth direction (fold (visit d) ?ns ?w) truncated = trace_loop g max_depth direction
       \<lparr>wk_steps = (wk_steps w @ map (\<lambda>i. \<lparr>ts_depth = Suc d, ts_edge = i\<rparr>) I) @ map (\<lambda>i. \<lparr>ts_depth = Suc d, ts_edge = i\<rparr>) I',
        wk_visited = (wk_visited w \<union> snd ` set ?ns) \<union> snd ` around g direction F,
        wk_emitted = (wk_emitted w \<union> fst ` set ?ns) \<union> fst ` around g direction F,
        wk_queue = map (\<lambda>v. (v, Suc d)) ((B @ Q) @ Q')\<rparr> truncated"
    using Cons.IH [of "fold (visit d) ?ns ?w" "B @ Q"] unfolding f by auto
  show ?case
    by (rule exI [of _ "I @ I'"], rule exI [of _ "Q @ Q'"])
      (use IQ IQ' in \<open>auto simp: step r image_Un Un_assoc\<close>)
qed

lemma trace_last_level:
  assumes "wk_queue w = map (\<lambda>v. (v, max_depth)) F"
  shows "trace_loop g max_depth direction w truncated =
     Some (wk_steps w, truncated \<or> (\<exists>(i, _) \<in> around g direction F. i \<notin> wk_emitted w))"
  using assms
proof (induction F arbitrary: w truncated)
  case Nil
  then show ?case
    by (subst trace_loop.simps) simp
next
  case (Cons v F)
  let ?w = "w\<lparr>wk_queue := map (\<lambda>v. (v, max_depth)) F\<rparr>"
  have "trace_loop g max_depth direction w truncated =
      trace_loop g max_depth direction ?w (truncated \<or> (\<exists>(i, _) \<in> set (nexts g direction v). i \<notin> wk_emitted w))"
    by (subst trace_loop.simps) (simp add: Cons.prems list_ex_iff)
  also have "\<dots> = Some (wk_steps w, (truncated \<or> (\<exists>(i, _) \<in> set (nexts g direction v). i \<notin> wk_emitted w)) \<or>
      (\<exists>(i, _) \<in> around g direction F. i \<notin> wk_emitted w))"
    by (subst Cons.IH) simp_all
  finally show ?case
    by (simp add: bex_Un disj_assoc)
qed

section \<open>The whole walk\<close>

text \<open>
  The walk as it starts on a level: the nodes it knows are those within \<open>d\<close>, the queue holds at least the
  new ones among them, and the steps are the edges walked so far, each once and at its level.
\<close>

definition level_steps :: "GraphEdge list \<Rightarrow> Direction \<Rightarrow> EdgeEndpoint \<Rightarrow> nat \<Rightarrow> TraceStep set" where
  "level_steps es direction start d =
     {\<lparr>ts_depth = Suc n, ts_edge = i\<rparr> | n i. n < d \<and> i \<in> walked es direction start (Suc n) - walked es direction start n}"

definition at_level :: "GraphEdge list \<Rightarrow> Direction \<Rightarrow> EdgeEndpoint \<Rightarrow> nat \<Rightarrow> Walk \<Rightarrow> bool" where
  "at_level es direction start d w \<longleftrightarrow>
     wk_visited w = within es direction start d \<and> wk_emitted w = walked es direction start d \<and>
     (\<exists>F. wk_queue w = map (\<lambda>v. (v, d)) F \<and> set F \<subseteq> within es direction start d \<and>
       (\<forall>v \<in> within es direction start d. v \<notin> set F \<longrightarrow> 0 < d \<and> v \<in> within es direction start (d - 1))) \<and>
     set (wk_steps w) = level_steps es direction start d \<and> distinct (map ts_edge (wk_steps w)) \<and>
     set (map ts_edge (wk_steps w)) = walked es direction start d \<and> sorted (map ts_depth (wk_steps w))"

lemma within_mono: "within es direction start n \<subseteq> within es direction start (Suc n)"
  by simp

lemma walked_mono: "walked es direction start n \<subseteq> walked es direction start (Suc n)"
  by (cases n) (auto simp: edges_from_def)

lemma level_steps_Suc:
  "level_steps es direction start (Suc d) = level_steps es direction start d \<union>
     (\<lambda>i. \<lparr>ts_depth = Suc d, ts_edge = i\<rparr>) ` (walked es direction start (Suc d) - walked es direction start d)"
  by (auto simp: level_steps_def less_Suc_eq)

text \<open>The nodes on the queue are all that the next level needs: the edges at older nodes were walked before.\<close>

lemma within_step: "v \<in> within es direction start d \<Longrightarrow> i < length es \<Longrightarrow> goes (es ! i) direction v w \<Longrightarrow> w \<in> within es direction start (Suc d)"
  using nth_mem [of i es] by (simp del: nth_mem) blast

lemma within_Suc_cases:
  assumes "w \<in> within es direction start (Suc d)"
  obtains "w \<in> within es direction start d"
  | v i where "v \<in> within es direction start d" "i < length es" "goes (es ! i) direction v w"
  using assms by (auto simp: in_set_conv_nth)

lemma walked_step: "v \<in> within es direction start d \<Longrightarrow> i < length es \<Longrightarrow> goes (es ! i) direction v w \<Longrightarrow> i \<in> walked es direction start (Suc d)"
  by (auto simp: edges_from_def)

lemma around_eq: "around (Graph_of es) direction F = {(i, w). i < length es \<and> (\<exists>v \<in> set F. goes (es ! i) direction v w)}"
  by (auto simp: nexts_set)

lemma image_pairs: "fst ` {(i, w). P i w} = {i. \<exists>w. P i w}" "snd ` {(i, w). P i w} = {w. \<exists>i. P i w}"
  by force+

lemma around_front:
  assumes F: "set F \<subseteq> within es direction start d"
    and old: "\<forall>v \<in> within es direction start d. v \<notin> set F \<longrightarrow> 0 < d \<and> v \<in> within es direction start (d - 1)"
  shows "walked es direction start d \<union> fst ` around (Graph_of es) direction F = walked es direction start (Suc d)"
    and "within es direction start d \<union> snd ` around (Graph_of es) direction F = within es direction start (Suc d)"
proof -
  let ?W = "within es direction start"
  have new: "v \<in> set F \<or> i \<in> walked es direction start d \<and> w \<in> ?W d"
    if "v \<in> ?W d" "i < length es" "goes (es ! i) direction v w" for v i w
  proof (cases "v \<in> set F")
    case False
    then have "0 < d" "v \<in> ?W (d - 1)"
      using old that(1) by blast+
    then obtain n where n: "d = Suc n" "v \<in> ?W n"
      by (metis Suc_diff_1)
    then show ?thesis
      using within_step [OF n(2) that(2,3)] walked_step [OF n(2) that(2,3)] unfolding n(1) by (intro disjI2 conjI)
  qed simp
  show "walked es direction start d \<union> fst ` around (Graph_of es) direction F = walked es direction start (Suc d)"
    unfolding around_eq image_pairs
  proof (intro equalityI subsetI)
    fix i
    assume i: "i \<in> walked es direction start (Suc d)"
    then obtain v w where v: "v \<in> ?W d" "i < length es" "goes (es ! i) direction v w"
      by (auto simp: edges_from_def)
    from new [OF v] show "i \<in> walked es direction start d \<union> {i. \<exists>w. i < length es \<and> (\<exists>v \<in> set F. goes (es ! i) direction v w)}"
      using v(2,3) by blast
  next
    fix i
    assume "i \<in> walked es direction start d \<union> {i. \<exists>w. i < length es \<and> (\<exists>v \<in> set F. goes (es ! i) direction v w)}"
    then show "i \<in> walked es direction start (Suc d)"
      using walked_mono [of es direction start d] walked_step [of _ es direction start d i] F by blast
  qed
  show "?W d \<union> snd ` around (Graph_of es) direction F = ?W (Suc d)"
    unfolding around_eq image_pairs
  proof (intro equalityI subsetI)
    fix w
    assume "w \<in> ?W (Suc d)"
    then show "w \<in> ?W d \<union> {w. \<exists>i < length es. \<exists>v \<in> set F. goes (es ! i) direction v w}"
    proof (rule within_Suc_cases)
      fix v i
      assume v: "v \<in> ?W d" "i < length es" "goes (es ! i) direction v w"
      from new [OF v] show ?thesis
        using v(2,3) by blast
    qed simp
  next
    fix w
    assume "w \<in> ?W d \<union> {w. \<exists>i < length es. \<exists>v \<in> set F. goes (es ! i) direction v w}"
    then show "w \<in> ?W (Suc d)"
      using within_mono [of es direction start d] within_step [of _ es direction start d _ w] F by blast
  qed
qed

lemma at_level_start:
  "at_level es direction start 0 \<lparr>wk_steps = [], wk_visited = {start}, wk_emitted = {}, wk_queue = [(start, 0)]\<rparr>"
  unfolding at_level_def by (auto intro!: exI [of _ "[start]"] simp: level_steps_def)

lemma at_level_Suc:
  assumes w: "at_level es direction start d w" and d: "d < max_depth"
  shows "\<exists>w'. at_level es direction start (Suc d) w' \<and>
    trace_loop (Graph_of es) max_depth direction w truncated = trace_loop (Graph_of es) max_depth direction w' truncated"
proof -
  let ?step = "\<lambda>i. \<lparr>ts_depth = Suc d, ts_edge = i\<rparr>"
  obtain F where F: "wk_queue w = map (\<lambda>v. (v, d)) F" "set F \<subseteq> within es direction start d"
    "\<forall>v \<in> within es direction start d. v \<notin> set F \<longrightarrow> 0 < d \<and> v \<in> within es direction start (d - 1)"
    using w unfolding at_level_def by blast
  have inv: "wk_visited w = within es direction start d" "wk_emitted w = walked es direction start d"
    "set (wk_steps w) = level_steps es direction start d" "distinct (map ts_edge (wk_steps w))"
    "set (map ts_edge (wk_steps w)) = walked es direction start d" "sorted (map ts_depth (wk_steps w))"
    using w unfolding at_level_def by blast+
  obtain I Q where IQ: "distinct I" "set I = fst ` around (Graph_of es) direction F - walked es direction start d"
      "set Q = snd ` around (Graph_of es) direction F - within es direction start d"
    and eq: "trace_loop (Graph_of es) max_depth direction w truncated = trace_loop (Graph_of es) max_depth direction
       \<lparr>wk_steps = wk_steps w @ map ?step I, wk_visited = within es direction start (Suc d),
        wk_emitted = walked es direction start (Suc d), wk_queue = map (\<lambda>v. (v, Suc d)) Q\<rparr> truncated"
    using trace_level [OF d, of w F "[]" "Graph_of es" direction truncated] F(1)
    unfolding inv(1,2) around_front [OF F(2,3)] by auto
  have I: "set I = walked es direction start (Suc d) - walked es direction start d"
    unfolding IQ(2) around_front(1) [OF F(2,3), symmetric] by blast
  have Q: "set Q = within es direction start (Suc d) - within es direction start d"
    unfolding IQ(3) around_front(2) [OF F(2,3), symmetric] by blast
  have "ts_depth s \<le> Suc d" if "s \<in> set (wk_steps w)" for s
    using that unfolding inv(3) level_steps_def by auto
  then have "at_level es direction start (Suc d)
      \<lparr>wk_steps = wk_steps w @ map ?step I, wk_visited = within es direction start (Suc d),
       wk_emitted = walked es direction start (Suc d), wk_queue = map (\<lambda>v. (v, Suc d)) Q\<rparr>"
    using inv(3-6) IQ(1) I Q walked_mono [of es direction start d]
    unfolding at_level_def level_steps_Suc
    by (auto simp: comp_def sorted_append map_replicate_const simp del: within.simps walked.simps intro!: exI [of _ Q])
  then show ?thesis
    using eq by blast
qed

lemma trace_at_level:
  "d \<le> max_depth \<Longrightarrow> \<exists>w. at_level es direction start d w \<and>
     trace (Graph_of es) start max_depth direction = trace_loop (Graph_of es) max_depth direction w False"
proof (induction d)
  case 0
  then show ?case
    using at_level_start unfolding trace_def by blast
next
  case (Suc d)
  then show ?case
    using at_level_Suc [of es direction start d] by (metis Suc_leD Suc_le_lessD)
qed

lemma trace_result:
  "\<exists>steps. trace (Graph_of es) start max_depth direction =
     Some (steps, walked es direction start (Suc max_depth) \<noteq> walked es direction start max_depth) \<and>
     set steps = level_steps es direction start max_depth \<and> distinct (map ts_edge steps) \<and> sorted (map ts_depth steps)"
proof -
  obtain w where w: "at_level es direction start max_depth w"
    and eq: "trace (Graph_of es) start max_depth direction = trace_loop (Graph_of es) max_depth direction w False"
    using trace_at_level by blast
  obtain F where F: "wk_queue w = map (\<lambda>v. (v, max_depth)) F" "set F \<subseteq> within es direction start max_depth"
    "\<forall>v \<in> within es direction start max_depth. v \<notin> set F \<longrightarrow> 0 < max_depth \<and> v \<in> within es direction start (max_depth - 1)"
    using w unfolding at_level_def by blast
  have "(\<exists>(i, _) \<in> around (Graph_of es) direction F. i \<notin> walked es direction start max_depth) \<longleftrightarrow>
      \<not> fst ` around (Graph_of es) direction F \<subseteq> walked es direction start max_depth"
    unfolding image_subset_iff by (metis (no_types, lifting) case_prod_beta)
  also have "\<dots> \<longleftrightarrow> walked es direction start (Suc max_depth) \<noteq> walked es direction start max_depth"
    using around_front(1) [OF F(2,3)] by blast
  finally show ?thesis
    unfolding eq trace_last_level [OF F(1)] using w unfolding at_level_def by auto
qed

section \<open>Theorems\<close>

text \<open>
  C31: \<open>TRACE\<close> returns on every graph built from a projection, cycles included. Its steps are the causal edges that leave,
  in the direction asked for, a node closer to the start than the depth limit; each edge is one step, with
  a depth one more than the distance of the nearest node it leaves; steps come in order of depth; and the walk
  reports that the limit cut it short exactly when one level more would cross another edge.
\<close>

theorem trace_exact:
  "\<exists>steps. trace (Graph_build p) start max_depth direction =
     Some (steps, walked (build_edges p) direction start (Suc max_depth) \<noteq> walked (build_edges p) direction start max_depth) \<and>
     set steps = {\<lparr>ts_depth = Suc n, ts_edge = i\<rparr> | n i. n < max_depth \<and>
       i \<in> walked (build_edges p) direction start (Suc n) - walked (build_edges p) direction start n} \<and>
     distinct (map ts_edge steps) \<and> sorted (map ts_depth steps)"
  using trace_result [of "build_edges p" start max_depth direction] unfolding Graph_build_def level_steps_def .

end
