(* ===== verification/Spec2Isabelle.thy ===== *)
theory Spec2Isabelle
  imports Resync Compaction Purge Writing Distance Attempts Handoffs Trace
begin

text \<open>
  \<^bold>\<open>AttemptDB in Isabelle/HOL.\<close>

  AttemptDB records what coding agents did as a stream of immutable events. Hooks produce events in the
  canonical form of \<open>attemptdb-core\<close>; \<open>attemptdb-storage\<close> keeps them in an embedded database (a
  write-ahead log, a memtable, columnar segment files and numbered manifest generations);
  \<open>attemptdb-project\<close> derives sessions, attempts and handoffs from them; a query
  layer reads them with SQL or with its own statement language, AttemptQL. This development models the
  core of events, the whole storage engine below its public operations, the inference of attempts and handoffs,
  the causal graph and the front end of the query language, and proves that they keep what they promise. Paths
  below are relative to \<open>src/crates\<close>.

  \<^bold>\<open>Shared material.\<close>
  \<^item> \<open>Prelude\<close>: machine-integer types, byte encodings, slices, results with \<open>Ok\<close> and \<open>Err\<close>, the named
    theorem collections, and \<open>transition_system\<close>, a locale for state machines with an invariant.
  \<^item> \<open>Str\<close>: the part of Rust's \<open>str\<close> API the sources use, on UTF-8 bytes.

  \<^bold>\<open>Events (attemptdb-core).\<close>
  \<^item> \<open>Clock\<close> (\<open>clock.rs\<close>, \<open>time.rs\<close>): the hybrid logical clock on 64-bit words. The locale \<open>monotone_clock\<close>
    is its contract; timestamps issued by \<open>next\<close> increase strictly.
  \<^item> \<open>Paths\<close> (\<open>paths.rs\<close>): portable paths; home directories are elided, so that no account name is stored.
  \<^item> \<open>Event\<close> (\<open>event.rs\<close>, \<open>ids.rs\<close>, \<open>privacy.rs\<close>, \<open>codec.rs\<close>, \<open>schema.rs\<close>): the event record and its parts.
  \<^item> \<open>Attrs\<close> (\<open>attrs.rs\<close>): the metadata sanitiser, and what can be in the metadata after it.

  \<^bold>\<open>Storage (attemptdb-storage).\<close>
  \<^item> \<open>Frame\<close>, \<open>Resync\<close> (\<open>frame.rs\<close>, \<open>format.rs\<close>): framed append-only files, their stopping and their
    resynchronising scan, the writer with torn writes. \<open>record_log\<close> is the locale of a log of records.
  \<^item> \<open>Wal\<close> (\<open>wal.rs\<close>): numbered log files; open recovers, append is durable, truncation is exact.
  \<^item> \<open>Manifest\<close> (\<open>manifest.rs\<close>): generations with a checksum; publication is atomic under every fault.
  \<^item> \<open>Compaction\<close> (\<open>compaction.rs\<close>): the planner.
  \<^item> \<open>Segment\<close>, \<open>SegFile\<close> (\<open>segment.rs\<close>): the columnar schema, writing and reading a row, segment files.
  \<^item> \<open>Selection\<close> (\<open>memtable.rs\<close> and the filters of \<open>db.rs\<close>): memtable, id sets, scan filter, pruning.
  \<^item> \<open>Database\<close>, \<open>Ingest\<close>, \<open>Durability\<close>, \<open>Maintain\<close>, \<open>Recovery\<close>, \<open>Purge\<close> (\<open>db.rs\<close>): the handle as a record,
    the disk as three directories, every operation as a function on both with the faults of its file
    operations as an argument. \<open>Ingest\<close> shows that deduplication is exact. \<open>Durability\<close> has the
    invariant \<open>db_inv\<close> between handle and disk and that each operation keeps it. \<open>Maintain\<close> and \<open>Purge\<close> are
    compaction and purge. \<open>Recovery\<close> interprets \<open>transition_system\<close>: runs of create, open, ingest, flush,
    compact and garbage collection, with any faults and crashes in between, refine a list of stored
    events.

  \<^bold>\<open>Projection (attemptdb-project).\<close>
  \<^item> \<open>Model\<close> (\<open>model.rs\<close>, \<open>approach.rs\<close>, \<open>order.rs\<close>, \<open>liveness.rs\<close>): the derived entities as records; confidences are
    kept in hundredths.
  \<^item> \<open>Attempts\<close> (\<open>attempts.rs\<close>): a turn's tool calls split by agent and at failures, and failed attempts linked to
    their retries. The split is a partition with the boundaries the rules name; the links made in place are those of
    the attempts before linking.
  \<^item> \<open>Handoffs\<close> (\<open>handoff.rs\<close>): the sorted search for handoffs finds exactly the pairs of spans of the rule.

  \<^bold>\<open>Queries (attemptdb-query).\<close>
  \<^item> \<open>Trace\<close> (\<open>graph.rs\<close>): the causal graph and the breadth-first walk of \<open>TRACE\<close>, which returns on every graph with
    exactly the edges within the depth asked for.
  \<^item> \<open>TimeExpr\<close> (\<open>timeexpr.rs\<close>, \<open>Timestamp::parse\<close>): time expressions.
  \<^item> \<open>Lexer\<close> (\<open>attemptql/lexer.rs\<close>): the tokeniser; tokens tile the text.
  \<^item> \<open>AttemptQl\<close> (\<open>attemptql/ast.rs\<close>, \<open>parser.rs\<close>, \<open>mod.rs\<close>): the syntax tree, the parser, the edit distance
    behind its suggestions and the choice between SQL and AttemptQL. \<open>Parsing\<close> shows that the parser always
    returns and that its errors point into the text, \<open>Writing\<close> that a written statement is read back, \<open>Distance\<close> that the edit distance is the least number of
    edits.

  \<^bold>\<open>Parameters.\<close> Code outside the repository is an argument of the definitions that use it: CRC-32 (no
  assumption is made of it), serde (reads back what it wrote), the Parquet container and the digest of a
  segment, the blob cipher (reads back what it stored), UUIDs, the order in which a hash map is visited, the calendar and time zones, the
  SQL expression parser, the secret detector. The hypotheses are \<open>env_ok\<close>, \<open>codecs_ok\<close>, \<open>serde_ok\<close> and
  \<open>blobs_ok\<close>; witnesses instantiate all of them with concrete functions.

  \<^bold>\<open>Faults and loops.\<close> A file operation takes a fault argument: how many bytes of a write landed, which
  read failed, whether a rename, a removal or a directory sync was refused. A crash is the loss of the
  handle. Loops are structural recursions or have a termination proof; the loops of the AttemptQL parser
  carry as much fuel as there are tokens, and a theorem shows that it never runs out; the queue of the trace is a
  partial function, and a theorem shows that it returns.

  \<^bold>\<open>Not modelled.\<close> The file-system layer itself (locks, permissions, fsync) and directory tools
  (\<open>snapshot.rs\<close>, \<open>repair.rs\<close>, \<open>cache.rs\<close>, \<open>identity.rs\<close>), the driver of the projection (\<open>projector.rs\<close>) and its
  inferences over work units and decisions, encryption (\<open>blobs.rs\<close>), the record-batch readers
  for SQL and query execution (DataFusion), the credential patterns of \<open>secrets.rs\<close>, the adapters of the
  agents' JSON payloads, daemons, HTTP servers and user interfaces: they are input and output around
  the core, or calls into third-party engines.
\<close>

end
